(* ===== verification/Prelude.thy ===== *)
theory Prelude
  imports Complex_Main "HOL-Library.Word" "HOL-Library.AList" "HOL-Library.Monad_Syntax"
  "HOL-Library.Multiset"
begin

unbundle bit_operations_syntax

text \<open>
  Shared ground of the development: the integer types of \<^verbatim>\<open>src/src/deptran/constants.h\<close>,
  the model of the C++ containers, the model of \<^verbatim>\<open>verify\<close>, and the counting lemmas that
  the quorum arguments rest on.

  \<^item> \<^verbatim>\<open>epoch_t\<close>, \<^verbatim>\<open>uint64_t\<close> and the other unsigned types whose width matters are machine
    words; \<^verbatim>\<open>key_t\<close>, \<^verbatim>\<open>value_t\<close> and \<^verbatim>\<open>ballot_t\<close> are signed, never overflow in the code
    modelled here, and are \<open>int\<close>.
  \<^item> An \<^verbatim>\<open>unordered_map\<close> or \<^verbatim>\<open>map\<close> is an association list with distinct keys. The lists are
    updated with \<open>AList.update\<close> and \<open>AList.delete\<close>; the iteration order of an
    \<^verbatim>\<open>unordered_map\<close> is unspecified in C++ and is the order of the list here.
  \<^item> \<^verbatim>\<open>verify(e)\<close> aborts the process when \<open>e\<close> is false. An operation that can abort returns
    an \<open>option\<close>, \<open>None\<close> being the aborted process; sequencing is \<open>Option.bind\<close>.
\<close>

section \<open>Integer types\<close>

type_synonym u16 = "16 word"
type_synonym u32 = "32 word"
type_synonym u64 = "64 word"
type_synonym epoch_t = u32
type_synonym key_t = int
type_synonym value_t = int
type_synonym ballot_t = int

section \<open>Aborting computations\<close>

text \<open>\<^verbatim>\<open>verify(b)\<close>: continue when \<open>b\<close> holds, abort otherwise.\<close>

definition vrfy :: "bool \<Rightarrow> unit option" where
  "vrfy b = (if b then Some () else None)"

named_theorems abort_simps \<open>evaluation of computations that may abort\<close>

lemma vrfy_True [simp, abort_simps]: "vrfy True = Some ()"
  by (simp add: vrfy_def)

lemma vrfy_False [simp, abort_simps]: "vrfy False = None"
  by (simp add: vrfy_def)

lemma vrfy_Some_iff [simp]: "vrfy b = Some u \<longleftrightarrow> b"
  by (simp add: vrfy_def)

lemma vrfy_bind [simp]: "(vrfy b \<bind> f) = Some x \<longleftrightarrow> b \<and> f () = Some x"
  by (cases b) simp_all

text \<open>
  Evaluating a computation step by step: the rest of a bind is left alone until its first part
  is a value.
\<close>

lemma bind_weak_cong: "x = y \<Longrightarrow> Option.bind x f = Option.bind y f"
  by simp

section \<open>Association lists\<close>

named_theorems alist_simps \<open>lookups after updates of association lists\<close>

text \<open>\<^verbatim>\<open>m[k]\<close> on a map whose missing entries are default-constructed.\<close>

definition at_default :: "'v \<Rightarrow> ('k \<times> 'v) list \<Rightarrow> 'k \<Rightarrow> 'v" where
  "at_default d m k = (case map_of m k of None \<Rightarrow> d | Some v \<Rightarrow> v)"

lemma map_of_update [simp, alist_simps]:
  "map_of (AList.update k v m) k' = (if k' = k then Some v else map_of m k')"
  by (simp add: update_conv')

lemma map_of_delete [simp, alist_simps]:
  "map_of (AList.delete k m) k' = (if k' = k then None else map_of m k')"
  by (simp add: delete_conv')

lemma at_default_update [simp, alist_simps]:
  "at_default d (AList.update k v m) k' = (if k' = k then v else at_default d m k')"
  by (simp add: at_default_def)

lemma at_default_delete [simp, alist_simps]:
  "at_default d (AList.delete k m) k' = (if k' = k then d else at_default d m k')"
  by (simp add: at_default_def)

lemma at_default_Nil [simp]: "at_default d [] k = d"
  by (simp add: at_default_def)

lemma at_default_Some: "map_of m k = Some v \<Longrightarrow> at_default d m k = v"
  by (simp add: at_default_def)

lemma at_default_None: "map_of m k = None \<Longrightarrow> at_default d m k = d"
  by (simp add: at_default_def)

abbreviation keys_of :: "('k \<times> 'v) list \<Rightarrow> 'k list" where
  "keys_of m \<equiv> map fst m"

lemma distinct_keys_update [simp]:
  "distinct (keys_of m) \<Longrightarrow> distinct (keys_of (AList.update k v m))"
  by (rule distinct_update)

lemma distinct_keys_delete [simp]:
  "distinct (keys_of m) \<Longrightarrow> distinct (keys_of (AList.delete k m))"
  by (rule distinct_delete)

lemma set_keys_update: "set (keys_of (AList.update k v m)) = insert k (set (keys_of m))"
  by (auto simp: update_keys)

lemma in_set_update:
  assumes "distinct (keys_of m)"
  shows "(k', v') \<in> set (AList.update k v m) \<longleftrightarrow> (if k' = k then v' = v else (k', v') \<in> set m)"
proof -
  have "distinct (keys_of (AList.update k v m))" using assms by simp
  from map_of_eq_Some_iff [OF this, of k' v'] map_of_eq_Some_iff [OF assms, of k' v']
  show ?thesis by auto
qed

lemma in_set_delete:
  assumes "distinct (keys_of m)"
  shows "(k', v') \<in> set (AList.delete k m) \<longleftrightarrow> k' \<noteq> k \<and> (k', v') \<in> set m"
proof -
  have "distinct (keys_of (AList.delete k m))" using assms by simp
  from map_of_eq_Some_iff [OF this, of k' v'] map_of_eq_Some_iff [OF assms, of k' v']
  show ?thesis by (auto split: if_splits)
qed

lemma map_of_Some_in_set:
  "distinct (keys_of m) \<Longrightarrow> map_of m k = Some v \<longleftrightarrow> (k, v) \<in> set m"
  by (rule map_of_eq_Some_iff)

subsection \<open>Counting the entries that satisfy a predicate\<close>

text \<open>
  \<open>count_vals P m\<close> is the number of entries of \<open>m\<close> whose value satisfies \<open>P\<close>; how an
  update or an erase changes it is what the write counters of the command pool and of the
  witness must follow.
\<close>

definition count_vals :: "('v \<Rightarrow> bool) \<Rightarrow> ('k \<times> 'v) list \<Rightarrow> nat" where
  "count_vals P m = length (filter (\<lambda>(k, v). P v) m)"

lemma count_vals_Nil [simp]: "count_vals P [] = 0"
  by (simp add: count_vals_def)

lemma count_vals_Cons [simp]:
  "count_vals P ((k, v) # m) = (if P v then Suc (count_vals P m) else count_vals P m)"
  by (simp add: count_vals_def)

lemma count_vals_update:
  "count_vals P (AList.update k v m) + (case map_of m k of Some w \<Rightarrow> of_bool (P w) | None \<Rightarrow> 0)
     = count_vals P m + of_bool (P v)"
  by (induction m) (auto split: option.splits)

lemma count_vals_delete:
  "distinct (keys_of m) \<Longrightarrow>
   count_vals P (AList.delete k m) + (case map_of m k of Some w \<Rightarrow> of_bool (P w) | None \<Rightarrow> 0)
     = count_vals P m"
proof (induction m)
  case (Cons e m)
  obtain k' w where e: "e = (k', w)" by (cases e)
  have absent: "AList.delete k' m = m" if "k' \<notin> fst ` set m"
    using that by (simp add: delete_idem)
  from Cons show ?case
    by (auto simp: e absent map_of_eq_None_iff split: option.splits)
qed simp

lemma count_vals_pos:
  "map_of m k = Some v \<Longrightarrow> P v \<Longrightarrow> 0 < count_vals P m"
  by (induction m) (auto split: if_splits)

lemma count_vals_zero:
  "distinct (keys_of m) \<Longrightarrow>
   count_vals P m = 0 \<longleftrightarrow> (\<forall>k v. map_of m k = Some v \<longrightarrow> \<not> P v)"
  by (auto simp: count_vals_def filter_empty_conv)

lemma count_vals_two:
  assumes "distinct (keys_of m)" "map_of m k = Some v" "P v" "map_of m k' = Some v'" "P v'" "k \<noteq> k'"
  shows "2 \<le> count_vals P m"
proof -
  have "map_of (AList.delete k' m) k = Some v" using assms by simp
  then have "0 < count_vals P (AList.delete k' m)" using assms(3) by (rule count_vals_pos)
  with count_vals_delete [OF assms(1), of P k'] assms(4,5) show ?thesis by simp
qed

text \<open>\<open>sum_vals f m\<close> adds up a measure of the values.\<close>

definition sum_vals :: "('v \<Rightarrow> nat) \<Rightarrow> ('k \<times> 'v) list \<Rightarrow> nat" where
  "sum_vals f m = sum_list (map (\<lambda>(k, v). f v) m)"

lemma sum_vals_Nil [simp]: "sum_vals f [] = 0"
  by (simp add: sum_vals_def)

lemma sum_vals_Cons [simp]: "sum_vals f ((k, v) # m) = f v + sum_vals f m"
  by (simp add: sum_vals_def)

lemma sum_vals_update:
  "sum_vals f (AList.update k v m) + (case map_of m k of Some w \<Rightarrow> f w | None \<Rightarrow> 0)
     = sum_vals f m + f v"
  by (induction m) (auto split: option.splits)

lemma sum_vals_update_default:
  "f d = 0 \<Longrightarrow> sum_vals f (AList.update k v m) + f (at_default d m k) = sum_vals f m + f v"
  using sum_vals_update [of f k v m] by (auto simp: at_default_def split: option.splits)

lemma count_vals_update_default:
  "\<not> P d \<Longrightarrow> count_vals P (AList.update k v m) + of_bool (P (at_default d m k))
     = count_vals P m + of_bool (P v)"
  using count_vals_update [of P k v m] by (auto simp: at_default_def split: option.splits)

lemma length_update:
  "length (AList.update k v m) = (if map_of m k = None then Suc (length m) else length m)"
  by (induction m) (auto split: if_splits)

lemma length_delete:
  "distinct (keys_of m) \<Longrightarrow>
   length (AList.delete k m) = (if map_of m k = None then length m else length m - 1)"
  using count_vals_delete [of m "\<lambda>_. True" k]
  by (auto simp: count_vals_def split_beta split: option.splits)

section \<open>Intersecting quorums\<close>

text \<open>
  Every quorum argument of the protocols is one of these two counting facts on subsets of a
  finite set of replicas.
\<close>

lemma card_inter_ge:
  assumes "finite R" "A \<subseteq> R" "B \<subseteq> R"
  shows "card A + card B \<le> card R + card (A \<inter> B)"
proof -
  have fin: "finite A" "finite B" using assms by (auto intro: finite_subset)
  have "card A + card B = card (A \<union> B) + card (A \<inter> B)"
    using fin by (rule card_Un_Int)
  also have "card (A \<union> B) \<le> card R"
    using assms by (intro card_mono) auto
  finally show ?thesis by simp
qed

lemma quorums_intersect:
  assumes "finite R" "A \<subseteq> R" "B \<subseteq> R" "card R < card A + card B"
  obtains r where "r \<in> A" "r \<in> B"
proof -
  have "0 < card (A \<inter> B)" using card_inter_ge [OF assms(1-3)] assms(4) by linarith
  then have "A \<inter> B \<noteq> {}" by auto
  then show thesis using that by blast
qed

section \<open>Order statistics\<close>

text \<open>
  The element of rank \<open>k\<close> of a list, as the commit rule and the read lease pick it from a
  sorted copy: at least \<open>length xs - k\<close> elements reach it, and it is the greatest value that
  so many elements reach.
\<close>

lemma length_filter_sort: "length (filter P (sort xs)) = length (filter P xs)"
  by (metis mset_filter mset_sort size_mset)

lemma rank_reached:
  fixes xs :: "'a::linorder list"
  assumes "k < length xs"
  shows "length xs - k \<le> length (filter (\<lambda>x. sort xs ! k \<le> x) xs)"
proof -
  let ?ys = "sort xs"
  have "x \<in> set (drop k ?ys) \<Longrightarrow> ?ys ! k \<le> x" for x
    using assms by (auto simp: in_set_conv_nth intro!: sorted_nth_mono)
  then have "filter (\<lambda>x. ?ys ! k \<le> x) (drop k ?ys) = drop k ?ys" by (simp add: filter_id_conv)
  then have "length (drop k ?ys) \<le> length (filter (\<lambda>x. ?ys ! k \<le> x) (take k ?ys @ drop k ?ys))"
    by (simp del: append_take_drop_id)
  then show ?thesis by (simp add: length_filter_sort)
qed

lemma rank_greatest:
  fixes xs :: "'a::linorder list"
  assumes "k < length xs" "length xs - k \<le> length (filter (\<lambda>x. v \<le> x) xs)"
  shows "v \<le> sort xs ! k"
proof (rule ccontr)
  let ?ys = "sort xs"
  assume "\<not> v \<le> ?ys ! k"
  then have lt: "?ys ! k < v" by simp
  have "x < v" if x: "x \<in> set (take (Suc k) ?ys)" for x
  proof -
    from x obtain i where "i \<le> k" "x = ?ys ! i" by (auto simp: in_set_conv_nth less_Suc_eq_le)
    with assms(1) have "x \<le> ?ys ! k" by (simp add: sorted_nth_mono)
    with lt show ?thesis by simp
  qed
  then have "filter (\<lambda>x. v \<le> x) (take (Suc k) ?ys) = []"
    by (simp add: filter_empty_conv not_le)
  then have "length (filter (\<lambda>x. v \<le> x) (take (Suc k) ?ys @ drop (Suc k) ?ys)) \<le> length xs - Suc k"
    using length_filter_le [of "\<lambda>x. v \<le> x" "drop (Suc k) ?ys"] by (simp del: append_take_drop_id)
  then show False using assms by (simp add: length_filter_sort)
qed

end
