(* ===== verification/Command.thy ===== *)
theory Command
  imports Prelude
begin

text \<open>
  Commands: the \<^verbatim>\<open>Marshallable\<close> objects that the replication layers move around
  (\<^verbatim>\<open>marshallable.h\<close>, \<^verbatim>\<open>procedure.h\<close>, \<^verbatim>\<open>classic/tpc_command.h\<close>) and the read/write view of
  them, \<^verbatim>\<open>SimpleRWCommand\<close> of \<^verbatim>\<open>RW_command.h\<close> and \<^verbatim>\<open>RW_command.cc\<close>: parsing, identifiers,
  conflicts, the fast-quorum sizes, and the attempt predictor \<^verbatim>\<open>OneArmedBandit\<close>.
\<close>

section \<open>Command objects\<close>

datatype mdb_value = UNKNOWN | I32 int | I64 int | DOUBLE real | STR string

fun get_i32 :: "mdb_value \<Rightarrow> int option" where
  "get_i32 (I32 i) = Some i"
| "get_i32 _ = None"

record piece =
  piece_type :: int
  root_id :: u64
  client_id :: u32
  cmd_id_in_client :: u32
  rule_mode_on_and_is_original_path_only_command :: bool
  input_values :: "(int \<times> mdb_value) list"
  piece_partition_id :: u32

record vec_piece =
  sp_vec_piece_data :: "piece list"
  is_recovery_command :: bool

text \<open>
  One constructor per \<^verbatim>\<open>kind\<close> the read/write path distinguishes; the other kinds are
  \<open>OTHER_CMD\<close> with their number. A null \<^verbatim>\<open>shared_ptr\<close> is \<open>None\<close>.
\<close>

datatype marshallable =
    CMD_TPC_COMMIT u64 "marshallable option"
  | CMD_TPC_BATCH "(u64 \<times> marshallable option) list"
  | CMD_VEC_PIECE vec_piece
  | CONTAINER_CMD piece
  | CMD_TPC_EMPTY
  | CMD_NOOP
  | OTHER_CMD int

section \<open>The read/write view of a command\<close>

abbreviation RW_BENCHMARK_W_TXN :: int where "RW_BENCHMARK_W_TXN \<equiv> 100"
abbreviation RW_BENCHMARK_W_TXN_0 :: int where "RW_BENCHMARK_W_TXN_0 \<equiv> 101"
abbreviation RW_BENCHMARK_R_TXN :: int where "RW_BENCHMARK_R_TXN \<equiv> 200"
abbreviation RW_BENCHMARK_R_TXN_0 :: int where "RW_BENCHMARK_R_TXN_0 \<equiv> 201"
abbreviation RW_BENCHMARK_FINISH :: int where "RW_BENCHMARK_FINISH \<equiv> 300"
abbreviation RW_BENCHMARK_NOOP :: int where "RW_BENCHMARK_NOOP \<equiv> 400"

record simple_rw =
  rw_type :: int
  rw_key :: key_t
  rw_value :: value_t
  rw_cmd_id :: "u32 \<times> u32"
  rw_original_path_only :: bool
  rw_recovery :: bool

text \<open>
  The walk from a command to its first piece. A missing command, an empty piece vector, a
  batch of another size than one and a commit whose inner command is not a piece vector
  abort (failed \<^verbatim>\<open>verify\<close>, or a null or wrongly cast pointer).
\<close>

fun as_vec_piece :: "marshallable option \<Rightarrow> vec_piece option" where
  "as_vec_piece (Some (CMD_VEC_PIECE v)) = Some v"
| "as_vec_piece _ = None"

fun front_piece :: "vec_piece \<Rightarrow> piece option" where
  "front_piece v = (case sp_vec_piece_data v of [] \<Rightarrow> None | p # _ \<Rightarrow> Some p)"

fun first_piece :: "marshallable \<Rightarrow> (bool \<times> piece) option" where
  "first_piece (CMD_TPC_BATCH [(_, c)]) =
     do {v \<leftarrow> as_vec_piece c; p \<leftarrow> front_piece v; Some (is_recovery_command v, p)}"
| "first_piece (CMD_TPC_COMMIT _ c) =
     do {v \<leftarrow> as_vec_piece c; p \<leftarrow> front_piece v; Some (is_recovery_command v, p)}"
| "first_piece (CMD_VEC_PIECE v) = do {p \<leftarrow> front_piece v; Some (is_recovery_command v, p)}"
| "first_piece (CONTAINER_CMD p) = Some (False, p)"
| "first_piece _ = None"

definition value_at :: "(int \<times> mdb_value) list \<Rightarrow> int \<Rightarrow> int option" where
  "value_at m i = get_i32 (at_default UNKNOWN m i)"

definition rw_of_piece :: "bool \<Rightarrow> piece \<Rightarrow> simple_rw option" where
  "rw_of_piece rec p =
     (let m = input_values p; t = piece_type p;
          mk = (\<lambda>t k v. \<lparr>rw_type = t, rw_key = k, rw_value = v,
                 rw_cmd_id = (client_id p, cmd_id_in_client p),
                 rw_original_path_only = rule_mode_on_and_is_original_path_only_command p,
                 rw_recovery = rec\<rparr>)
      in if t = RW_BENCHMARK_R_TXN \<or> t = RW_BENCHMARK_R_TXN_0
         then do {k \<leftarrow> value_at m 0; Some (mk RW_BENCHMARK_R_TXN k 0)}
         else if t = RW_BENCHMARK_W_TXN \<or> t = RW_BENCHMARK_W_TXN_0
         then do {k \<leftarrow> value_at m 0; v \<leftarrow> value_at m 1; Some (mk RW_BENCHMARK_W_TXN k v)}
         else if t = RW_BENCHMARK_FINISH
         then do {k \<leftarrow> value_at m 0; v \<leftarrow> value_at m 1; Some (mk t k v)}
         else if t = RW_BENCHMARK_NOOP
         then do {k \<leftarrow> value_at m 0; Some (mk t k 0)}
         else None)"

definition SimpleRWCommand :: "marshallable option \<Rightarrow> simple_rw option" where
  "SimpleRWCommand cmd = do {c \<leftarrow> cmd; (r, p) \<leftarrow> first_piece c; rw_of_piece r p}"

definition same_as :: "simple_rw \<Rightarrow> simple_rw \<Rightarrow> bool" where
  "same_as a b \<longleftrightarrow> rw_type a = rw_type b \<and> rw_key a = rw_key b \<and> rw_value a = rw_value b \<and>
     (rw_cmd_id a = rw_cmd_id b \<or> rw_type a = RW_BENCHMARK_FINISH)"

definition IsRead :: "simple_rw \<Rightarrow> bool" where
  "IsRead c \<longleftrightarrow> rw_type c = RW_BENCHMARK_R_TXN \<or> rw_type c = RW_BENCHMARK_R_TXN_0"

definition IsWrite :: "simple_rw \<Rightarrow> bool" where
  "IsWrite c \<longleftrightarrow> rw_type c = RW_BENCHMARK_W_TXN \<or> rw_type c = RW_BENCHMARK_W_TXN_0"

definition IsRecoveryCommand :: "simple_rw \<Rightarrow> bool" where
  "IsRecoveryCommand c = rw_recovery c"

section \<open>Command identifiers\<close>

definition CombineInt32 :: "u32 \<Rightarrow> u32 \<Rightarrow> u64" where
  "CombineInt32 a b = push_bit 31 (ucast a) OR ucast b"

definition GetInt32 :: "u64 \<Rightarrow> u32 \<times> u32" where
  "GetInt32 a = (ucast (drop_bit 31 a), ucast (a AND (push_bit 31 1 - 1)))"

fun GetCmdID :: "marshallable option \<Rightarrow> (u32 \<times> u32) option" where
  "GetCmdID None = Some (-32768, -32768)"
| "GetCmdID (Some (CMD_TPC_BATCH [])) = Some (-32768, -32768)"
| "GetCmdID (Some (CMD_TPC_BATCH ((tx, c) # cs))) =
     map_option rw_cmd_id (SimpleRWCommand (Some (CMD_TPC_COMMIT tx c)))"
| "GetCmdID (Some m) = map_option rw_cmd_id (SimpleRWCommand (Some m))"

definition GetCombinedCmdID :: "marshallable option \<Rightarrow> u64 option" where
  "GetCombinedCmdID cmd = map_option (\<lambda>(a, b). CombineInt32 a b) (GetCmdID cmd)"

definition GetKey :: "marshallable option \<Rightarrow> key_t option" where
  "GetKey cmd = map_option rw_key (SimpleRWCommand cmd)"

text \<open>
  \<^verbatim>\<open>ExtractPoolKeys\<close>: the outer \<open>None\<close> is an abort, the inner \<open>None\<close> the return value
  \<^verbatim>\<open>false\<close> (a command kind that cannot be parsed, or a piece without entry 0).
\<close>

fun parseable_kind :: "marshallable \<Rightarrow> bool" where
  "parseable_kind (CMD_TPC_BATCH _) = True"
| "parseable_kind (CMD_TPC_COMMIT _ _) = True"
| "parseable_kind (CMD_VEC_PIECE _) = True"
| "parseable_kind (CONTAINER_CMD _) = True"
| "parseable_kind _ = False"

definition ExtractPoolKeys ::
  "marshallable option \<Rightarrow> (key_t \<times> u64 \<times> bool) option option" where
  "ExtractPoolKeys cmd =
     do {c \<leftarrow> cmd;
         if \<not> parseable_kind c then Some None
         else do {(_, p) \<leftarrow> first_piece c;
                  case map_of (input_values p) 0 of
                    None \<Rightarrow> Some None
                  | Some v \<Rightarrow> do {k \<leftarrow> get_i32 v;
                      Some (Some (k, CombineInt32 (client_id p) (cmd_id_in_client p),
                        piece_type p = RW_BENCHMARK_W_TXN \<or>
                        piece_type p = RW_BENCHMARK_W_TXN_0))}}}"

definition NeedRecordConflictInOriginalPath :: "marshallable \<Rightarrow> bool option" where
  "NeedRecordConflictInOriginalPath cmd =
     map_option (\<lambda>(_, p). rule_mode_on_and_is_original_path_only_command p) (first_piece cmd)"

definition Conflict :: "marshallable option \<Rightarrow> marshallable option \<Rightarrow> bool option" where
  "Conflict cmd1 cmd2 =
     do {a \<leftarrow> SimpleRWCommand cmd1; b \<leftarrow> SimpleRWCommand cmd2;
         if rw_key a \<noteq> rw_key b then Some False else Some (IsWrite a \<or> IsWrite b)}"

section \<open>Quorum sizes of the fast path\<close>

definition MaxFailure :: "nat \<Rightarrow> nat" where
  "MaxFailure n = (n - 1) div 2"

definition RuleSuperMajority :: "nat \<Rightarrow> nat" where
  "RuleSuperMajority n = (let f = MaxFailure n in f + (f + 1) div 2 + 1)"

section \<open>The attempt predictor\<close>

record bandit =
  bandit_records :: "bool list"
  attempt_cnt :: nat
  success_cnt :: int
  bandit_ptr :: nat

definition Record :: "bool \<Rightarrow> bandit \<Rightarrow> bandit" where
  "Record success b =
     (let p = Suc (bandit_ptr b); p' = (if p = 100 then 0 else p)
      in if attempt_cnt b = 100
         then b\<lparr>success_cnt := success_cnt b - of_bool (bandit_records b ! bandit_ptr b) + of_bool success,
                bandit_records := (bandit_records b)[bandit_ptr b := success], bandit_ptr := p'\<rparr>
         else b\<lparr>attempt_cnt := attempt_cnt b + 1,
                success_cnt := success_cnt b + of_bool success,
                bandit_records := (bandit_records b)[bandit_ptr b := success], bandit_ptr := p'\<rparr>)"

definition ConsultAttemptRate :: "bandit \<Rightarrow> rat" where
  "ConsultAttemptRate b =
     (if attempt_cnt b = 0 then 1
      else min ((of_int (success_cnt b) + 5) / of_nat (attempt_cnt b)) 1)"

text \<open>\<^verbatim>\<open>ConsultAttempt\<close> takes the random draw from \<open>0 .. attempt_cnt - 1\<close> as an argument.\<close>

definition ConsultAttempt :: "nat \<Rightarrow> bandit \<Rightarrow> bool" where
  "ConsultAttempt draw b = (attempt_cnt b = 0 \<or> int draw < success_cnt b + 5)"


section \<open>Lemmas on identifiers\<close>

lemma bit_CombineInt32:
  "bit (CombineInt32 a b) n \<longleftrightarrow> n < 64 \<and> (31 \<le> n \<and> bit a (n - 31) \<or> bit b n)"
proof -
  have "bit b n \<Longrightarrow> n < 64" using bit_imp_le_length [of b n] by simp
  moreover have "31 \<le> n \<Longrightarrow> bit a (n - 31) \<Longrightarrow> n < 64"
    using bit_imp_le_length [of a "n - 31"] by simp
  ultimately show ?thesis
    by (auto simp: CombineInt32_def bit_or_iff bit_push_bit_iff bit_unsigned_iff)
qed

lemma small_word_bits: "b < 2 ^ 31 \<Longrightarrow> bit b n \<Longrightarrow> n < 31" for b :: u32
proof (rule ccontr)
  assume "b < 2 ^ 31" "bit b n" "\<not> n < 31"
  then have "take_bit 31 (uint b) = uint b"
    by (simp add: take_bit_int_eq_self_iff word_less_def)
  moreover have "bit (uint b) n" using \<open>bit b n\<close> bit_imp_le_length [of b n] by (simp add: bit_uint_iff)
  ultimately show False using \<open>\<not> n < 31\<close> by (metis bit_take_bit_iff)
qed

lemma GetInt32_mask: "GetInt32 x = (ucast (drop_bit 31 x), ucast (x AND mask 31))"
  by (simp add: GetInt32_def mask_eq_exp_minus_1)

lemma GetInt32_snd:
  assumes "b < 2 ^ 31" shows "snd (GetInt32 (CombineInt32 a b)) = b"
proof (rule bit_word_eqI)
  fix n assume "n < LENGTH(32)"
  show "bit (snd (GetInt32 (CombineInt32 a b))) n = bit b n"
    using small_word_bits [OF assms, of n] \<open>n < LENGTH(32)\<close>
    by (auto simp: GetInt32_mask bit_unsigned_iff bit_and_iff bit_mask_iff bit_CombineInt32
             simp del: mask_numeral)
qed

lemma GetInt32_fst:
  assumes "b < 2 ^ 31" shows "fst (GetInt32 (CombineInt32 a b)) = a"
proof (rule bit_word_eqI)
  fix n assume "n < LENGTH(32)"
  have "\<not> bit b (31 + n)" using small_word_bits [OF assms, of "31 + n"] by auto
  then show "bit (fst (GetInt32 (CombineInt32 a b))) n = bit a n"
    using \<open>n < LENGTH(32)\<close>
    by (auto simp: GetInt32_def bit_unsigned_iff bit_drop_bit_eq bit_CombineInt32)
qed

text \<open>
  A combined identifier never is the sentinel \<open>(uint64_t)(-1)\<close> that the pool uses for "no
  command to recover": its top bit is clear.
\<close>

lemma CombineInt32_not_sentinel [simp]: "CombineInt32 a b \<noteq> -1"
proof
  assume "CombineInt32 a b = -1"
  then have "bit (CombineInt32 a b) 63" by simp
  moreover have "\<not> bit a 32" "\<not> bit b 63"
    using bit_imp_le_length [of a 32] bit_imp_le_length [of b 63] by auto
  ultimately show False by (simp add: bit_CombineInt32)
qed

lemma ExtractPoolKeys_not_sentinel:
  "ExtractPoolKeys cmd = Some (Some (k, i, w)) \<Longrightarrow> i \<noteq> -1"
  by (cases cmd)
     (auto simp: ExtractPoolKeys_def bind_eq_Some_conv split: if_splits option.splits)

section \<open>Lemmas on parsing\<close>

lemma first_piece_parseable: "first_piece c = Some r \<Longrightarrow> parseable_kind c"
  by (cases c rule: first_piece.cases) auto

lemma value_at_Some: "value_at m i = Some k \<longleftrightarrow> map_of m i = Some (I32 k)"
proof (cases "map_of m i")
  case None
  then show ?thesis by (simp add: value_at_def at_default_None)
next
  case (Some v)
  then show ?thesis by (cases v) (simp_all add: value_at_def at_default_Some)
qed

lemma rw_of_piece_fields:
  assumes "rw_of_piece r p = Some c"
  shows "map_of (input_values p) 0 = Some (I32 (rw_key c))"
    and "rw_cmd_id c = (client_id p, cmd_id_in_client p)"
    and "IsWrite c \<longleftrightarrow>
      piece_type p = RW_BENCHMARK_W_TXN \<or> piece_type p = RW_BENCHMARK_W_TXN_0"
  using assms
  by (auto simp: rw_of_piece_def Let_def IsWrite_def value_at_Some bind_eq_Some_conv
           split: if_splits)

lemma extract_of_parse:
  assumes "SimpleRWCommand cmd = Some c"
  shows "ExtractPoolKeys cmd =
    Some (Some (rw_key c, CombineInt32 (fst (rw_cmd_id c)) (snd (rw_cmd_id c)), IsWrite c))"
proof -
  from assms obtain m r p where m: "cmd = Some m" "first_piece m = Some (r, p)"
    and p: "rw_of_piece r p = Some c"
    by (auto simp: SimpleRWCommand_def bind_eq_Some_conv)
  show ?thesis
    using m first_piece_parseable [OF m(2)] rw_of_piece_fields [OF p]
    by (simp add: ExtractPoolKeys_def)
qed

section \<open>Lemmas on the quorum sizes\<close>

lemma super_majority_le: "n = 2 * f + 1 \<Longrightarrow> RuleSuperMajority n \<le> n"
  by (simp add: RuleSuperMajority_def MaxFailure_def Let_def)

lemma super_majority_ge_majority: "n div 2 + 1 \<le> RuleSuperMajority n" if "odd n"
  using that by (auto simp: RuleSuperMajority_def MaxFailure_def Let_def elim!: oddE)

section \<open>Lemmas on the predictor\<close>

definition fresh_bandit :: "bool list \<Rightarrow> bandit" where
  "fresh_bandit junk = \<lparr>bandit_records = junk, attempt_cnt = 0, success_cnt = 0, bandit_ptr = 0\<rparr>"

text \<open>
  The ring invariant: with \<open>xs\<close> all outcomes recorded so far, slot \<open>i\<close> of the ring holds the
  latest outcome whose position is \<open>i\<close> modulo 100, and the success counter counts the
  successes of the window of the last 100 outcomes.
\<close>

definition bandit_window :: "bool list \<Rightarrow> bool list" where
  "bandit_window xs = drop (length xs - 100) xs"

definition bandit_inv :: "bool list \<Rightarrow> bandit \<Rightarrow> bool" where
  "bandit_inv xs b \<longleftrightarrow>
     length (bandit_records b) = 100 \<and> attempt_cnt b = min 100 (length xs) \<and>
     bandit_ptr b = length xs mod 100 \<and>
     success_cnt b = int (length (filter id (bandit_window xs))) \<and>
     (\<forall>i < length xs. length xs \<le> i + 100 \<longrightarrow> bandit_records b ! (i mod 100) = xs ! i)"

lemma mod_100_inj:
  "i < n \<Longrightarrow> n < i + 100 \<Longrightarrow> i mod 100 \<noteq> n mod 100" for i n :: nat
proof
  assume "i < n" "n < i + 100" "i mod 100 = n mod 100"
  then have "100 dvd n - i" using mod_eq_dvd_iff_nat [of i n 100] by simp
  moreover have "0 < n - i" "n - i < 100" using \<open>i < n\<close> \<open>n < i + 100\<close> by auto
  ultimately show False using dvd_imp_le [of 100 "n - i"] by simp
qed

lemma Suc_mod_100: "Suc n mod 100 = (if Suc (n mod 100) = 100 then 0 else Suc (n mod 100))"
  by (simp add: mod_Suc)

lemma window_snoc:
  "length (filter id (bandit_window (xs @ [x]))) + (if 100 \<le> length xs then of_bool (xs ! (length xs - 100)) else 0)
     = length (filter id (bandit_window xs)) + of_bool x"
proof (cases "100 \<le> length xs")
  case True
  then obtain y ys where w: "drop (length xs - 100) xs = y # ys"
    by (cases "drop (length xs - 100) xs") auto
  have y: "xs ! (length xs - 100) = y"
    using w True by (metis Suc_leI diff_less drop_eq_Nil2 hd_drop_conv_nth leD list.distinct(1)
        list.sel(1) linorder_not_less)
  have ys: "drop (Suc (length xs) - 100) xs = ys"
    using w True by (metis Suc_diff_le drop_Suc list.sel(3) tl_drop)
  show ?thesis using True w y ys by (simp add: bandit_window_def)
next
  case False
  then show ?thesis by (simp add: bandit_window_def)
qed

lemma bandit_inv_Record:
  assumes "bandit_inv xs b" shows "bandit_inv (xs @ [x]) (Record x b)"
proof -
  let ?n = "length xs"
  note inv = assms [unfolded bandit_inv_def]
  have ring: "(bandit_records b)[?n mod 100 := x] ! (i mod 100) = (xs @ [x]) ! i"
    if "i < Suc ?n" "Suc ?n \<le> i + 100" for i
    using that inv mod_100_inj [of i ?n]
    by (cases "i = ?n") (auto simp: nth_append nth_list_update)
  have old: "bandit_records b ! (?n mod 100) = xs ! (?n - 100)" if "100 \<le> ?n"
  proof -
    have "bandit_records b ! ((?n - 100) mod 100) = xs ! (?n - 100)" using inv that by auto
    moreover have "(?n - 100) mod 100 = ?n mod 100" using that by (simp add: le_mod_geq)
    ultimately show ?thesis by simp
  qed
  have cnt: "success_cnt (Record x b) = int (length (filter id (bandit_window (xs @ [x]))))"
    using inv window_snoc [of xs x] old
    by (auto simp: Record_def Let_def min_def split: if_splits)
  show ?thesis
    unfolding bandit_inv_def using inv cnt ring
    by (auto simp: Record_def Let_def Suc_mod_100 min_def split: if_splits)
qed

lemma bandit_inv_run:
  "length junk = 100 \<Longrightarrow> bandit_inv xs (fold Record xs (fresh_bandit junk))"
proof (induction xs rule: rev_induct)
  case Nil
  then show ?case by (simp add: bandit_inv_def bandit_window_def fresh_bandit_def)
next
  case (snoc x xs)
  then show ?case by (simp add: bandit_inv_Record)
qed


section \<open>Properties\<close>

text \<open>
  A command identifier survives the round trip: for every client number and every
  per-client sequence number below \<open>2^31\<close>, splitting the combined 64-bit identifier gives
  the two numbers back, so distinct commands have distinct identifiers.
\<close>

lemma combine_roundtrip:
  assumes "b < 2 ^ 31"
  shows "GetInt32 (CombineInt32 a b) = (a, b)"
  using GetInt32_fst [OF assms] GetInt32_snd [OF assms] by (simp add: prod_eq_iff)

lemma combine_roundtrip_witness:
  "(7 :: u32) < 2 ^ 31 \<and> GetInt32 (CombineInt32 4294967295 7) = (4294967295, 7)"
proof
  show "(7 :: u32) < 2 ^ 31" by simp
  then show "GetInt32 (CombineInt32 4294967295 7) = (4294967295, 7)"
    by (rule combine_roundtrip)
qed

text \<open>
  C13. The lightweight extractor used on the hot path of the command pool agrees with the full
  parser: whenever the full parse of a command succeeds, \<^verbatim>\<open>ExtractPoolKeys\<close> succeeds and
  returns the same key, the combined identifier of the same pair, and the same write flag.
\<close>

theorem extract_agrees_with_parse:
  assumes "SimpleRWCommand cmd = Some c"
  shows "ExtractPoolKeys cmd =
    Some (Some (rw_key c, CombineInt32 (fst (rw_cmd_id c)) (snd (rw_cmd_id c)), IsWrite c))"
  using assms by (rule extract_of_parse)

definition example_write :: "u32 \<Rightarrow> u32 \<Rightarrow> int \<Rightarrow> int \<Rightarrow> marshallable" where
  "example_write cl n k v = CMD_VEC_PIECE
     \<lparr>sp_vec_piece_data = [\<lparr>piece_type = 101, root_id = 0, client_id = cl, cmd_id_in_client = n,
        rule_mode_on_and_is_original_path_only_command = False,
        input_values = [(0, I32 k), (1, I32 v)], piece_partition_id = 0\<rparr>],
      is_recovery_command = False\<rparr>"

lemma example_write_parses [simp]:
  "SimpleRWCommand (Some (example_write cl n k v)) =
     Some \<lparr>rw_type = 100, rw_key = k, rw_value = v, rw_cmd_id = (cl, n),
           rw_original_path_only = False, rw_recovery = False\<rparr>"
  by (simp add: SimpleRWCommand_def example_write_def rw_of_piece_def value_at_def at_default_def)

lemma example_write_extract [simp]:
  "ExtractPoolKeys (Some (example_write cl n k v)) = Some (Some (k, CombineInt32 cl n, True))"
  by (simp add: ExtractPoolKeys_def example_write_def)

lemma example_write_not_batch [simp]: "example_write cl n k v \<noteq> CMD_TPC_BATCH cs"
  by (simp add: example_write_def)

theorem extract_agrees_with_parse_witness:
  "ExtractPoolKeys (Some (example_write 3 5 42 9)) = Some (Some (42, CombineInt32 3 5, True))"
  using extract_agrees_with_parse [OF example_write_parses [of 3 5 42 9]]
  by (simp add: IsWrite_def)

text \<open>
  The attempt predictor is a sliding window: whatever the ring held at the start, after
  any sequence of recorded outcomes the success counter is the number of successes among the
  last 100 of them and the attempt counter is the length of that window.
\<close>

lemma bandit_counts_window:
  assumes "length junk = 100"
  shows "success_cnt (fold Record xs (fresh_bandit junk))
           = int (length (filter id (drop (length xs - 100) xs)))
       \<and> attempt_cnt (fold Record xs (fresh_bandit junk)) = min 100 (length xs)"
  using bandit_inv_run [OF assms, of xs] by (simp add: bandit_inv_def bandit_window_def)

lemma bandit_counts_window_witness:
  "success_cnt (fold Record [True, False, True] (fresh_bandit (replicate 100 True))) = 2
   \<and> attempt_cnt (fold Record [True, False, True] (fresh_bandit (replicate 100 True))) = 3"
  using bandit_counts_window [of "replicate 100 True" "[True, False, True]"] by simp

end
