(* ===== verification/ConflictTracker.thy ===== *)
theory ConflictTracker
  imports Command
begin

text \<open>
  The contract that the fast path needs from a replica: a structure that records the attempts
  in flight on each key and answers whether an arriving attempt met a writer. The Jetpack
  command pool and the CURP witness both provide it; what the fast path derives from it is
  proved here once.
\<close>

datatype tevent = Attempt key_t u64 bool marshallable | Clear key_t u64

text \<open>
  A replica's history of attempts and clears, run on a structure with the given operations;
  the list collects the attempts that were accepted.
\<close>

fun tracker_run ::
  "(key_t \<Rightarrow> u64 \<Rightarrow> bool \<Rightarrow> marshallable \<Rightarrow> 's \<Rightarrow> (bool \<times> 's) option) \<Rightarrow>
   (key_t \<Rightarrow> u64 \<Rightarrow> 's \<Rightarrow> 's) \<Rightarrow> tevent list \<Rightarrow> 's \<Rightarrow> ((key_t \<times> u64 \<times> bool) list \<times> 's) option" where
  "tracker_run att clr [] s = Some ([], s)"
| "tracker_run att clr (Attempt k c w m # es) s =
     do {(ok, s1) \<leftarrow> att k c w m s;
         (acc, s2) \<leftarrow> tracker_run att clr es s1;
         Some (if ok then (k, c, w) # acc else acc, s2)}"
| "tracker_run att clr (Clear k c # es) s = tracker_run att clr es (clr k c s)"

fun event_cmd :: "tevent \<Rightarrow> key_t \<times> u64" where
  "event_cmd (Attempt k c w m) = (k, c)"
| "event_cmd (Clear k c) = (k, c)"

definition untouched :: "key_t \<Rightarrow> u64 \<Rightarrow> tevent list \<Rightarrow> bool" where
  "untouched k c es \<longleftrightarrow> (k, c) \<notin> event_cmd ` set es"

text \<open>The command is attempted at most once and never cleared.\<close>

fun attempted_once :: "key_t \<Rightarrow> u64 \<Rightarrow> tevent list \<Rightarrow> bool" where
  "attempted_once k c [] = True"
| "attempted_once k c (e # es) =
     (if event_cmd e = (k, c) then (case e of Attempt _ _ _ _ \<Rightarrow> True | Clear _ _ \<Rightarrow> False) \<and> untouched k c es
      else attempted_once k c es)"

lemma untouched_Nil [simp]: "untouched k c []"
  by (simp add: untouched_def)

lemma untouched_Cons [simp]:
  "untouched k c (e # es) \<longleftrightarrow> event_cmd e \<noteq> (k, c) \<and> untouched k c es"
  by (auto simp: untouched_def)

lemma untouched_not_accepted:
  "tracker_run att clr es s = Some (acc, s') \<Longrightarrow> untouched k c es \<Longrightarrow> (k, c, w) \<notin> set acc"
proof (induction att clr es s arbitrary: acc s' rule: tracker_run.induct)
  case (2 att clr k' c' w' m es s)
  then show ?case by (fastforce simp: bind_eq_Some_conv split: if_splits)
qed auto

section \<open>The contract\<close>

locale conflict_tracker =
  fixes tinv :: "'s \<Rightarrow> bool"
    and flight :: "'s \<Rightarrow> key_t \<Rightarrow> u64 \<Rightarrow> bool option"
    and attempt :: "key_t \<Rightarrow> u64 \<Rightarrow> bool \<Rightarrow> marshallable \<Rightarrow> 's \<Rightarrow> (bool \<times> 's) option"
    and clear :: "key_t \<Rightarrow> u64 \<Rightarrow> 's \<Rightarrow> 's"
  assumes attempt_inv: "tinv s \<Longrightarrow> c \<noteq> -1 \<Longrightarrow> attempt k c w m s = Some (ok, s') \<Longrightarrow> tinv s'"
    and attempt_flight: "tinv s \<Longrightarrow> attempt k c w m s = Some (ok, s') \<Longrightarrow>
      flight s' k' c' = (if k' = k \<and> c' = c then Some w else flight s k' c')"
    and attempt_sound: "tinv s \<Longrightarrow> attempt k c w m s = Some (True, s') \<Longrightarrow> flight s k c' \<noteq> Some True"
    and clear_inv: "tinv s \<Longrightarrow> tinv (clear k c s)"
    and clear_flight: "tinv s \<Longrightarrow>
      flight (clear k c s) k' c' = (if k' = k \<and> c' = c then None else flight s k' c')"
begin

text \<open>While a writer is in flight on a key, no attempt on that key is accepted.\<close>

lemma writer_excludes:
  assumes "tracker_run attempt clear es s = Some (acc, s')" "tinv s"
    "\<forall>e \<in> set es. snd (event_cmd e) \<noteq> -1" "flight s k c = Some True" "untouched k c es"
  shows "(k, c', w') \<notin> set acc"
  using assms
proof (induction es arbitrary: s acc)
  case (Cons e es)
  show ?case
  proof (cases e)
    case (Attempt k1 c1 w1 m)
    obtain ok s1 acc1 where 1: "attempt k1 c1 w1 m s = Some (ok, s1)"
      and 2: "tracker_run attempt clear es s1 = Some (acc1, s')"
      and acc: "acc = (if ok then (k1, c1, w1) # acc1 else acc1)"
      using Cons.prems(1) by (auto simp: Attempt bind_eq_Some_conv)
    have "tinv s1" using attempt_inv [OF Cons.prems(2) _ 1] Cons.prems(3) by (simp add: Attempt)
    moreover have "flight s1 k c = Some True"
      using attempt_flight [OF Cons.prems(2) 1, of k c] Cons.prems(4,5) by (auto simp: Attempt)
    ultimately have "(k, c', w') \<notin> set acc1"
      using Cons.IH [OF 2] Cons.prems(3,5) by simp
    moreover have "\<not> (ok \<and> k1 = k)"
      using attempt_sound [OF Cons.prems(2), of k1 c1 w1 m s1 c] 1 Cons.prems(4) by auto
    ultimately show ?thesis by (auto simp: acc)
  next
    case (Clear k1 c1)
    have "flight (clear k1 c1 s) k c = Some True"
      using clear_flight [OF Cons.prems(2), of k1 c1 k c] Cons.prems(4,5) by (auto simp: Clear)
    then show ?thesis
      using Cons.IH [of "clear k1 c1 s" acc] Cons.prems clear_inv [OF Cons.prems(2)]
      by (simp add: Clear)
  qed
qed simp

text \<open>Of two writes on one key, neither of them cleared, a replica accepts at most one.\<close>

lemma one_writer_accepted:
  assumes "tracker_run attempt clear es s = Some (acc, s')" "tinv s"
    "\<forall>e \<in> set es. snd (event_cmd e) \<noteq> -1"
    "attempted_once k c1 es" "attempted_once k c2 es" "c1 \<noteq> c2"
  shows "\<not> ((k, c1, True) \<in> set acc \<and> (k, c2, True) \<in> set acc)"
  using assms
proof (induction es arbitrary: s acc)
  case (Cons e es)
  show ?case
  proof (cases e)
    case (Attempt k1 c w m)
    obtain ok s1 acc1 where 1: "attempt k1 c w m s = Some (ok, s1)"
      and 2: "tracker_run attempt clear es s1 = Some (acc1, s')"
      and acc: "acc = (if ok then (k1, c, w) # acc1 else acc1)"
      using Cons.prems(1) by (auto simp: Attempt bind_eq_Some_conv)
    have inv1: "tinv s1" using attempt_inv [OF Cons.prems(2) _ 1] Cons.prems(3) by (simp add: Attempt)
    have ids: "\<forall>e \<in> set es. snd (event_cmd e) \<noteq> -1" using Cons.prems(3) by simp
    have excl: "(k, d, True) \<notin> set acc1" if "w" "k1 = k" "untouched k c es" for d
      using writer_excludes [OF 2 inv1 ids _ that(3)] attempt_flight [OF Cons.prems(2) 1, of k c] that
      by simp
    have none: "(k, c, True) \<notin> set acc1" if "untouched k c es"
      using untouched_not_accepted [OF 2 that] .
    show ?thesis
    proof (cases "k1 = k \<and> (c = c1 \<or> c = c2)")
      case True
      then have "untouched k c es" using Cons.prems(4,5) by (auto simp: Attempt)
      with True excl none Cons.prems(6) show ?thesis by (auto simp: acc)
    next
      case False
      then have "attempted_once k c1 es" "attempted_once k c2 es"
        using Cons.prems(4,5) by (auto simp: Attempt split: if_splits)
      from Cons.IH [OF 2 inv1 ids this Cons.prems(6)] False show ?thesis by (auto simp: acc)
    qed
  next
    case (Clear k1 c)
    then have "attempted_once k c1 es" "attempted_once k c2 es"
      using Cons.prems(4,5) by (auto split: if_splits)
    then show ?thesis
      using Cons.IH [of "clear k1 c s" acc] Cons.prems clear_inv [OF Cons.prems(2)]
      by (simp add: Clear)
  qed
qed simp

text \<open>
  So two writes on one key cannot both gather a fast quorum: the quorums would share a replica
  that accepted both.
\<close>

lemma one_fast_quorum:
  assumes runs: "\<And>i. i \<in> R \<Longrightarrow> tracker_run attempt clear (es i) (s i) = Some (acc i, s' i)"
    and inv: "\<And>i. i \<in> R \<Longrightarrow> tinv (s i)"
    and ids: "\<And>i. i \<in> R \<Longrightarrow> \<forall>e \<in> set (es i). snd (event_cmd e) \<noteq> -1"
    and once: "\<And>i. i \<in> R \<Longrightarrow> attempted_once k c1 (es i) \<and> attempted_once k c2 (es i)"
    and "c1 \<noteq> c2" "finite R" "card R < 2 * q"
  shows "\<not> (q \<le> card {i \<in> R. (k, c1, True) \<in> set (acc i)} \<and> q \<le> card {i \<in> R. (k, c2, True) \<in> set (acc i)})"
proof
  let ?A = "\<lambda>c. {i \<in> R. (k, c, True) \<in> set (acc i)}"
  assume "q \<le> card (?A c1) \<and> q \<le> card (?A c2)"
  then have "card R < card (?A c1) + card (?A c2)" using assms(7) by linarith
  then obtain r where "r \<in> ?A c1" "r \<in> ?A c2"
    using quorums_intersect [OF \<open>finite R\<close>, of "?A c1" "?A c2"] by blast
  then show False
    using one_writer_accepted [OF runs inv ids, of r k c1 c2] once [of r] \<open>c1 \<noteq> c2\<close> by auto
qed

end

text \<open>
  A tracker is exact while every attempt carries an identifier that is not in flight: then an
  attempt is refused only when a writer really is in flight.
\<close>

locale exact_tracker = conflict_tracker +
  fixes exact :: "'s \<Rightarrow> bool"
  assumes attempt_exact: "tinv s \<Longrightarrow> exact s \<Longrightarrow> c \<noteq> -1 \<Longrightarrow> flight s k c = None \<Longrightarrow>
      attempt k c w m s = Some (ok, s') \<Longrightarrow> exact s'"
    and clear_exact: "tinv s \<Longrightarrow> exact s \<Longrightarrow> exact (clear k c s)"
    and attempt_complete: "tinv s \<Longrightarrow> exact s \<Longrightarrow> attempt k c w m s = Some (False, s') \<Longrightarrow>
      \<exists>c'. flight s k c' = Some True"
begin

lemma attempt_iff:
  assumes "tinv s" "exact s" "attempt k c w m s = Some (ok, s')"
  shows "ok \<longleftrightarrow> (\<forall>c'. flight s k c' \<noteq> Some True)"
  using attempt_sound [OF assms(1), of k c w m s'] attempt_complete [OF assms(1,2), of k c w m s']
    assms(3) by (cases ok) auto

end

section \<open>The abstract tracker\<close>

text \<open>The specification itself: a map of attempts in flight per key.\<close>

type_synonym flights = "key_t \<Rightarrow> u64 \<Rightarrow> bool option"

definition spec_record :: "key_t \<Rightarrow> u64 \<Rightarrow> bool \<Rightarrow> flights \<Rightarrow> flights" where
  "spec_record k c w f = f(k := (f k)(c \<mapsto> w))"

definition spec_clear :: "key_t \<Rightarrow> u64 \<Rightarrow> flights \<Rightarrow> flights" where
  "spec_clear k c f = f(k := (f k)(c := None))"

end
