(* ===== verification/CommandPool.thy ===== *)
theory CommandPool
  imports ConflictTracker
begin

text \<open>
  The Jetpack command pool: \<^verbatim>\<open>RevoveryCandidates\<close> (the bucket of one key) and
  \<^verbatim>\<open>JetpackCommandPool\<close> of \<^verbatim>\<open>scheduler.h\<close> and \<^verbatim>\<open>scheduler.cc\<close>, as compiled with
  \<^verbatim>\<open>READ_NOT_CONFLICT_OPTIMIZATION\<close>, \<^verbatim>\<open>JETPACK_DEDUPLICATE_OPTIMIZATION\<close> and
  \<^verbatim>\<open>COMMAND_POOL_ON_DISK\<close>, the settings of \<^verbatim>\<open>constants.h\<close>. The pool-size statistics
  (\<^verbatim>\<open>pool_size_distribution_\<close>) and the profiling counters only feed log lines and are left
  out.
\<close>

section \<open>The bucket of one key\<close>

record cand_entry =
  ent_cmd :: marshallable
  ent_is_write :: bool

record rev_candidates =
  rc_cands :: "(u64 \<times> cand_entry) list"
  rc_appeared :: "(u64 \<times> bool) list"
  rc_total_write :: int
  rc_to_recover_id :: u64

definition empty_candidates :: rev_candidates where
  "empty_candidates = \<lparr>rc_cands = [], rc_appeared = [], rc_total_write = 0, rc_to_recover_id = -1\<rparr>"

definition rc_push_back :: "u64 \<Rightarrow> marshallable \<Rightarrow> bool \<Rightarrow> rev_candidates \<Rightarrow> rev_candidates option" where
  "rc_push_back cid cmd w r =
     do {let r1 = r\<lparr>rc_cands := AList.update cid \<lparr>ent_cmd = cmd, ent_is_write = w\<rparr> (rc_cands r)\<rparr>;
         r2 \<leftarrow> (if rc_total_write r1 = 0 \<and> w
                then do {vrfy (rc_to_recover_id r1 = -1); Some (r1\<lparr>rc_to_recover_id := cid\<rparr>)}
                else Some r1);
         Some (r2\<lparr>rc_total_write := rc_total_write r2 + of_bool w,
                  rc_appeared := AList.update cid True (rc_appeared r2)\<rparr>)}"

definition rc_remove :: "u64 \<Rightarrow> rev_candidates \<Rightarrow> bool \<times> rev_candidates" where
  "rc_remove cid r =
     (case map_of (rc_cands r) cid of
        None \<Rightarrow> (False, r)
      | Some e \<Rightarrow>
          (True, r\<lparr>rc_to_recover_id :=
                     (if rc_total_write r = 1 \<and> ent_is_write e then -1 else rc_to_recover_id r),
                   rc_total_write := rc_total_write r - of_bool (ent_is_write e),
                   rc_cands := AList.delete cid (rc_cands r)\<rparr>))"

text \<open>\<^verbatim>\<open>appeared_[cmd_id]\<close> default-constructs a missing entry, so the bucket changes.\<close>

definition rc_has_appeared :: "u64 \<Rightarrow> rev_candidates \<Rightarrow> bool \<times> rev_candidates" where
  "rc_has_appeared cid r =
     (let b = at_default False (rc_appeared r) cid
      in (b, r\<lparr>rc_appeared := AList.update cid b (rc_appeared r)\<rparr>))"

definition rc_size :: "rev_candidates \<Rightarrow> nat" where
  "rc_size r = length (rc_cands r)"

definition rc_has_cmd_to_recover :: "rev_candidates \<Rightarrow> bool" where
  "rc_has_cmd_to_recover r \<longleftrightarrow> rc_to_recover_id r \<noteq> -1"

definition rc_get_cmd :: "u64 \<Rightarrow> rev_candidates \<Rightarrow> marshallable option" where
  "rc_get_cmd cid r = map_option ent_cmd (map_of (rc_cands r) cid)"

definition rc_cmd_to_recover :: "rev_candidates \<Rightarrow> marshallable option" where
  "rc_cmd_to_recover r =
     (if rc_to_recover_id r \<noteq> -1 then rc_get_cmd (rc_to_recover_id r) r else None)"

section \<open>The pool\<close>

record command_pool =
  candidates :: "(key_t \<times> rev_candidates) list"
  pool_size :: int
  pool_cmd_count :: int
  max_seen_ballot :: ballot_t
  max_accepted_ballot :: ballot_t
  pool_sid :: int
  pool_committed :: bool
  pool_openable :: bool
  pool_file :: "(key_t \<times> value_t) list option"

definition empty_pool :: "bool \<Rightarrow> command_pool" where
  "empty_pool can_open =
     \<lparr>candidates = [], pool_size = 0, pool_cmd_count = 0, max_seen_ballot = -1,
      max_accepted_ballot = -1, pool_sid = -1, pool_committed = False,
      pool_openable = can_open, pool_file = None\<rparr>"

definition bucket :: "key_t \<Rightarrow> command_pool \<Rightarrow> rev_candidates" where
  "bucket k p = at_default empty_candidates (candidates p) k"

definition set_bucket :: "key_t \<Rightarrow> rev_candidates \<Rightarrow> command_pool \<Rightarrow> command_pool" where
  "set_bucket k r p = p\<lparr>candidates := AList.update k r (candidates p)\<rparr>"

text \<open>
  The disk log of conflict-free commands: the file is opened (truncated) on the first write
  once the owner knows its location, and lines are appended to an open file.
\<close>

definition WriteCommandToDisk :: "simple_rw \<Rightarrow> command_pool \<Rightarrow> command_pool" where
  "WriteCommandToDisk c p =
     (let f = (case pool_file p of None \<Rightarrow> if pool_openable p then Some [] else None
                                 | Some ls \<Rightarrow> Some ls)
      in p\<lparr>pool_file := map_option (\<lambda>ls. ls @ [(rw_key c, rw_value c)]) f\<rparr>)"

text \<open>
  \<^verbatim>\<open>push_back\<close> after the fields have been extracted: the command always enters the bucket,
  and the answer is whether the bucket had no writer.
\<close>

definition pool_insert ::
  "key_t \<Rightarrow> u64 \<Rightarrow> bool \<Rightarrow> marshallable \<Rightarrow> command_pool \<Rightarrow> (bool \<times> command_pool) option" where
  "pool_insert k cid w cmd p =
     (let was_empty = (rc_size (bucket k p) = 0)
      in if rc_total_write (bucket k p) = 0
         then do {r \<leftarrow> rc_push_back cid cmd w (bucket k p);
                  c \<leftarrow> SimpleRWCommand (Some cmd);
                  let p1 = WriteCommandToDisk c (set_bucket k r p);
                  Some (True, p1\<lparr>pool_cmd_count := pool_cmd_count p1 + 1,
                                 pool_size := pool_size p1 + of_bool was_empty\<rparr>)}
         else do {r \<leftarrow> rc_push_back cid cmd w (bucket k p);
                  let p1 = set_bucket k r p;
                  Some (False, p1\<lparr>pool_cmd_count := pool_cmd_count p1 + 1\<rparr>)})"

definition pool_push_back ::
  "bool \<Rightarrow> marshallable \<Rightarrow> command_pool \<Rightarrow> (bool \<times> command_pool) option" where
  "pool_push_back recovering cmd p =
     (if recovering then Some (False, p)
      else do {ks \<leftarrow> ExtractPoolKeys (Some cmd);
               (k, cid, w) \<leftarrow> ks;
               pool_insert k cid w cmd p})"

definition pool_remove_one :: "key_t \<Rightarrow> u64 \<Rightarrow> command_pool \<Rightarrow> nat \<times> command_pool" where
  "pool_remove_one k cid p =
     (let before_size = rc_size (bucket k p); (removed, r) = rc_remove cid (bucket k p);
          p1 = set_bucket k r p
      in if removed
         then (1, p1\<lparr>pool_cmd_count := pool_cmd_count p1 - 1,
                     pool_size := pool_size p1 - of_bool (before_size = 1)\<rparr>)
         else (0, p1))"

fun pool_remove_batch ::
  "(u64 \<times> marshallable option) list \<Rightarrow> command_pool \<Rightarrow> (nat \<times> command_pool) option" where
  "pool_remove_batch [] p = Some (0, p)"
| "pool_remove_batch ((tx, c) # cs) p =
     do {ks \<leftarrow> ExtractPoolKeys (Some (CMD_TPC_COMMIT tx c));
         (k, cid, w) \<leftarrow> ks;
         let (n, p1) = pool_remove_one k cid p;
         (m, p2) \<leftarrow> pool_remove_batch cs p1;
         Some (n + m, p2)}"

fun pool_remove :: "marshallable \<Rightarrow> command_pool \<Rightarrow> (nat \<times> command_pool) option" where
  "pool_remove (CMD_TPC_BATCH cs) p = pool_remove_batch cs p"
| "pool_remove cmd p =
     do {ks \<leftarrow> ExtractPoolKeys (Some cmd);
         (k, cid, w) \<leftarrow> ks;
         Some (pool_remove_one k cid p)}"

definition pool_has_appeared_one ::
  "marshallable \<Rightarrow> command_pool \<Rightarrow> (bool \<times> command_pool) option" where
  "pool_has_appeared_one cmd p =
     do {c \<leftarrow> SimpleRWCommand (Some cmd);
         let (b, r) = rc_has_appeared (CombineInt32 (fst (rw_cmd_id c)) (snd (rw_cmd_id c)))
                        (bucket (rw_key c) p);
         Some (b, set_bucket (rw_key c) r p)}"

fun pool_has_appeared_batch ::
  "(u64 \<times> marshallable option) list \<Rightarrow> command_pool \<Rightarrow> (bool \<times> command_pool) option" where
  "pool_has_appeared_batch [] p = Some (True, p)"
| "pool_has_appeared_batch ((tx, c) # cs) p =
     do {(b, p1) \<leftarrow> pool_has_appeared_one (CMD_TPC_COMMIT tx c) p;
         if b then pool_has_appeared_batch cs p1 else Some (False, p1)}"

fun pool_has_appeared :: "marshallable \<Rightarrow> command_pool \<Rightarrow> (bool \<times> command_pool) option" where
  "pool_has_appeared (CMD_TPC_BATCH cs) p = pool_has_appeared_batch cs p"
| "pool_has_appeared cmd p = pool_has_appeared_one cmd p"

definition pool_id_set :: "command_pool \<Rightarrow> key_t list" where
  "pool_id_set p = map fst (filter (\<lambda>(k, r). rc_has_cmd_to_recover r) (candidates p))"

definition pool_reset :: "command_pool \<Rightarrow> command_pool" where
  "pool_reset p =
     p\<lparr>candidates := [], pool_size := 0, pool_cmd_count := 0, max_seen_ballot := -1,
       max_accepted_ballot := -1, pool_sid := -1, pool_committed := False\<rparr>"


section \<open>The invariant of a bucket\<close>

text \<open>
  Whatever is pushed, the write counter is at least the number of write entries, and the
  recovery candidate is unset exactly when the counter is zero. The second half is what the
  \<^verbatim>\<open>verify\<close> of \<^verbatim>\<open>RevoveryCandidates::push_back\<close> needs, so a bucket never aborts.
\<close>

abbreviation writes_of :: "rev_candidates \<Rightarrow> nat" where
  "writes_of r \<equiv> count_vals ent_is_write (rc_cands r)"

definition rc_inv :: "rev_candidates \<Rightarrow> bool" where
  "rc_inv r \<longleftrightarrow> distinct (keys_of (rc_cands r)) \<and> int (writes_of r) \<le> rc_total_write r \<and>
     (rc_to_recover_id r = -1 \<longleftrightarrow> rc_total_write r = 0)"

lemma rc_inv_empty [simp]: "rc_inv empty_candidates"
  by (simp add: rc_inv_def empty_candidates_def)

lemma rc_push_back_eq:
  assumes "rc_inv r"
  shows "rc_push_back cid cmd w r = Some
    (r\<lparr>rc_cands := AList.update cid \<lparr>ent_cmd = cmd, ent_is_write = w\<rparr> (rc_cands r),
       rc_to_recover_id := (if rc_total_write r = 0 \<and> w then cid else rc_to_recover_id r),
       rc_total_write := rc_total_write r + of_bool w,
       rc_appeared := AList.update cid True (rc_appeared r)\<rparr>)"
  using assms by (auto simp: rc_push_back_def rc_inv_def Let_def)

lemma writes_of_push:
  "count_vals ent_is_write (AList.update cid \<lparr>ent_cmd = cmd, ent_is_write = w\<rparr> m)
     \<le> count_vals ent_is_write m + of_bool w"
  using count_vals_update [of ent_is_write cid "\<lparr>ent_cmd = cmd, ent_is_write = w\<rparr>" m] by simp

lemma rc_inv_push_back:
  assumes "rc_inv r" "cid \<noteq> -1" "rc_push_back cid cmd w r = Some r'"
  shows "rc_inv r'"
  using assms writes_of_push [of cid cmd w "rc_cands r"]
  by (cases w) (auto simp: rc_push_back_eq rc_inv_def)

lemma rc_inv_remove:
  assumes "rc_inv r" shows "rc_inv (snd (rc_remove cid r))"
proof (cases "map_of (rc_cands r) cid")
  case None
  with assms show ?thesis by (simp add: rc_remove_def)
next
  case (Some e)
  have "count_vals ent_is_write (AList.delete cid (rc_cands r)) + of_bool (ent_is_write e) = writes_of r"
    using count_vals_delete [of "rc_cands r" ent_is_write cid] assms Some by (simp add: rc_inv_def)
  with assms Some show ?thesis
    by (auto simp: rc_remove_def rc_inv_def of_bool_def split: if_splits)
qed

lemma rc_inv_has_appeared: "rc_inv r \<Longrightarrow> rc_inv (snd (rc_has_appeared cid r))"
  by (simp add: rc_has_appeared_def rc_inv_def Let_def)

section \<open>The invariant of the pool\<close>

definition pool_inv :: "command_pool \<Rightarrow> bool" where
  "pool_inv p \<longleftrightarrow> distinct (keys_of (candidates p)) \<and> (\<forall>k. rc_inv (bucket k p))"

lemma pool_inv_empty [simp]: "pool_inv (empty_pool b)"
  by (simp add: pool_inv_def empty_pool_def bucket_def)

lemma bucket_empty_pool [simp]: "bucket k (empty_pool b) = empty_candidates"
  by (simp add: bucket_def empty_pool_def)

lemma bucket_pool_reset [simp]: "bucket k (pool_reset p) = empty_candidates"
  by (simp add: bucket_def pool_reset_def)

lemma empty_candidates_fields [simp]:
  "rc_cands empty_candidates = []" "rc_total_write empty_candidates = 0"
  "rc_to_recover_id empty_candidates = -1" "rc_appeared empty_candidates = []"
  by (simp_all add: empty_candidates_def)

lemma bucket_set_bucket [simp]:
  "bucket k' (set_bucket k r p) = (if k' = k then r else bucket k' p)"
  by (simp add: bucket_def set_bucket_def)

lemma bucket_record_updates [simp]:
  "bucket k (p\<lparr>pool_size := a\<rparr>) = bucket k p"
  "bucket k (p\<lparr>pool_cmd_count := a\<rparr>) = bucket k p"
  "bucket k (p\<lparr>pool_file := f\<rparr>) = bucket k p"
  by (simp_all add: bucket_def)

lemma bucket_WriteCommandToDisk [simp]: "bucket k (WriteCommandToDisk c p) = bucket k p"
  by (simp add: WriteCommandToDisk_def)

lemma candidates_WriteCommandToDisk [simp]: "candidates (WriteCommandToDisk c p) = candidates p"
  by (simp add: WriteCommandToDisk_def)

lemma pool_inv_bucket: "pool_inv p \<Longrightarrow> rc_inv (bucket k p)"
  by (simp add: pool_inv_def)

lemma distinct_set_bucket:
  "distinct (keys_of (candidates p)) \<Longrightarrow> distinct (keys_of (candidates (set_bucket k r p)))"
  by (simp add: set_bucket_def)

lemma pool_inv_set_bucket: "pool_inv p \<Longrightarrow> rc_inv r \<Longrightarrow> pool_inv (set_bucket k r p)"
  by (simp add: pool_inv_def distinct_set_bucket)

text \<open>
  The effect of \<open>pool_insert\<close>, \<open>pool_remove_one\<close> and \<open>pool_has_appeared_one\<close> on the
  buckets; the counters are handled separately.
\<close>

lemma pool_insert_bucket:
  assumes "pool_insert k cid w cmd p = Some (ok, p')"
  obtains r where "rc_push_back cid cmd w (bucket k p) = Some r"
    and "candidates p' = AList.update k r (candidates p)"
    and "ok \<longleftrightarrow> rc_total_write (bucket k p) = 0"
    and "pool_cmd_count p' = pool_cmd_count p + 1"
    and "pool_size p' = pool_size p + of_bool (ok \<and> rc_size (bucket k p) = 0)"
proof -
  obtain r where r: "rc_push_back cid cmd w (bucket k p) = Some r"
    using assms by (auto simp: pool_insert_def Let_def bind_eq_Some_conv split: if_splits)
  have "candidates p' = AList.update k r (candidates p)"
    "ok \<longleftrightarrow> rc_total_write (bucket k p) = 0"
    "pool_cmd_count p' = pool_cmd_count p + 1"
    "pool_size p' = pool_size p + of_bool (ok \<and> rc_size (bucket k p) = 0)"
    using assms r
    by (auto simp: pool_insert_def Let_def bind_eq_Some_conv set_bucket_def WriteCommandToDisk_def
             split: if_splits)
  with r show thesis by (rule that)
qed

lemma bucket_cong: "candidates p' = AList.update k r (candidates p) \<Longrightarrow>
    bucket k' p' = (if k' = k then r else bucket k' p)"
  by (simp add: bucket_def)

lemma pool_inv_insert:
  assumes "pool_inv p" "cid \<noteq> -1" "pool_insert k cid w cmd p = Some (ok, p')"
  shows "pool_inv p'"
proof -
  obtain r where r: "rc_push_back cid cmd w (bucket k p) = Some r"
    and c: "candidates p' = AList.update k r (candidates p)"
    using assms(3) by (rule pool_insert_bucket)
  have "rc_inv r" using rc_inv_push_back [OF pool_inv_bucket [OF assms(1)] assms(2) r] .
  with assms(1) show ?thesis by (simp add: pool_inv_def bucket_cong [OF c] c)
qed

lemma candidates_remove_one:
  "candidates (snd (pool_remove_one k cid p))
     = AList.update k (snd (rc_remove cid (bucket k p))) (candidates p)"
  by (simp add: pool_remove_one_def Let_def set_bucket_def split_beta)

lemma pool_inv_remove_one: "pool_inv p \<Longrightarrow> pool_inv (snd (pool_remove_one k cid p))"
  by (simp add: pool_inv_def candidates_remove_one bucket_cong [OF candidates_remove_one]
      rc_inv_remove)

lemma pool_inv_has_appeared_one:
  "pool_inv p \<Longrightarrow> pool_has_appeared_one cmd p = Some (b, p') \<Longrightarrow> pool_inv p'"
  by (auto simp: pool_has_appeared_one_def bind_eq_Some_conv Let_def split_beta
           intro!: pool_inv_set_bucket rc_inv_has_appeared pool_inv_bucket)

lemma pool_inv_reset [simp]: "pool_inv (pool_reset p)"
  by (simp add: pool_inv_def pool_reset_def bucket_def)


section \<open>The pool as a conflict tracker\<close>

definition pool_flight :: "command_pool \<Rightarrow> key_t \<Rightarrow> u64 \<Rightarrow> bool option" where
  "pool_flight p k c = map_option ent_is_write (map_of (rc_cands (bucket k p)) c)"

definition pool_clear :: "key_t \<Rightarrow> u64 \<Rightarrow> command_pool \<Rightarrow> command_pool" where
  "pool_clear k c p = snd (pool_remove_one k c p)"

definition pool_exact :: "command_pool \<Rightarrow> bool" where
  "pool_exact p \<longleftrightarrow> (\<forall>k. rc_total_write (bucket k p) = int (writes_of (bucket k p)))"

lemma rc_cands_push_back:
  "rc_push_back cid cmd w r = Some r' \<Longrightarrow>
   rc_cands r' = AList.update cid \<lparr>ent_cmd = cmd, ent_is_write = w\<rparr> (rc_cands r)"
  by (auto simp: rc_push_back_def Let_def bind_eq_Some_conv split: if_splits)

lemma rc_total_write_push_back:
  "rc_push_back cid cmd w r = Some r' \<Longrightarrow> rc_total_write r' = rc_total_write r + of_bool w"
  by (auto simp: rc_push_back_def Let_def bind_eq_Some_conv split: if_splits)

lemma rc_cands_remove:
  "rc_cands (snd (rc_remove cid r)) = AList.delete cid (rc_cands r)"
  by (auto simp: rc_remove_def delete_idem map_of_eq_None_iff split: option.splits)

lemma rc_total_write_remove:
  "rc_total_write (snd (rc_remove cid r)) = rc_total_write r -
     (case map_of (rc_cands r) cid of None \<Rightarrow> 0 | Some e \<Rightarrow> of_bool (ent_is_write e))"
  by (simp add: rc_remove_def split: option.splits)

lemma pool_flight_insert:
  assumes "pool_insert k c w m p = Some (ok, p')"
  shows "pool_flight p' k' c' = (if k' = k \<and> c' = c then Some w else pool_flight p k' c')"
proof -
  obtain r where "rc_push_back c m w (bucket k p) = Some r"
    and "candidates p' = AList.update k r (candidates p)"
    using assms by (rule pool_insert_bucket)
  then show ?thesis by (simp add: pool_flight_def bucket_cong rc_cands_push_back)
qed

lemma bucket_pool_clear:
  "bucket k' (pool_clear k c p) = (if k' = k then snd (rc_remove c (bucket k p)) else bucket k' p)"
  unfolding pool_clear_def by (rule bucket_cong [OF candidates_remove_one])

lemma pool_flight_clear:
  "pool_flight (pool_clear k c p) k' c' = (if k' = k \<and> c' = c then None else pool_flight p k' c')"
  by (simp add: pool_flight_def bucket_pool_clear rc_cands_remove)

lemma pool_exact_bucket:
  "pool_inv p \<Longrightarrow> pool_exact p \<Longrightarrow>
   rc_total_write (bucket k p) = 0 \<longleftrightarrow> (\<forall>c. pool_flight p k c \<noteq> Some True)"
  using count_vals_zero [of "rc_cands (bucket k p)" ent_is_write] pool_inv_bucket [of p k]
  by (auto simp: pool_exact_def pool_flight_def rc_inv_def)

lemma pool_exact_insert:
  assumes "pool_exact p" "pool_flight p k c = None" "pool_insert k c w m p = Some (ok, p')"
  shows "pool_exact p'"
proof -
  obtain r where r: "rc_push_back c m w (bucket k p) = Some r"
    and c: "candidates p' = AList.update k r (candidates p)"
    using assms(3) by (rule pool_insert_bucket)
  have "writes_of r = writes_of (bucket k p) + of_bool w"
    using count_vals_update [of ent_is_write c "\<lparr>ent_cmd = m, ent_is_write = w\<rparr>" "rc_cands (bucket k p)"]
      assms(2) rc_cands_push_back [OF r] by (simp add: pool_flight_def)
  with assms(1) show ?thesis
    by (simp add: pool_exact_def bucket_cong [OF c] rc_total_write_push_back [OF r])
qed

lemma pool_exact_clear:
  assumes "pool_inv p" "pool_exact p" shows "pool_exact (pool_clear k c p)"
proof -
  let ?r = "bucket k p"
  have "count_vals ent_is_write (AList.delete c (rc_cands ?r)) +
      (case map_of (rc_cands ?r) c of Some e \<Rightarrow> of_bool (ent_is_write e) | None \<Rightarrow> 0) = writes_of ?r"
    using count_vals_delete [of "rc_cands ?r" ent_is_write c] pool_inv_bucket [OF assms(1), of k]
    by (simp add: rc_inv_def)
  with assms(2) show ?thesis
    by (auto simp: pool_exact_def bucket_pool_clear rc_cands_remove rc_total_write_remove
             split: option.splits)
qed

interpretation pool: exact_tracker pool_inv pool_flight pool_insert pool_clear pool_exact
proof unfold_locales
  fix s k c w m ok s'
  assume "pool_inv s" "c \<noteq> -1" "pool_insert k c w m s = Some (ok, s')"
  then show "pool_inv s'" by (rule pool_inv_insert)
next
  fix s k c w m ok s' k' c'
  assume "pool_insert k c w m s = Some (ok, s')"
  then show "pool_flight s' k' c' = (if k' = k \<and> c' = c then Some w else pool_flight s k' c')"
    by (rule pool_flight_insert)
next
  fix s k c w m s' c'
  assume inv: "pool_inv s" and ins: "pool_insert k c w m s = Some (True, s')"
  have zero: "rc_total_write (bucket k s) = 0" using ins by (rule pool_insert_bucket) simp
  show "pool_flight s k c' \<noteq> Some True"
  proof
    assume "pool_flight s k c' = Some True"
    then have "0 < writes_of (bucket k s)" by (auto simp: pool_flight_def intro: count_vals_pos)
    with zero pool_inv_bucket [OF inv, of k] show False by (simp add: rc_inv_def)
  qed
next
  fix s k c assume "pool_inv s"
  then show "pool_inv (pool_clear k c s)" by (simp add: pool_clear_def pool_inv_remove_one)
next
  fix s k c k' c'
  show "pool_flight (pool_clear k c s) k' c' = (if k' = k \<and> c' = c then None else pool_flight s k' c')"
    by (rule pool_flight_clear)
next
  fix s c k w m ok s'
  assume "pool_exact s" "pool_flight s k c = None" "pool_insert k c w m s = Some (ok, s')"
  then show "pool_exact s'" by (rule pool_exact_insert)
next
  fix s k c assume "pool_inv s" "pool_exact s"
  then show "pool_exact (pool_clear k c s)" by (rule pool_exact_clear)
next
  fix s k c w m s'
  assume "pool_inv s" "pool_exact s" and ins: "pool_insert k c w m s = Some (False, s')"
  moreover have "rc_total_write (bucket k s) \<noteq> 0" using ins by (rule pool_insert_bucket) simp
  ultimately show "\<exists>c'. pool_flight s k c' = Some True" by (simp add: pool_exact_bucket)
qed

section \<open>The counters\<close>

definition pool_counts :: "command_pool \<Rightarrow> bool" where
  "pool_counts p \<longleftrightarrow>
     pool_cmd_count p = int (sum_vals rc_size (candidates p)) \<and>
     pool_size p = int (count_vals (\<lambda>r. rc_size r \<noteq> 0) (candidates p))"

lemma rc_size_empty [simp]: "rc_size empty_candidates = 0"
  by (simp add: rc_size_def empty_candidates_def)

lemma sum_sizes_update:
  "sum_vals rc_size (AList.update k r (candidates p)) + rc_size (bucket k p)
     = sum_vals rc_size (candidates p) + rc_size r"
  unfolding bucket_def by (rule sum_vals_update_default) simp

lemma count_sizes_update:
  "count_vals (\<lambda>r. rc_size r \<noteq> 0) (AList.update k r (candidates p)) + of_bool (rc_size (bucket k p) \<noteq> 0)
     = count_vals (\<lambda>r. rc_size r \<noteq> 0) (candidates p) + of_bool (rc_size r \<noteq> 0)"
  unfolding bucket_def by (rule count_vals_update_default) simp

lemma rc_size_push_back:
  "rc_push_back c m w r = Some r' \<Longrightarrow> map_of (rc_cands r) c = None \<Longrightarrow> rc_size r' = Suc (rc_size r)"
  by (simp add: rc_size_def rc_cands_push_back length_update)

lemma writes_le_size: "writes_of r \<le> rc_size r"
  by (simp add: count_vals_def rc_size_def)

lemma pool_counts_insert:
  assumes "pool_counts p" "pool_exact p" "pool_flight p k c = None" "pool_insert k c w m p = Some (ok, p')"
  shows "pool_counts p'"
proof -
  obtain r where r: "rc_push_back c m w (bucket k p) = Some r"
    and c: "candidates p' = AList.update k r (candidates p)"
    and ok: "ok \<longleftrightarrow> rc_total_write (bucket k p) = 0"
    and n: "pool_cmd_count p' = pool_cmd_count p + 1"
      "pool_size p' = pool_size p + of_bool (ok \<and> rc_size (bucket k p) = 0)"
    using assms(4) by (rule pool_insert_bucket)
  have size: "rc_size r = Suc (rc_size (bucket k p))"
    using r assms(3) by (auto simp: pool_flight_def intro: rc_size_push_back)
  have "rc_size (bucket k p) = 0 \<Longrightarrow> ok"
    using ok assms(2) writes_le_size [of "bucket k p"] by (simp add: pool_exact_def)
  with n assms(1) sum_sizes_update [of k r p] count_sizes_update [of k r p] size show ?thesis
    by (auto simp: pool_counts_def c of_bool_def split: if_splits)
qed

lemma rc_remove_size:
  assumes "distinct (keys_of (rc_cands r))"
  shows "rc_size (snd (rc_remove c r)) = rc_size r - of_bool (fst (rc_remove c r))"
    and "fst (rc_remove c r) \<Longrightarrow> 0 < rc_size r"
  using length_delete [OF assms, of c]
  by (auto simp: rc_remove_def rc_size_def split: option.splits)

lemma pool_counts_clear:
  assumes "pool_counts p" "pool_inv p" shows "pool_counts (pool_clear k c p)"
proof -
  obtain b r where br: "rc_remove c (bucket k p) = (b, r)" by (cases "rc_remove c (bucket k p)")
  have d: "distinct (keys_of (rc_cands (bucket k p)))"
    using pool_inv_bucket [OF assms(2)] by (simp add: rc_inv_def)
  note sz = rc_remove_size [OF d, of c, unfolded br]
  show ?thesis
    using assms(1) sum_sizes_update [of k r p] count_sizes_update [of k r p] sz
    by (cases b)
       (auto simp: pool_counts_def pool_clear_def pool_remove_one_def br Let_def set_bucket_def
             of_bool_def split: if_splits)
qed


section \<open>The recovery candidate stays put\<close>

text \<open>
  \<open>candidate k cid m p\<close>: command \<open>m\<close>, a write with identifier \<open>cid\<close>, is in the bucket of key
  \<open>k\<close> and is the one a recovery would pull.
\<close>

definition candidate :: "key_t \<Rightarrow> u64 \<Rightarrow> marshallable \<Rightarrow> command_pool \<Rightarrow> bool" where
  "candidate k cid m p \<longleftrightarrow> pool_inv p \<and> cid \<noteq> -1 \<and> rc_to_recover_id (bucket k p) = cid \<and>
     map_of (rc_cands (bucket k p)) cid = Some \<lparr>ent_cmd = m, ent_is_write = True\<rparr>"

lemma candidate_after_accept:
  assumes "pool_inv p" "cid \<noteq> -1" "pool_insert k cid True m p = Some (True, p')"
  shows "candidate k cid m p'"
proof -
  obtain r where r: "rc_push_back cid m True (bucket k p) = Some r"
    and c: "candidates p' = AList.update k r (candidates p)"
    and z: "rc_total_write (bucket k p) = 0"
    using assms(3) by (rule pool_insert_bucket) simp
  have "rc_to_recover_id r = cid" using r z pool_inv_bucket [OF assms(1)] by (auto simp: rc_push_back_eq)
  then show ?thesis
    using pool_inv_insert [OF assms] assms(2)
    by (simp add: candidate_def bucket_cong [OF c] rc_cands_push_back [OF r])
qed

lemma candidate_insert:
  assumes "candidate k cid m p" "(k', cid') \<noteq> (k, cid)" "cid' \<noteq> -1"
    "pool_insert k' cid' w m' p = Some (ok, p')"
  shows "candidate k cid m p'"
proof -
  obtain r where r: "rc_push_back cid' m' w (bucket k' p) = Some r"
    and c: "candidates p' = AList.update k' r (candidates p)"
    using assms(4) by (rule pool_insert_bucket)
  have inv: "pool_inv p" using assms(1) by (simp add: candidate_def)
  have "rc_total_write (bucket k p) \<noteq> 0"
    using assms(1) pool_inv_bucket [OF inv, of k] by (auto simp: candidate_def rc_inv_def)
  then have "rc_to_recover_id r = cid" if "k' = k"
    using that r assms(1) pool_inv_bucket [OF inv, of k] by (auto simp: candidate_def rc_push_back_eq)
  then show ?thesis
    using assms(1,2) pool_inv_insert [OF inv assms(3,4)]
    by (auto simp: candidate_def bucket_cong [OF c] rc_cands_push_back [OF r])
qed

lemma candidate_clear:
  assumes "candidate k cid m p" "(k', cid') \<noteq> (k, cid)"
  shows "candidate k cid m (pool_clear k' cid' p)"
proof -
  let ?r = "bucket k p"
  have inv: "pool_inv p" using assms(1) by (simp add: candidate_def)
  have keep: "rc_to_recover_id (snd (rc_remove cid' ?r)) = cid" if "k' = k"
  proof -
    have "2 \<le> writes_of ?r" if "map_of (rc_cands ?r) cid' = Some e" "ent_is_write e" for e
      using assms that \<open>k' = k\<close> pool_inv_bucket [OF inv, of k]
      by (intro count_vals_two [of _ cid "\<lparr>ent_cmd = m, ent_is_write = True\<rparr>" _ cid' e]) (auto simp: candidate_def rc_inv_def)
    then show ?thesis
      using assms(1) pool_inv_bucket [OF inv, of k]
      by (fastforce simp: candidate_def rc_remove_def rc_inv_def split: option.splits)
  qed
  show ?thesis
    using assms keep pool.clear_inv [OF inv]
    by (auto simp: candidate_def bucket_pool_clear rc_cands_remove)
qed

lemma candidate_has_appeared_one:
  assumes "candidate k cid m p" "pool_has_appeared_one c p = Some (b, p')"
  shows "candidate k cid m p'"
  using assms pool_inv_has_appeared_one [OF _ assms(2)]
  by (auto simp: candidate_def pool_has_appeared_one_def rc_has_appeared_def bind_eq_Some_conv Let_def)

section \<open>Histories of pool operations\<close>

datatype pool_op = PushBack bool marshallable | RemoveCmd marshallable | HasAppeared marshallable

definition pool_step :: "pool_op \<Rightarrow> command_pool \<Rightarrow> command_pool option" where
  "pool_step op p =
     (case op of
        PushBack recovering cmd \<Rightarrow> map_option snd (pool_push_back recovering cmd p)
      | RemoveCmd cmd \<Rightarrow> map_option snd (pool_remove cmd p)
      | HasAppeared cmd \<Rightarrow> map_option snd (pool_has_appeared cmd p))"

fun pool_run :: "pool_op list \<Rightarrow> command_pool \<Rightarrow> command_pool option" where
  "pool_run [] p = Some p"
| "pool_run (op # ops) p = do {p1 \<leftarrow> pool_step op p; pool_run ops p1}"

definition extract_target :: "marshallable \<Rightarrow> (key_t \<times> u64) list" where
  "extract_target cmd =
     (case ExtractPoolKeys (Some cmd) of Some (Some (k, cid, w)) \<Rightarrow> [(k, cid)] | _ \<Rightarrow> [])"

fun cmd_targets :: "marshallable \<Rightarrow> (key_t \<times> u64) list" where
  "cmd_targets (CMD_TPC_BATCH cs) = concat (map (\<lambda>(tx, c). extract_target (CMD_TPC_COMMIT tx c)) cs)"
| "cmd_targets cmd = extract_target cmd"

fun op_targets :: "pool_op \<Rightarrow> (key_t \<times> u64) list" where
  "op_targets (PushBack _ cmd) = extract_target cmd"
| "op_targets (RemoveCmd cmd) = cmd_targets cmd"
| "op_targets (HasAppeared cmd) = []"

lemma extract_target_eq: "ExtractPoolKeys (Some c) = Some (Some (k, i, w)) \<Longrightarrow> extract_target c = [(k, i)]"
  by (simp add: extract_target_def)

lemma pool_push_back_cases:
  assumes "pool_push_back rec c p = Some (ok, p')"
  obtains "rec" "\<not> ok" "p' = p"
  | k i w where "\<not> rec" "ExtractPoolKeys (Some c) = Some (Some (k, i, w))" "i \<noteq> -1"
      "pool_insert k i w c p = Some (ok, p')"
  using assms
  by (auto simp: pool_push_back_def bind_eq_Some_conv ExtractPoolKeys_not_sentinel split: if_splits)

lemma pool_remove_single:
  assumes "\<nexists>cs. c = CMD_TPC_BATCH cs" "pool_remove c p = Some (n, p')"
  obtains k i where "extract_target c = [(k, i)]" "p' = pool_clear k i p"
proof -
  obtain k i w where "ExtractPoolKeys (Some c) = Some (Some (k, i, w))" "pool_remove_one k i p = (n, p')"
    using assms by (cases c) (auto simp: bind_eq_Some_conv)
  then show thesis using that by (simp add: extract_target_eq pool_clear_def)
qed

text \<open>Removing a command, a batch or not, is a sequence of clears.\<close>

lemma pool_remove_batch_clears:
  "pool_remove_batch cs p = Some (n, p') \<Longrightarrow> P p \<Longrightarrow> (\<And>k c q. P q \<Longrightarrow> P (pool_clear k c q)) \<Longrightarrow> P p'"
proof (induction cs arbitrary: p n)
  case (Cons tc cs)
  obtain k i n' where "pool_remove_batch cs (pool_clear k i p) = Some (n', p')"
    using Cons.prems(1) by (cases tc) (auto simp: bind_eq_Some_conv split_beta pool_clear_def)
  then show ?case using Cons.IH Cons.prems(2,3) by blast
qed simp

lemma pool_remove_clears:
  assumes "pool_remove cmd p = Some (n, p')" "P p" "\<And>k c q. P q \<Longrightarrow> P (pool_clear k c q)"
  shows "P p'"
proof (cases "\<exists>cs. cmd = CMD_TPC_BATCH cs")
  case True
  then show ?thesis using assms pool_remove_batch_clears [of _ p n p' P] by auto
next
  case False
  then show ?thesis using pool_remove_single [OF _ assms(1)] assms(2,3) by metis
qed

lemma candidate_remove_batch:
  "pool_remove_batch cs p = Some (n, p') \<Longrightarrow> candidate k cid m p \<Longrightarrow>
   (k, cid) \<notin> set (cmd_targets (CMD_TPC_BATCH cs)) \<Longrightarrow> candidate k cid m p'"
proof (induction cs p arbitrary: n p' rule: pool_remove_batch.induct)
  case (2 tx c cs p)
  obtain k' i w n' where e: "ExtractPoolKeys (Some (CMD_TPC_COMMIT tx c)) = Some (Some (k', i, w))"
    and rest: "pool_remove_batch cs (pool_clear k' i p) = Some (n', p')"
    using "2.prems"(1) by (auto simp: bind_eq_Some_conv split_beta pool_clear_def)
  have "candidate k cid m (pool_clear k' i p)"
    using "2.prems"(2,3) by (intro candidate_clear) (auto simp: extract_target_eq [OF e])
  then show ?case
    using "2.IH" e rest "2.prems"(3)
    by (auto simp: extract_target_eq [OF e] pool_clear_def split_beta prod_eq_iff)
qed simp

lemma candidate_appeared_batch:
  "pool_has_appeared_batch cs p = Some (b, p') \<Longrightarrow> candidate k cid m p \<Longrightarrow> candidate k cid m p'"
proof (induction cs arbitrary: p)
  case (Cons tc cs)
  then show ?case
    by (cases tc)
       (auto simp: bind_eq_Some_conv split: if_splits intro: candidate_has_appeared_one)
qed simp

lemma candidate_step:
  assumes "candidate k cid m p" "(k, cid) \<notin> set (op_targets op)" "pool_step op p = Some p'"
  shows "candidate k cid m p'"
proof (cases op)
  case (PushBack rec c)
  then obtain ok where "pool_push_back rec c p = Some (ok, p')"
    using assms(3) by (auto simp: pool_step_def)
  then show ?thesis
    using assms(1,2)
    by (cases rule: pool_push_back_cases)
       (auto simp: PushBack extract_target_eq intro: candidate_insert)
next
  case (RemoveCmd c)
  then obtain n where n: "pool_remove c p = Some (n, p')"
    using assms(3) by (auto simp: pool_step_def)
  show ?thesis
  proof (cases "\<exists>cs. c = CMD_TPC_BATCH cs")
    case True
    then show ?thesis using candidate_remove_batch n assms(1,2) by (auto simp: RemoveCmd)
  next
    case False
    then obtain k' i where "extract_target c = [(k', i)]" "p' = pool_clear k' i p"
      using pool_remove_single [OF _ n] by blast
    then show ?thesis
      using assms(1,2) False by (cases c) (auto simp: RemoveCmd intro: candidate_clear)
  qed
next
  case (HasAppeared c)
  then show ?thesis
    using assms(1,3)
    by (cases c)
       (auto simp: pool_step_def intro: candidate_has_appeared_one candidate_appeared_batch)
qed

lemma candidate_run:
  "pool_run ops p = Some p' \<Longrightarrow> candidate k cid m p \<Longrightarrow>
   \<forall>op \<in> set ops. (k, cid) \<notin> set (op_targets op) \<Longrightarrow> candidate k cid m p'"
  by (induction ops arbitrary: p) (auto simp: bind_eq_Some_conv intro: candidate_step)

lemma candidate_reported:
  assumes "candidate k cid m p"
  shows "rc_cmd_to_recover (bucket k p) = Some m" "k \<in> set (pool_id_set p)"
proof -
  show "rc_cmd_to_recover (bucket k p) = Some m"
    using assms by (simp add: candidate_def rc_cmd_to_recover_def rc_get_cmd_def)
  have "map_of (candidates p) k = Some (bucket k p)"
    using assms by (auto simp: candidate_def bucket_def at_default_def empty_candidates_def
        split: option.splits)
  then have "(k, bucket k p) \<in> set (candidates p)" by (rule map_of_SomeD)
  then show "k \<in> set (pool_id_set p)"
    using assms by (force simp: pool_id_set_def candidate_def rc_has_cmd_to_recover_def)
qed


section \<open>Operations do not abort\<close>

fun sub_cmds :: "marshallable \<Rightarrow> marshallable list" where
  "sub_cmds (CMD_TPC_BATCH cs) = map (\<lambda>(tx, c). CMD_TPC_COMMIT tx c) cs"
| "sub_cmds cmd = [cmd]"

fun op_parses :: "pool_op \<Rightarrow> bool" where
  "op_parses (PushBack _ cmd) = (SimpleRWCommand (Some cmd) \<noteq> None)"
| "op_parses (RemoveCmd cmd) = (\<forall>c \<in> set (sub_cmds cmd). SimpleRWCommand (Some c) \<noteq> None)"
| "op_parses (HasAppeared cmd) = (\<forall>c \<in> set (sub_cmds cmd). SimpleRWCommand (Some c) \<noteq> None)"

lemma parse_extract:
  assumes "SimpleRWCommand (Some cmd) \<noteq> None"
  obtains k i w where "ExtractPoolKeys (Some cmd) = Some (Some (k, i, w))" "i \<noteq> -1"
proof -
  obtain c where "SimpleRWCommand (Some cmd) = Some c" using assms by blast
  from extract_of_parse [OF this] that CombineInt32_not_sentinel show thesis by blast
qed

lemma pool_insert_total:
  assumes "pool_inv p" "SimpleRWCommand (Some cmd) \<noteq> None"
  shows "\<exists>ok p'. pool_insert k i w cmd p = Some (ok, p')"
  using assms(2) pool_inv_bucket [OF assms(1), of k]
  by (cases "rc_total_write (bucket k p) = 0")
     (auto simp: pool_insert_def Let_def rc_push_back_eq [where r = "bucket k p"])

lemma pool_remove_batch_total:
  "\<forall>c \<in> set (sub_cmds (CMD_TPC_BATCH cs)). SimpleRWCommand (Some c) \<noteq> None \<Longrightarrow> pool_inv p \<Longrightarrow>
   \<exists>n p'. pool_remove_batch cs p = Some (n, p') \<and> pool_inv p'"
proof (induction cs arbitrary: p)
  case (Cons tc cs)
  obtain tx c where tc: "tc = (tx, c)" by (cases tc)
  have parses: "SimpleRWCommand (Some (CMD_TPC_COMMIT tx c)) \<noteq> None"
    using Cons.prems(1) tc by simp
  obtain k i w where e: "ExtractPoolKeys (Some (CMD_TPC_COMMIT tx c)) = Some (Some (k, i, w))"
    using parse_extract [OF parses] by metis
  obtain n1 p1 where p1: "pool_remove_one k i p = (n1, p1)" by (cases "pool_remove_one k i p")
  then have "pool_inv p1" using pool_inv_remove_one [OF Cons.prems(2), of k i] by simp
  then obtain n p' where "pool_remove_batch cs p1 = Some (n, p')" "pool_inv p'"
    using Cons.IH [of p1] Cons.prems(1) by fastforce
  then show ?case by (simp add: tc e p1)
qed simp

lemma pool_has_appeared_one_total:
  assumes "SimpleRWCommand (Some c) \<noteq> None" "pool_inv p"
  obtains b p' where "pool_has_appeared_one c p = Some (b, p')" "pool_inv p'"
proof -
  obtain b p' where r: "pool_has_appeared_one c p = Some (b, p')"
    using assms(1) by (auto simp: pool_has_appeared_one_def Let_def split_beta)
  from r pool_inv_has_appeared_one [OF assms(2) r] show thesis by (rule that)
qed

lemma pool_has_appeared_batch_total:
  "\<forall>c \<in> set (sub_cmds (CMD_TPC_BATCH cs)). SimpleRWCommand (Some c) \<noteq> None \<Longrightarrow> pool_inv p \<Longrightarrow>
   \<exists>b p'. pool_has_appeared_batch cs p = Some (b, p') \<and> pool_inv p'"
proof (induction cs arbitrary: p)
  case (Cons tc cs)
  obtain tx c where tc: "tc = (tx, c)" by (cases tc)
  have parses: "SimpleRWCommand (Some (CMD_TPC_COMMIT tx c)) \<noteq> None"
    using Cons.prems(1) tc by simp
  obtain b p1 where "pool_has_appeared_one (CMD_TPC_COMMIT tx c) p = Some (b, p1)" "pool_inv p1"
    using parses Cons.prems(2) by (rule pool_has_appeared_one_total)
  then show ?case using Cons.IH [of p1] Cons.prems(1) tc by auto
qed auto

lemma pool_step_total:
  assumes "pool_inv p" "op_parses op"
  shows "\<exists>p'. pool_step op p = Some p' \<and> pool_inv p'"
proof (cases op)
  case (PushBack rec c)
  show ?thesis
  proof (cases "rec")
    case False
    have parses: "SimpleRWCommand (Some c) \<noteq> None" using assms(2) PushBack by simp
    obtain k i w where e: "ExtractPoolKeys (Some c) = Some (Some (k, i, w))" "i \<noteq> -1"
      using parse_extract [OF parses] .
    obtain ok p' where r: "pool_insert k i w c p = Some (ok, p')"
      using pool_insert_total [OF assms(1) parses] by blast
    then show ?thesis using e False PushBack pool_inv_insert [OF assms(1) e(2) r]
      by (simp add: pool_step_def pool_push_back_def)
  qed (use assms PushBack in \<open>simp add: pool_step_def pool_push_back_def\<close>)
next
  case (RemoveCmd c)
  show ?thesis
  proof (cases "\<exists>cs. c = CMD_TPC_BATCH cs")
    case True
    then show ?thesis
      using pool_remove_batch_total [OF _ assms(1)] assms(2) RemoveCmd
      by (fastforce simp: pool_step_def)
  next
    case False
    then have "SimpleRWCommand (Some c) \<noteq> None" using assms(2) RemoveCmd by (cases c) auto
    then obtain k i w where e: "ExtractPoolKeys (Some c) = Some (Some (k, i, w))" by (rule parse_extract)
    have "pool_remove c p = Some (pool_remove_one k i p)" using False e by (cases c) auto
    then show ?thesis using pool_inv_remove_one [OF assms(1)] by (simp add: RemoveCmd pool_step_def)
  qed
next
  case (HasAppeared c)
  show ?thesis
  proof (cases "\<exists>cs. c = CMD_TPC_BATCH cs")
    case True
    then show ?thesis
      using pool_has_appeared_batch_total [OF _ assms(1)] assms(2) HasAppeared
      by (fastforce simp: pool_step_def)
  next
    case False
    then have "SimpleRWCommand (Some c) \<noteq> None" using assms(2) HasAppeared by (cases c) auto
    then obtain b p' where "pool_has_appeared_one c p = Some (b, p')" "pool_inv p'"
      using assms(1) by (rule pool_has_appeared_one_total)
    moreover have "pool_has_appeared c p = pool_has_appeared_one c p" using False by (cases c) auto
    ultimately show ?thesis by (simp add: HasAppeared pool_step_def)
  qed
qed

lemma pool_run_total:
  "pool_inv p \<Longrightarrow> \<forall>op \<in> set ops. op_parses op \<Longrightarrow> \<exists>p'. pool_run ops p = Some p' \<and> pool_inv p'"
proof (induction ops arbitrary: p)
  case (Cons op ops)
  obtain p1 where "pool_step op p = Some p1" "pool_inv p1"
    using pool_step_total Cons.prems by (metis list.set_intros(1))
  then show ?case using Cons by auto
qed simp


section \<open>Pools reached with fresh identifiers\<close>

text \<open>
  The pools a replica reaches when no command enters a bucket that already holds its
  identifier: pushes of fresh commands, removals, look-ups, resets.
\<close>

inductive fresh_pool :: "command_pool \<Rightarrow> bool" where
  fresh_init: "fresh_pool (empty_pool b)"
| fresh_push: "fresh_pool p \<Longrightarrow> pool_push_back rec cmd p = Some (ok, p') \<Longrightarrow>
    \<forall>(k, i) \<in> set (extract_target cmd). pool_flight p k i = None \<Longrightarrow> fresh_pool p'"
| fresh_remove: "fresh_pool p \<Longrightarrow> pool_remove cmd p = Some (n, p') \<Longrightarrow> fresh_pool p'"
| fresh_reset: "fresh_pool p \<Longrightarrow> fresh_pool (pool_reset p)"

lemma fresh_pool_inv: "fresh_pool p \<Longrightarrow> pool_inv p \<and> pool_exact p \<and> pool_counts p"
proof (induction rule: fresh_pool.induct)
  case (fresh_init b)
  have "pool_counts (empty_pool b)" by (simp add: pool_counts_def empty_pool_def)
  then show ?case by (simp add: pool_exact_def)
next
  case (fresh_push p rec cmd ok p')
  from fresh_push.hyps(2) show ?case
  proof (cases rule: pool_push_back_cases)
    case 1
    with fresh_push.IH show ?thesis by simp
  next
    case (2 k i w)
    have "pool_flight p k i = None" using fresh_push.hyps(3) by (simp add: extract_target_eq [OF 2(2)])
    with 2 fresh_push.IH show ?thesis
      by (blast intro: pool_inv_insert pool_exact_insert pool_counts_insert)
  qed
next
  case (fresh_remove p cmd n p')
  from fresh_remove.hyps(2) fresh_remove.IH show ?case
    by (rule pool_remove_clears) (auto intro: pool.clear_inv pool.clear_exact pool_counts_clear)
next
  case (fresh_reset p)
  have "pool_counts (pool_reset p)" by (simp add: pool_counts_def pool_reset_def)
  then show ?case by (simp add: pool_exact_def)
qed

section \<open>Properties\<close>

text \<open>
  C5. The pool never aborts: running any sequence of \<^verbatim>\<open>push_back\<close>, \<^verbatim>\<open>remove\<close> and
  \<^verbatim>\<open>has_appeared\<close> calls on a fresh pool, with commands that parse (batches included), every
  \<^verbatim>\<open>verify\<close> holds; in particular the recovery candidate of a bucket is unset whenever its
  write counter is zero.
\<close>

theorem pool_never_aborts:
  assumes "\<forall>op \<in> set ops. op_parses op"
  shows "\<exists>p. pool_run ops (empty_pool b) = Some p \<and>
    (\<forall>k. rc_total_write (bucket k p) = 0 \<longleftrightarrow> rc_to_recover_id (bucket k p) = -1)"
  using pool_run_total [OF pool_inv_empty [of b] assms] by (auto simp: pool_inv_def rc_inv_def)

theorem pool_never_aborts_witness:
  "\<exists>p. pool_run [PushBack False (example_write 1 1 7 70), PushBack False (example_write 1 1 7 71),
        RemoveCmd (example_write 1 1 7 70)] (empty_pool True) = Some p \<and>
    (\<forall>k. rc_total_write (bucket k p) = 0 \<longleftrightarrow> rc_to_recover_id (bucket k p) = -1)"
proof (rule pool_never_aborts)
  have "sub_cmds (example_write 1 1 7 70) = [example_write 1 1 7 70]"
    by (simp add: example_write_def)
  then show "\<forall>op \<in> set [PushBack False (example_write 1 1 7 70), PushBack False (example_write 1 1 7 71),
        RemoveCmd (example_write 1 1 7 70)]. op_parses op" by simp
qed

text \<open>
  On pools reached with fresh identifiers the answer of \<^verbatim>\<open>push_back\<close> is exact: outside
  recovery an attempt is accepted if and only if no write is in flight on its key, during
  recovery nothing is accepted and nothing changes; and the two size counters are the number
  of tracked commands and of non-empty buckets.
\<close>

theorem pool_push_back_exact:
  assumes "fresh_pool p" "pool_push_back rec cmd p = Some (ok, p')"
    "ExtractPoolKeys (Some cmd) = Some (Some (k, cid, w))"
  shows "(ok \<longleftrightarrow> \<not> rec \<and> (\<forall>c. pool_flight p k c \<noteq> Some True)) \<and> (rec \<longrightarrow> p' = p) \<and>
    pool_cmd_count p = int (sum_vals rc_size (candidates p)) \<and>
    pool_size p = int (count_vals (\<lambda>r. rc_size r \<noteq> 0) (candidates p))"
  using fresh_pool_inv [OF assms(1)] assms(2,3)
  by (auto simp: pool_counts_def pool_push_back_def pool.attempt_iff split: if_splits)

lemma example_write_accepted:
  "\<exists>p1. pool_push_back False (example_write a b k v) (empty_pool c) = Some (True, p1)"
  using pool_insert_total [OF pool_inv_empty [of c], of "example_write a b k v" k "CombineInt32 a b" True]
  by (auto simp: pool_push_back_def pool_insert_def bind_eq_Some_conv Let_def)

theorem pool_push_back_exact_witness:
  "\<exists>p'. pool_push_back False (example_write 1 1 7 70) (empty_pool True) = Some (True, p') \<and>
     (\<forall>c. pool_flight (empty_pool True) 7 c \<noteq> Some True)"
proof -
  obtain p' where r: "pool_push_back False (example_write 1 1 7 70) (empty_pool True) = Some (True, p')"
    using example_write_accepted by blast
  from pool_push_back_exact [OF fresh_init r example_write_extract] r show ?thesis by blast
qed

text \<open>
  C4. A write that the pool accepted stays the recovery candidate of its key: after any further
  pushes, removals (batches included) and look-ups that do not concern this very command,
  \<^verbatim>\<open>cmd_to_recover\<close> still returns it and its key is in \<^verbatim>\<open>id_set\<close>.
\<close>

theorem accepted_write_stays_candidate:
  assumes "pool_inv p" "pool_push_back rec cmd p = Some (True, p1)"
    "ExtractPoolKeys (Some cmd) = Some (Some (k, cid, True))"
    "pool_run ops p1 = Some p2" "\<forall>op \<in> set ops. (k, cid) \<notin> set (op_targets op)"
  shows "rc_cmd_to_recover (bucket k p2) = Some cmd \<and> k \<in> set (pool_id_set p2)"
proof -
  have "candidate k cid cmd p1"
    using assms(2)
    by (cases rule: pool_push_back_cases) (use assms(1,3) candidate_after_accept in auto)
  with assms(4) have "candidate k cid cmd p2" using assms(5) by (rule candidate_run)
  then show ?thesis using candidate_reported by blast
qed

theorem accepted_write_stays_candidate_witness:
  "\<exists>p1 p2. pool_push_back False (example_write 1 1 7 70) (empty_pool True) = Some (True, p1) \<and>
     pool_run [PushBack False (example_write 2 1 7 71), RemoveCmd (example_write 2 1 7 71)] p1 = Some p2 \<and>
     rc_cmd_to_recover (bucket 7 p2) = Some (example_write 1 1 7 70)"
proof -
  let ?ops = "[PushBack False (example_write 2 1 7 71), RemoveCmd (example_write 2 1 7 71)]"
  obtain p1 where p1: "pool_push_back False (example_write 1 1 7 70) (empty_pool True) = Some (True, p1)"
    using example_write_accepted by blast
  have subs: "sub_cmds (example_write 2 1 7 71) = [example_write 2 1 7 71]"
    "cmd_targets (example_write 2 1 7 71) = extract_target (example_write 2 1 7 71)"
    by (simp_all add: example_write_def)
  have "pool_inv p1"
    using p1 by (cases rule: pool_push_back_cases) (auto dest: pool_inv_insert [OF pool_inv_empty, rotated])
  then obtain p2 where p2: "pool_run ?ops p1 = Some p2"
    using pool_run_total [of p1 ?ops] subs by auto
  have "CombineInt32 1 1 \<noteq> CombineInt32 2 1" by (simp add: CombineInt32_def)
  then have "\<forall>op \<in> set ?ops. (7, CombineInt32 1 1) \<notin> set (op_targets op)"
    by (simp add: subs extract_target_eq [OF example_write_extract])
  from accepted_write_stays_candidate [OF pool_inv_empty p1 example_write_extract p2 this] p1 p2
  show ?thesis by blast
qed

end
