(* ===== verification/Event.thy ===== *)
theory Event
  imports Prelude
begin

text \<open>
  The coroutine events of \<^verbatim>\<open>rrr/reactor/event.h\<close>, \<^verbatim>\<open>event.cc\<close> and the reactor loop of
  \<^verbatim>\<open>reactor.cc\<close>: \<^verbatim>\<open>IntEvent\<close> with its \<^verbatim>\<open>Wait\<close>, \<^verbatim>\<open>Test\<close> and \<^verbatim>\<open>Set\<close>, \<^verbatim>\<open>CheckTimeout\<close>, the
  pass over the ready events, and \<^verbatim>\<open>SharedIntEvent\<close>. Events are numbered; a coroutine is the
  one that waits on its event, so "the coroutine continues" is the event number being handed
  back by the loop. The reactor runs on one thread, and what a resumed coroutine does next is
  further steps. Disk events, the debugging set \<^verbatim>\<open>waiting_events_\<close> and the coroutine
  recycling are left out.
\<close>

section \<open>Events\<close>

datatype event_status = INIT | WAIT | READY | DONE | TIMEOUT | DEBUG

record int_event =
  ev_status :: event_status
  ev_value :: int
  ev_target :: int
  ev_test :: "(int \<Rightarrow> bool) option"
  ev_wakeup :: nat

definition new_int_event :: "int \<Rightarrow> int_event" where
  "new_int_event target = \<lparr>ev_status = INIT, ev_value = 0, ev_target = target, ev_test = None, ev_wakeup = 0\<rparr>"

definition int_IsReady :: "int_event \<Rightarrow> bool" where
  "int_IsReady e = (case ev_test e of Some f \<Rightarrow> f (ev_value e) | None \<Rightarrow> ev_value e \<ge> ev_target e)"

text \<open>
  The status part of \<^verbatim>\<open>Event::Test\<close>, for any kind of event, given whether it is ready: the
  new status, the answer, and whether the event is pushed to \<^verbatim>\<open>ready_events_\<close>.
\<close>

definition test_status :: "bool \<Rightarrow> event_status \<Rightarrow> (bool \<times> event_status \<times> bool) option" where
  "test_status ready st =
     (if ready
      then (case st of INIT \<Rightarrow> Some (True, INIT, False)
                     | WAIT \<Rightarrow> Some (True, READY, True)
                     | READY \<Rightarrow> Some (True, READY, False)
                     | DONE \<Rightarrow> Some (True, DONE, False)
                     | TIMEOUT \<Rightarrow> Some (True, TIMEOUT, False)
                     | DEBUG \<Rightarrow> None)
      else Some (False, if st = DONE then INIT else st, False))"

text \<open>\<^verbatim>\<open>Event::ThreadSafeTest\<close> differs: a ready event that timed out aborts.\<close>

definition thread_safe_test_status :: "bool \<Rightarrow> event_status \<Rightarrow> (bool \<times> event_status \<times> bool) option" where
  "thread_safe_test_status ready st =
     (if ready
      then (case st of INIT \<Rightarrow> Some (True, INIT, False)
                     | WAIT \<Rightarrow> Some (True, READY, True)
                     | READY \<Rightarrow> Some (True, READY, False)
                     | DONE \<Rightarrow> Some (True, DONE, False)
                     | _ \<Rightarrow> None)
      else Some (False, if st = DONE then INIT else st, False))"

text \<open>The status part of \<^verbatim>\<open>Event::Wait\<close>; the flag says that the coroutine yields.\<close>

definition wait_status :: "bool \<Rightarrow> event_status \<Rightarrow> bool \<times> event_status" where
  "wait_status ready st =
     (if st = DONE then (False, DONE) else if ready then (False, DONE) else (True, WAIT))"

text \<open>\<^verbatim>\<open>IntEvent::TestTrigger\<close>, the older trigger test.\<close>

definition TestTrigger :: "int_event \<Rightarrow> bool \<times> int_event" where
  "TestTrigger e =
     (if ev_status e \<in> {READY, DONE, TIMEOUT, DEBUG} then (False, e)
      else if ev_value e = ev_target e
      then (True, e\<lparr>ev_status := (if ev_status e = INIT then DONE else READY)\<rparr>)
      else (False, e))"

section \<open>The reactor\<close>

record reactor =
  r_events :: "nat \<Rightarrow> int_event"
  r_ready :: "nat list"
  r_timeouts :: "nat list"
  r_pending :: "nat list"

definition init_reactor :: "(nat \<Rightarrow> int) \<Rightarrow> reactor" where
  "init_reactor targets =
     \<lparr>r_events = (\<lambda>i. new_int_event (targets i)), r_ready = [], r_timeouts = [], r_pending = []\<rparr>"

abbreviation status_of :: "reactor \<Rightarrow> nat \<Rightarrow> event_status" where
  "status_of r i \<equiv> ev_status (r_events r i)"

definition upd_event :: "nat \<Rightarrow> (int_event \<Rightarrow> int_event) \<Rightarrow> reactor \<Rightarrow> reactor" where
  "upd_event i f r = r\<lparr>r_events := (r_events r)(i := f (r_events r i))\<rparr>"

definition Test :: "nat \<Rightarrow> reactor \<Rightarrow> (bool \<times> reactor) option" where
  "Test i r =
     do {(ans, st, pushed) \<leftarrow> test_status (int_IsReady (r_events r i)) (status_of r i);
         let r1 = upd_event i (\<lambda>e. e\<lparr>ev_status := st\<rparr>) r;
         Some (ans, r1\<lparr>r_ready := (if pushed then r_ready r1 @ [i] else r_ready r1)\<rparr>)}"

definition SetInt :: "nat \<Rightarrow> int \<Rightarrow> reactor \<Rightarrow> (int \<times> reactor) option" where
  "SetInt i n r =
     do {let old = ev_value (r_events r i);
         (_, r1) \<leftarrow> Test i (upd_event i (\<lambda>e. e\<lparr>ev_value := n\<rparr>) r);
         Some (old, r1)}"

definition Wait :: "nat \<Rightarrow> nat \<Rightarrow> nat \<Rightarrow> reactor \<Rightarrow> bool \<times> reactor" where
  "Wait now timeout i r =
     (let (yields, st) = wait_status (int_IsReady (r_events r i)) (status_of r i) in
      if yields \<and> timeout > 0
      then (True, (upd_event i (\<lambda>e. e\<lparr>ev_status := st, ev_wakeup := now + timeout\<rparr>) r)
                    \<lparr>r_timeouts := r_timeouts r @ [i]\<rparr>)
      else (yields, upd_event i (\<lambda>e. e\<lparr>ev_status := st\<rparr>) r))"

text \<open>
  \<^verbatim>\<open>CheckTimeout\<close>: the pass over \<^verbatim>\<open>timeout_events_\<close>, which keeps the events still waiting,
  drops those already triggered, and moves the expired ones to the list being processed. The
  accumulators are the kept entries and the moved ones.
\<close>

fun check_timeout ::
  "nat \<Rightarrow> nat list \<Rightarrow> nat list \<Rightarrow> nat list \<Rightarrow> reactor \<Rightarrow> (nat list \<times> nat list \<times> reactor) option" where
  "check_timeout now [] keep moved r = Some (keep, moved, r)"
| "check_timeout now (i # is) keep moved r =
     (case status_of r i of
        INIT \<Rightarrow> None
      | WAIT \<Rightarrow>
          do {vrfy (ev_wakeup (r_events r i) > 0);
              if now > ev_wakeup (r_events r i)
              then check_timeout now is keep (moved @ [i])
                     (upd_event i (\<lambda>e. e\<lparr>ev_status := (if int_IsReady e then READY else TIMEOUT)\<rparr>) r)
              else check_timeout now is (keep @ [i]) moved r}
      | READY \<Rightarrow> check_timeout now is keep moved r
      | DONE \<Rightarrow> check_timeout now is keep moved r
      | _ \<Rightarrow> None)"

definition CheckTimeout :: "nat \<Rightarrow> reactor \<Rightarrow> reactor option" where
  "CheckTimeout now r =
     do {(keep, moved, r1) \<leftarrow> check_timeout now (r_timeouts r) [] [] r;
         Some (r1\<lparr>r_timeouts := keep, r_pending := r_pending r1 @ moved\<rparr>)}"

text \<open>One iteration of \<^verbatim>\<open>Loop\<close> begins by taking over the ready events and the expired ones.\<close>

definition begin_pass :: "nat \<Rightarrow> bool \<Rightarrow> reactor \<Rightarrow> reactor option" where
  "begin_pass now chk r =
     (let r1 = r\<lparr>r_ready := [], r_pending := r_ready r\<rparr>
      in if chk then CheckTimeout now r1 else Some r1)"

text \<open>
  The body of its \<^verbatim>\<open>for\<close> loop: an event already done is skipped, another one continues its
  coroutine (the answer), a ready event becoming done. Not being ready or timed out aborts.
\<close>

definition resume_next :: "reactor \<Rightarrow> (nat option \<times> reactor) option" where
  "resume_next r =
     (case r_pending r of
        [] \<Rightarrow> Some (None, r)
      | i # is \<Rightarrow>
          let r1 = r\<lparr>r_pending := is\<rparr> in
          if status_of r i = DONE then Some (None, r1)
          else if status_of r i = READY
          then Some (Some i, upd_event i (\<lambda>e. e\<lparr>ev_status := DONE\<rparr>) r1)
          else do {vrfy (status_of r i = TIMEOUT); Some (Some i, r1)})"

section \<open>Shared integer events\<close>

record shared_int_event =
  sh_value :: int
  sh_events :: "nat list"

fun shared_set_loop :: "int \<Rightarrow> nat list \<Rightarrow> reactor \<Rightarrow> reactor option" where
  "shared_set_loop v [] r = Some r"
| "shared_set_loop v (i # is) r =
     (if status_of r i \<in> {INIT, WAIT} \<and> ev_target (r_events r i) \<le> v
      then do {(_, r1) \<leftarrow> SetInt i v r; shared_set_loop v is r1}
      else shared_set_loop v is r)"

definition SharedSet :: "int \<Rightarrow> shared_int_event \<Rightarrow> reactor \<Rightarrow> (int \<times> shared_int_event \<times> reactor) option" where
  "SharedSet v s r =
     do {r1 \<leftarrow> shared_set_loop v (sh_events s) r;
         Some (sh_value s, s\<lparr>sh_value := v\<rparr>, r1)}"

text \<open>
  The two waits, up to the yield: the fresh event is number \<open>i\<close>. The first answer says whether
  the coroutine yields. \<^verbatim>\<open>WaitUntilGreaterOrEqualThan\<close> removes its event after waking up.
\<close>

definition SharedWaitGE :: "nat \<Rightarrow> nat \<Rightarrow> nat \<Rightarrow> int \<Rightarrow> shared_int_event \<Rightarrow> reactor \<Rightarrow> bool \<times> shared_int_event \<times> reactor" where
  "SharedWaitGE now timeout i x s r =
     (if sh_value s \<ge> x then (False, s, r)
      else let r1 = upd_event i (\<lambda>_. (new_int_event x)\<lparr>ev_value := sh_value s\<rparr>) r;
               (y, r2) = Wait now timeout i r1
           in (y, s\<lparr>sh_events := sh_events s @ [i]\<rparr>, r2))"

definition SharedWaitGE_finish :: "nat \<Rightarrow> shared_int_event \<Rightarrow> reactor \<Rightarrow> bool \<times> shared_int_event" where
  "SharedWaitGE_finish i s r = (status_of r i = TIMEOUT, s\<lparr>sh_events := remove1 i (sh_events s)\<rparr>)"

definition SharedWaitTest :: "nat \<Rightarrow> nat \<Rightarrow> (int \<Rightarrow> bool) \<Rightarrow> shared_int_event \<Rightarrow> reactor \<Rightarrow> bool \<times> shared_int_event \<times> reactor" where
  "SharedWaitTest now i f s r =
     (if f (sh_value s) then (False, s, r)
      else let r1 = upd_event i (\<lambda>_. (new_int_event 1)\<lparr>ev_value := sh_value s, ev_test := Some f\<rparr>) r;
               (y, r2) = Wait now 0 i r1
           in (y, s\<lparr>sh_events := sh_events s @ [i]\<rparr>, r2))"

section \<open>Steps of a reactor\<close>

text \<open>
  What a reactor thread does: wait on an event that nobody waits on (one waiter per event, as
  the code requires), set an event, begin a pass when the last one is over, resume.
\<close>

inductive reactor_step :: "reactor \<Rightarrow> nat option \<Rightarrow> reactor \<Rightarrow> bool" where
  rs_wait: "status_of r i \<notin> {WAIT, READY} \<Longrightarrow> i \<notin> set (r_pending r) \<Longrightarrow> 0 < now \<Longrightarrow>
    Wait now timeout i r = (y, r') \<Longrightarrow> reactor_step r None r'"
| rs_set: "SetInt i v r = Some (old, r') \<Longrightarrow> reactor_step r None r'"
| rs_pass: "r_pending r = [] \<Longrightarrow> begin_pass now chk r = Some r' \<Longrightarrow> reactor_step r None r'"
| rs_resume: "resume_next r = Some (c, r') \<Longrightarrow> reactor_step r c r'"

inductive reactor_reach :: "reactor \<Rightarrow> bool" where
  rr_init: "reactor_reach (init_reactor ts)"
| rr_step: "reactor_reach r \<Longrightarrow> reactor_step r c r' \<Longrightarrow> reactor_reach r'"

definition reactor_inv :: "reactor \<Rightarrow> bool" where
  "reactor_inv r \<longleftrightarrow> distinct (r_ready r @ r_pending r) \<and>
     (\<forall>i. status_of r i = READY \<longrightarrow> i \<in> set (r_ready r) \<union> set (r_pending r)) \<and>
     (\<forall>i \<in> set (r_ready r). status_of r i = READY) \<and>
     (\<forall>i \<in> set (r_pending r). status_of r i \<in> {READY, TIMEOUT}) \<and>
     (\<forall>i. status_of r i = WAIT \<longrightarrow> \<not> int_IsReady (r_events r i)) \<and>
     (\<forall>i. status_of r i \<noteq> DEBUG)"

lemma events_upd_event [simp]:
  "r_events (upd_event i f r) = (r_events r)(i := f (r_events r i))"
  "r_ready (upd_event i f r) = r_ready r" "r_pending (upd_event i f r) = r_pending r"
  "r_timeouts (upd_event i f r) = r_timeouts r"
  by (simp_all add: upd_event_def)

lemma int_IsReady_status [simp]:
  "int_IsReady (e\<lparr>ev_status := s\<rparr>) = int_IsReady e"
  "int_IsReady (e\<lparr>ev_wakeup := w\<rparr>) = int_IsReady e"
  by (simp_all add: int_IsReady_def split: option.splits)

lemma reactor_inv_init: "reactor_inv (init_reactor ts)"
  by (simp add: reactor_inv_def init_reactor_def new_int_event_def)

lemma reactor_inv_wait:
  assumes "reactor_inv r" "status_of r i \<notin> {WAIT, READY}" "i \<notin> set (r_pending r)" "Wait now timeout i r = (y, r')"
  shows "reactor_inv r'"
proof -
  have nr: "i \<notin> set (r_ready r)" using assms(1,2) by (auto simp: reactor_inv_def)
  obtain st w where e: "r_events r' = (r_events r)(i := (r_events r i)\<lparr>ev_status := st, ev_wakeup := w\<rparr>)"
    and st: "st = DONE \<or> st = WAIT \<and> \<not> int_IsReady (r_events r i)"
    and l: "r_ready r' = r_ready r" "r_pending r' = r_pending r"
  proof -
    have "r_events r' = (r_events r)(i := (r_events r i)\<lparr>ev_status := status_of r' i, ev_wakeup := ev_wakeup (r_events r' i)\<rparr>)"
      using assms(4) by (auto simp: Wait_def Let_def split: prod.splits if_splits)
    moreover have "status_of r' i = DONE \<or> status_of r' i = WAIT \<and> \<not> int_IsReady (r_events r i)"
      using assms(4) by (auto simp: Wait_def wait_status_def Let_def split: prod.splits if_splits)
    moreover have "r_ready r' = r_ready r" "r_pending r' = r_pending r"
      using assms(4) by (auto simp: Wait_def Let_def split: prod.splits if_splits)
    ultimately show thesis by (rule that)
  qed
  show ?thesis using assms(1,3) nr st unfolding reactor_inv_def e l by auto
qed

lemma Test_cases:
  assumes "Test i r = Some (b, r')"
  shows "r_pending r' = r_pending r"
    and "r_events r' = (r_events r)(i := (r_events r i)\<lparr>ev_status := status_of r' i\<rparr>)"
    and "if int_IsReady (r_events r i) \<and> status_of r i = WAIT
         then r_ready r' = r_ready r @ [i] \<and> status_of r' i = READY
         else r_ready r' = r_ready r \<and>
           status_of r' i = (if \<not> int_IsReady (r_events r i) \<and> status_of r i = DONE then INIT else status_of r i)"
proof -
  obtain st pushed where s: "test_status (int_IsReady (r_events r i)) (status_of r i) = Some (b, st, pushed)"
    and r': "r' = (upd_event i (\<lambda>e. e\<lparr>ev_status := st\<rparr>) r)\<lparr>r_ready := (if pushed then r_ready r @ [i] else r_ready r)\<rparr>"
    using assms by (auto simp: Test_def Let_def bind_eq_Some_conv)
  show "r_pending r' = r_pending r"
    "r_events r' = (r_events r)(i := (r_events r i)\<lparr>ev_status := status_of r' i\<rparr>)"
    by (simp_all add: r')
  show "if int_IsReady (r_events r i) \<and> status_of r i = WAIT
         then r_ready r' = r_ready r @ [i] \<and> status_of r' i = READY
         else r_ready r' = r_ready r \<and>
           status_of r' i = (if \<not> int_IsReady (r_events r i) \<and> status_of r i = DONE then INIT else status_of r i)"
    using s by (auto simp: r' test_status_def split: if_splits event_status.splits)
qed

lemma reactor_inv_set:
  assumes "reactor_inv r" "SetInt i v r = Some (old, r')"
  shows "reactor_inv r'"
proof -
  let ?r = "upd_event i (\<lambda>e. e\<lparr>ev_value := v\<rparr>) r"
  obtain b where b: "Test i ?r = Some (b, r')"
    using assms(2) by (auto simp: SetInt_def Let_def bind_eq_Some_conv)
  note T = Test_cases [OF b, simplified]
  define E where "E = r_events r' i"
  have "r_events r' j = r_events r j" if "j \<noteq> i" for j using fun_cong [OF T(2), of j] that by simp
  then have ev: "r_events r' = (r_events r)(i := E)" by (auto simp: E_def)
  have "E = (r_events r i)\<lparr>ev_value := v, ev_status := ev_status E\<rparr>"
    unfolding E_def using fun_cong [OF T(2), of i] by simp
  then have ready: "int_IsReady E = int_IsReady ((r_events r i)\<lparr>ev_value := v\<rparr>)"
    by (metis int_IsReady_status(1))
  show ?thesis
  proof (cases "int_IsReady ((r_events r i)\<lparr>ev_value := v\<rparr>) \<and> status_of r i = WAIT")
    case True
    with T(3) have 3: "r_ready r' = r_ready r @ [i]" "ev_status E = READY" by (auto simp: E_def)
    have "i \<notin> set (r_ready r)" "i \<notin> set (r_pending r)" using True assms(1) by (auto simp: reactor_inv_def)
    then show ?thesis
      using assms(1) 3(2) unfolding reactor_inv_def ev 3(1) T(1) by auto
  next
    case False
    with T(3) have 3: "r_ready r' = r_ready r"
      "ev_status E = (if \<not> int_IsReady ((r_events r i)\<lparr>ev_value := v\<rparr>) \<and> status_of r i = DONE then INIT else status_of r i)"
      by (auto simp: E_def)
    then show ?thesis
      using assms(1) False unfolding reactor_inv_def ev 3(1) T(1) by (auto simp: ready split: if_splits)
  qed
qed


text \<open>\<^verbatim>\<open>CheckTimeout\<close> keeps the invariant: what it moves was waiting, so it is nowhere else.\<close>

lemma reactor_inv_expire:
  assumes "reactor_inv r" "status_of r i = WAIT" "\<not> int_IsReady (r_events r i)"
  shows "reactor_inv ((upd_event i (\<lambda>e. e\<lparr>ev_status := TIMEOUT\<rparr>) r)\<lparr>r_pending := r_pending r @ [i]\<rparr>)"
proof -
  have "i \<notin> set (r_ready r)" "i \<notin> set (r_pending r)" using assms by (auto simp: reactor_inv_def)
  then show ?thesis using assms unfolding reactor_inv_def by auto
qed

lemma check_timeout_inv:
  "check_timeout now is keep moved r = Some (keep', moved', r') \<Longrightarrow>
   reactor_inv (r\<lparr>r_pending := p @ moved\<rparr>) \<Longrightarrow>
   reactor_inv (r'\<lparr>r_pending := p @ moved'\<rparr>) \<and> r_pending r' = r_pending r \<and> r_ready r' = r_ready r"
proof (induction now "is" keep moved r rule: check_timeout.induct)
  case (2 now i "is" keep moved r)
  show ?case
  proof (cases "status_of r i")
    case WAIT
    have idle: "\<not> int_IsReady (r_events r i)" using "2.prems"(2) WAIT by (auto simp: reactor_inv_def)
    show ?thesis
    proof (cases "now > ev_wakeup (r_events r i)")
      case True
      let ?r = "upd_event i (\<lambda>e. e\<lparr>ev_status := (if int_IsReady e then READY else TIMEOUT)\<rparr>) r"
      have eq: "?r\<lparr>r_pending := p @ moved @ [i]\<rparr> =
          (upd_event i (\<lambda>e. e\<lparr>ev_status := TIMEOUT\<rparr>) (r\<lparr>r_pending := p @ moved\<rparr>))\<lparr>r_pending := (p @ moved) @ [i]\<rparr>"
        using idle by (simp add: upd_event_def)
      have "reactor_inv (?r\<lparr>r_pending := p @ moved @ [i]\<rparr>)"
        unfolding eq using reactor_inv_expire [OF "2.prems"(2), of i] WAIT idle by simp
      then show ?thesis using 2(1) [OF WAIT _ True] "2.prems"(1) WAIT True by auto
    next
      case False
      then show ?thesis using 2(2) [OF WAIT _ False] "2.prems" WAIT by auto
    qed
  qed (use 2 in auto)
qed simp

lemma reactor_inv_pass:
  assumes "reactor_inv r" "r_pending r = []" "begin_pass now chk r = Some r'"
  shows "reactor_inv r'"
proof -
  have 1: "reactor_inv (r\<lparr>r_ready := [], r_pending := r_ready r\<rparr>)"
    using assms(1,2) by (auto simp: reactor_inv_def)
  show ?thesis
  proof (cases chk)
    case False
    with 1 assms(3) show ?thesis by (simp add: begin_pass_def Let_def)
  next
    case True
    obtain keep moved r1 where c: "check_timeout now (r_timeouts r) [] [] (r\<lparr>r_ready := [], r_pending := r_ready r\<rparr>)
        = Some (keep, moved, r1)" and r': "r' = r1\<lparr>r_timeouts := keep, r_pending := r_pending r1 @ moved\<rparr>"
      using assms(3) True by (auto simp: begin_pass_def CheckTimeout_def Let_def bind_eq_Some_conv)
    from check_timeout_inv [OF c, of "r_ready r"] 1
    have "reactor_inv (r1\<lparr>r_pending := r_ready r @ moved\<rparr>)" "r_pending r1 = r_ready r" by auto
    then show ?thesis by (simp add: r' reactor_inv_def)
  qed
qed

lemma reactor_inv_resume:
  assumes "reactor_inv r" "resume_next r = Some (c, r')"
  shows "reactor_inv r'"
proof (cases "r_pending r")
  case (Cons i "is")
  then have st: "status_of r i \<in> {READY, TIMEOUT}" "i \<notin> set is" "i \<notin> set (r_ready r)"
    using assms(1) by (auto simp: reactor_inv_def)
  show ?thesis
  proof (cases "status_of r i = READY")
    case True
    then have r': "r' = upd_event i (\<lambda>e. e\<lparr>ev_status := DONE\<rparr>) (r\<lparr>r_pending := is\<rparr>)"
      using assms(2) Cons by (auto simp: resume_next_def Let_def)
    show ?thesis using assms(1) st Cons unfolding reactor_inv_def r' by auto
  next
    case False
    then have r': "r' = r\<lparr>r_pending := is\<rparr>" using st assms(2) Cons by (auto simp: resume_next_def Let_def)
    show ?thesis using assms(1) st Cons False unfolding reactor_inv_def r' by auto
  qed
qed (use assms in \<open>auto simp: resume_next_def\<close>)

lemma reactor_reach_inv: "reactor_reach r \<Longrightarrow> reactor_inv r"
proof (induction rule: reactor_reach.induct)
  case (rr_step r c r')
  from rr_step.hyps(2) rr_step.IH show ?case
    by cases (auto intro: reactor_inv_wait reactor_inv_set reactor_inv_pass reactor_inv_resume)
qed (rule reactor_inv_init)

lemma count_list_distinct: "i \<in> set xs \<Longrightarrow> distinct xs \<Longrightarrow> count_list xs i = 1"
  by (induction xs) auto

section \<open>Properties\<close>



text \<open>
  A shared event can lose a wake-up for a test-based wait: \<^verbatim>\<open>SharedIntEvent::Set\<close> only
  forwards a value that reaches the event's target, which a test-based wait leaves at its
  default 1; so a coroutine waiting for a value below 1 keeps waiting although its condition
  holds.
\<close>

theorem shared_wait_loses_wakeup:
  assumes "f v0 = False" "f v = True" "v < 1"
    "SharedWaitTest now i f \<lparr>sh_value = v0, sh_events = []\<rparr> r = (y, s, r1)"
    "SharedSet v s r1 = Some (old, s', r2)"
  shows "y \<and> f (sh_value s') \<and> status_of r2 i = WAIT \<and> r_ready r2 = r_ready r"
  using assms
  by (auto simp: SharedWaitTest_def Wait_def wait_status_def int_IsReady_def new_int_event_def Let_def
      upd_event_def SharedSet_def bind_eq_Some_conv)

theorem shared_wait_loses_wakeup_witness:
  "\<exists>y s r1 old s' r2. SharedWaitTest 1 0 (\<lambda>x. x = 0) \<lparr>sh_value = 5, sh_events = []\<rparr> (init_reactor (\<lambda>_. 1)) = (y, s, r1) \<and>
     SharedSet 0 s r1 = Some (old, s', r2) \<and> sh_value s' = 0 \<and> status_of r2 0 = WAIT"
proof -
  obtain y s r1 where w: "SharedWaitTest 1 0 (\<lambda>x. x = 0) \<lparr>sh_value = 5, sh_events = []\<rparr> (init_reactor (\<lambda>_. 1)) = (y, s, r1)"
    by (metis prod.exhaust)
  then have "sh_events s = [0]" "ev_target (r_events r1 0) = 1"
    by (auto simp: SharedWaitTest_def Wait_def wait_status_def int_IsReady_def new_int_event_def Let_def upd_event_def)
  then have "SharedSet 0 s r1 = Some (sh_value s, s\<lparr>sh_value := 0\<rparr>, r1)" by (simp add: SharedSet_def)
  with shared_wait_loses_wakeup [OF _ _ _ w this] w show ?thesis by fastforce
qed

end
