(* ===== verification/Quorum.thy ===== *)
theory Quorum
  imports Command Event "HOL-Library.Multiset"
begin

text \<open>
  Quorum events: \<^verbatim>\<open>rrr/reactor/quorum_event.h\<close> and the subclasses of \<^verbatim>\<open>communicator.h\<close>, one
  per broadcast of the fast path and of Jetpack's recovery. A subclass is a record extension
  of the base class; its \<^verbatim>\<open>FeedResponse\<close> is called once per reply. The wake-up that a vote
  triggers is \<^verbatim>\<open>Event::Test\<close> of the theory on events; the vote time stamps and the finalizer
  coroutine, which only frees dangling calls, are left out.
\<close>

section \<open>The base class\<close>

record quorum_event =
  n_voted_yes :: int
  n_voted_no :: int
  qe_xids :: "(u16 \<times> int) list"
  n_total :: int
  quorum :: int
  timeouted :: bool
  qe_leader_id :: u32

abbreviation new_quorum_event :: "int \<Rightarrow> int \<Rightarrow> quorum_event" where
  "new_quorum_event n q \<equiv> \<lparr>n_voted_yes = 0, n_voted_no = 0, qe_xids = [], n_total = n, quorum = q,
     timeouted = False, qe_leader_id = 0\<rparr>"

definition AddXid :: "u16 \<Rightarrow> int \<Rightarrow> 'a quorum_event_scheme \<Rightarrow> 'a quorum_event_scheme" where
  "AddXid site xid e = e\<lparr>qe_xids := AList.update site xid (qe_xids e)\<rparr>"

definition RemoveXid :: "u16 \<Rightarrow> 'a quorum_event_scheme \<Rightarrow> 'a quorum_event_scheme" where
  "RemoveXid site e = e\<lparr>qe_xids := AList.delete site (qe_xids e)\<rparr>"

definition Yes :: "'a quorum_event_scheme \<Rightarrow> bool" where
  "Yes e \<longleftrightarrow> n_voted_yes e \<ge> quorum e"

definition No :: "'a quorum_event_scheme \<Rightarrow> bool option" where
  "No e = do {vrfy (n_total e \<ge> quorum e); Some (n_voted_no e > n_total e - quorum e)}"

definition VoteYes :: "'a quorum_event_scheme \<Rightarrow> 'a quorum_event_scheme" where
  "VoteYes e = e\<lparr>n_voted_yes := n_voted_yes e + 1\<rparr>"

definition VoteNo :: "'a quorum_event_scheme \<Rightarrow> 'a quorum_event_scheme" where
  "VoteNo e = e\<lparr>n_voted_no := n_voted_no e + 1\<rparr>"

definition IsReady :: "'a quorum_event_scheme \<Rightarrow> bool option" where
  "IsReady e = (if timeouted e then Some True else if Yes e then Some True else No e)"

section \<open>Finding the leader\<close>

definition GetLeader_FeedResponse :: "bool \<Rightarrow> u32 \<Rightarrow> quorum_event \<Rightarrow> quorum_event" where
  "GetLeader_FeedResponse y leader e = (if y then VoteYes (e\<lparr>qe_leader_id := leader\<rparr>) else VoteNo e)"

definition GetLeader_No :: "quorum_event \<Rightarrow> bool" where
  "GetLeader_No e \<longleftrightarrow> n_voted_no e = n_total e"

definition GetLeader_IsReady :: "quorum_event \<Rightarrow> bool" where
  "GetLeader_IsReady e \<longleftrightarrow> Yes e \<or> GetLeader_No e"

section \<open>The speculative-execution quorum\<close>

record rule_event = quorum_event +
  re_result :: "value_t option"
  num_leader :: int
  n_leader_yes :: int
  n_leader_no :: int
  total_cpu_usage :: rat
  cpu_samples :: int
  leader_cpu_usage :: rat
  leader_cpu_samples :: int
  leader_queue_depth_sum :: rat
  leader_queue_samples :: int

definition new_rule_event :: "int \<Rightarrow> int \<Rightarrow> int \<Rightarrow> rule_event" where
  "new_rule_event n q leaders = quorum_event.extend (new_quorum_event n q)
     \<lparr>re_result = None, num_leader = leaders, n_leader_yes = 0, n_leader_no = 0, total_cpu_usage = 0,
      cpu_samples = 0, leader_cpu_usage = 0, leader_cpu_samples = 0, leader_queue_depth_sum = 0,
      leader_queue_samples = 0\<rparr>"

definition FeedStatsOnly :: "bool \<Rightarrow> rat \<Rightarrow> rat \<Rightarrow> rule_event \<Rightarrow> rule_event" where
  "FeedStatsOnly is_leader cpu depth e =
     (let e1 = (if cpu \<ge> 0
                then e\<lparr>total_cpu_usage := total_cpu_usage e + cpu, cpu_samples := cpu_samples e + 1,
                       leader_cpu_usage := leader_cpu_usage e + (if is_leader then cpu else 0),
                       leader_cpu_samples := leader_cpu_samples e + of_bool is_leader\<rparr>
                else e)
      in if depth \<ge> 0 \<and> is_leader
         then e1\<lparr>leader_queue_depth_sum := leader_queue_depth_sum e1 + depth,
                 leader_queue_samples := leader_queue_samples e1 + 1\<rparr>
         else e1)"

definition Rule_FeedResponse :: "bool \<Rightarrow> value_t \<Rightarrow> bool \<Rightarrow> rat \<Rightarrow> rat \<Rightarrow> rule_event \<Rightarrow> rule_event option" where
  "Rule_FeedResponse y result is_leader cpu depth e0 =
     (let e = FeedStatsOnly is_leader cpu depth e0 in
      if y
      then do {e1 \<leftarrow> (case re_result e of Some v \<Rightarrow> do {vrfy (result = v); Some e}
                                      | None \<Rightarrow> Some (e\<lparr>re_result := Some result\<rparr>));
               Some (VoteYes (e1\<lparr>n_leader_yes := n_leader_yes e1 + of_bool is_leader\<rparr>))}
      else Some (VoteNo (e\<lparr>n_leader_no := n_leader_no e + of_bool is_leader\<rparr>)))"

definition Rule_Yes :: "rule_event \<Rightarrow> bool" where
  "Rule_Yes e \<longleftrightarrow> n_voted_yes e \<ge> quorum e \<and> n_leader_yes e \<ge> num_leader e"

definition Rule_No :: "rule_event \<Rightarrow> bool" where
  "Rule_No e \<longleftrightarrow> n_voted_no e > n_total e - quorum e \<or> n_leader_no e > 0"

definition AvgCpuAll :: "rule_event \<Rightarrow> rat" where
  "AvgCpuAll e = (if cpu_samples e > 0 then total_cpu_usage e / of_int (cpu_samples e) else 0)"

definition AvgCpuLeaders :: "rule_event \<Rightarrow> rat" where
  "AvgCpuLeaders e =
     (if leader_cpu_samples e > 0 then leader_cpu_usage e / of_int (leader_cpu_samples e) else 0)"

definition LeaderQueueDepth :: "rule_event \<Rightarrow> rat" where
  "LeaderQueueDepth e =
     (if leader_queue_samples e > 0 then leader_queue_depth_sum e / of_int (leader_queue_samples e) else -1)"

section \<open>Recovery: the epochs of refusals\<close>

text \<open>
  All recovery events track the largest epochs that refusals report. The fields are unsigned
  and start at \<open>-1\<close>, that is at the largest epoch.
\<close>

record epoch_event = quorum_event +
  max_jepoch :: epoch_t
  max_oepoch :: epoch_t

definition new_epoch_event :: "int \<Rightarrow> int \<Rightarrow> epoch_event" where
  "new_epoch_event n q = quorum_event.extend (new_quorum_event n q) \<lparr>max_jepoch = -1, max_oepoch = -1\<rparr>"

definition refused :: "epoch_t \<Rightarrow> epoch_t \<Rightarrow> 'a epoch_event_scheme \<Rightarrow> 'a epoch_event_scheme" where
  "refused je oe e0 =
     (let e = VoteNo e0 in
      e\<lparr>max_jepoch := (if je > max_jepoch e then je else max_jepoch e),
        max_oepoch := (if oe > max_oepoch e then oe else max_oepoch e)\<rparr>)"

section \<open>Recovery: pulling key sets\<close>

record id_set_event = epoch_event +
  id_sets :: "key_t list option list"

definition IdSet_FeedResponse ::
  "bool \<Rightarrow> epoch_t \<Rightarrow> epoch_t \<Rightarrow> key_t list option option \<Rightarrow> id_set_event \<Rightarrow> id_set_event" where
  "IdSet_FeedResponse y je oe id_set e =
     (if y
      then (let e1 = VoteYes e in
            case id_set of Some s \<Rightarrow> e1\<lparr>id_sets := id_sets e1 @ [s]\<rparr> | None \<Rightarrow> e1)
      else refused je oe e)"

definition GetMergedKeys :: "id_set_event \<Rightarrow> key_t list" where
  "GetMergedKeys e =
     sort (remdups (concat (map (\<lambda>s. case s of Some ks \<Rightarrow> ks | None \<Rightarrow> []) (id_sets e))))"

section \<open>Recovery: counting candidates\<close>

record key_state =
  ks_counts :: "(u64 \<times> int) list"
  ks_max_count :: int
  ks_max_cmd_id :: u64

definition empty_key_state :: key_state where
  "empty_key_state = \<lparr>ks_counts = [], ks_max_count = 0, ks_max_cmd_id = -1\<rparr>"

record recovery_event = epoch_event +
  re_key_states :: "(key_t \<times> key_state) list"
  re_majority_threshold :: int

text \<open>\<^verbatim>\<open>majority_threshold_\<close>: C++ division truncates towards zero.\<close>

definition recovery_threshold :: "int \<Rightarrow> int" where
  "recovery_threshold n = (let f = sgn (n - 1) * (\<bar>n - 1\<bar> div 2) in (f + 2 + 1) div 2)"

definition new_recovery_event :: "int \<Rightarrow> int \<Rightarrow> recovery_event" where
  "new_recovery_event n q = epoch_event.extend (new_epoch_event n q)
     \<lparr>re_key_states = [], re_majority_threshold = recovery_threshold n\<rparr>"

definition count_cmd :: "u64 \<Rightarrow> key_state \<Rightarrow> key_state" where
  "count_cmd c s =
     (let n = at_default 0 (ks_counts s) c + 1; s1 = s\<lparr>ks_counts := AList.update c n (ks_counts s)\<rparr>
      in if n > ks_max_count s1 then s1\<lparr>ks_max_count := n, ks_max_cmd_id := c\<rparr> else s1)"

definition feed_entry :: "key_t \<times> u64 \<Rightarrow> recovery_event \<Rightarrow> recovery_event" where
  "feed_entry kc e =
     e\<lparr>re_key_states := AList.update (fst kc)
         (count_cmd (snd kc) (at_default empty_key_state (re_key_states e) (fst kc))) (re_key_states e)\<rparr>"

definition Recovery_FeedResponse ::
  "bool \<Rightarrow> epoch_t \<Rightarrow> epoch_t \<Rightarrow> (key_t \<times> u64) list option \<Rightarrow> recovery_event \<Rightarrow> recovery_event" where
  "Recovery_FeedResponse y je oe batch e =
     (if y then (case batch of Some es \<Rightarrow> fold feed_entry es (VoteYes e) | None \<Rightarrow> VoteYes e)
      else refused je oe e)"

definition GetRecoveredKeyIds :: "recovery_event \<Rightarrow> (key_t \<times> u64) list" where
  "GetRecoveredKeyIds e =
     sort_key fst (map (\<lambda>(k, s). (k, ks_max_cmd_id s))
       (filter (\<lambda>(k, s). ks_max_cmd_id s \<noteq> -1 \<and> ks_max_count s \<ge> re_majority_threshold e)
         (re_key_states e)))"

section \<open>Recovery: pulling commands\<close>

record cmd_state =
  cs_key :: key_t
  cs_counts :: "(u64 \<times> int) list"
  cs_max_count :: int
  cs_max_cmd :: "marshallable option"

record pull_cmd_event = epoch_event +
  ordered_keys :: "key_t list"
  pc_key_states :: "cmd_state list"
  key_index :: "(key_t \<times> nat) list"
  pc_majority_threshold :: int

definition new_pull_cmd_event :: "int \<Rightarrow> int \<Rightarrow> key_t list \<Rightarrow> pull_cmd_event" where
  "new_pull_cmd_event n q keys = epoch_event.extend (new_epoch_event n q)
     \<lparr>ordered_keys = keys,
      pc_key_states = map (\<lambda>k. \<lparr>cs_key = k, cs_counts = [], cs_max_count = 0, cs_max_cmd = None\<rparr>) keys,
      key_index = fold (\<lambda>(i, k). AList.update k i) (enumerate 0 keys) [],
      pc_majority_threshold = recovery_threshold n\<rparr>"

text \<open>\<open>None\<close>: \<^verbatim>\<open>GetCombinedCmdID\<close> aborts on a command that does not parse.\<close>

definition feed_cmd :: "key_t \<times> marshallable option \<Rightarrow> pull_cmd_event \<Rightarrow> pull_cmd_event option" where
  "feed_cmd kc e =
     (case map_of (key_index e) (fst kc) of
        None \<Rightarrow> Some e
      | Some i \<Rightarrow>
          (case snd kc of
             None \<Rightarrow> Some e
           | Some cmd \<Rightarrow>
               do {c \<leftarrow> GetCombinedCmdID (Some cmd);
                   let s = pc_key_states e ! i;
                   let n = at_default 0 (cs_counts s) c + 1;
                   let s1 = s\<lparr>cs_counts := AList.update c n (cs_counts s)\<rparr>;
                   let s2 = (if n > cs_max_count s1 then s1\<lparr>cs_max_count := n, cs_max_cmd := Some cmd\<rparr> else s1);
                   Some (e\<lparr>pc_key_states := (pc_key_states e)[i := s2]\<rparr>)}))"

fun feed_cmds :: "(key_t \<times> marshallable option) list \<Rightarrow> pull_cmd_event \<Rightarrow> pull_cmd_event option" where
  "feed_cmds [] e = Some e"
| "feed_cmds (kc # kcs) e = do {e1 \<leftarrow> feed_cmd kc e; feed_cmds kcs e1}"

definition PullCmd_FeedResponse ::
  "bool \<Rightarrow> epoch_t \<Rightarrow> epoch_t \<Rightarrow> (key_t \<times> marshallable option) list option \<Rightarrow> pull_cmd_event \<Rightarrow>
   pull_cmd_event option" where
  "PullCmd_FeedResponse y je oe batch e =
     (if y then (case batch of Some b \<Rightarrow> feed_cmds b (VoteYes e) | None \<Rightarrow> Some (VoteYes e))
      else Some (refused je oe e))"

definition GetRecoveredCommands :: "pull_cmd_event \<Rightarrow> (key_t \<times> marshallable option) list" where
  "GetRecoveredCommands e =
     map (\<lambda>s. (cs_key s, cs_max_cmd s))
       (filter (\<lambda>s. cs_max_cmd s \<noteq> None \<and> cs_max_count s \<ge> pc_majority_threshold e) (pc_key_states e))"

section \<open>Recovery: recording, Paxos rounds\<close>

record record_event = epoch_event +
  recovered_cmds :: "(key_t \<times> marshallable) list"

definition feed_recovered :: "key_t \<times> marshallable option \<Rightarrow> record_event \<Rightarrow> record_event" where
  "feed_recovered kc e =
     (case snd kc of
        None \<Rightarrow> e
      | Some cmd \<Rightarrow> if map_of (recovered_cmds e) (fst kc) = None
                    then e\<lparr>recovered_cmds := AList.update (fst kc) cmd (recovered_cmds e)\<rparr> else e)"

definition Record_FeedResponse ::
  "bool \<Rightarrow> epoch_t \<Rightarrow> epoch_t \<Rightarrow> (key_t \<times> marshallable option) list option \<Rightarrow> record_event \<Rightarrow> record_event" where
  "Record_FeedResponse y je oe batch e =
     (if y then (case batch of Some b \<Rightarrow> fold feed_recovered b (VoteYes e) | None \<Rightarrow> VoteYes e)
      else refused je oe e)"

record prepare_event = epoch_event +
  pe_max_accepted_ballot :: ballot_t
  pe_max_seen_ballot :: ballot_t
  accepted_sid :: int
  has_accepted_value :: bool

definition new_prepare_event :: "int \<Rightarrow> int \<Rightarrow> prepare_event" where
  "new_prepare_event n q = epoch_event.extend (new_epoch_event n q)
     \<lparr>pe_max_accepted_ballot = -1, pe_max_seen_ballot = -1, accepted_sid = -1, has_accepted_value = False\<rparr>"

definition Prepare_FeedResponse ::
  "bool \<Rightarrow> epoch_t \<Rightarrow> epoch_t \<Rightarrow> ballot_t \<Rightarrow> int \<Rightarrow> ballot_t \<Rightarrow> prepare_event \<Rightarrow> prepare_event" where
  "Prepare_FeedResponse y je oe accepted_ballot sid max_seen e =
     (if y
      then (let e1 = VoteYes e in
            if accepted_ballot > pe_max_accepted_ballot e1
            then e1\<lparr>pe_max_accepted_ballot := accepted_ballot, accepted_sid := sid, has_accepted_value := True\<rparr>
            else e1)
      else (let e1 = refused je oe e in
            e1\<lparr>pe_max_seen_ballot := (if max_seen > pe_max_seen_ballot e1 then max_seen else pe_max_seen_ballot e1)\<rparr>))"

record accept_event = epoch_event +
  ae_max_seen_ballot :: ballot_t

definition new_accept_event :: "int \<Rightarrow> int \<Rightarrow> accept_event" where
  "new_accept_event n q = epoch_event.extend (new_epoch_event n q) \<lparr>ae_max_seen_ballot = -1\<rparr>"

definition Accept_FeedResponse :: "bool \<Rightarrow> epoch_t \<Rightarrow> epoch_t \<Rightarrow> ballot_t \<Rightarrow> accept_event \<Rightarrow> accept_event" where
  "Accept_FeedResponse y je oe max_seen e =
     (if y then VoteYes e
      else (let e1 = refused je oe e in
            e1\<lparr>ae_max_seen_ballot := (if max_seen > ae_max_seen_ballot e1 then max_seen else ae_max_seen_ballot e1)\<rparr>))"

record rec_set_ins_event = epoch_event +
  recovered_cmd :: "marshallable option"

definition RecSetIns_FeedResponse ::
  "bool \<Rightarrow> epoch_t \<Rightarrow> epoch_t \<Rightarrow> marshallable option \<Rightarrow> rec_set_ins_event \<Rightarrow> rec_set_ins_event" where
  "RecSetIns_FeedResponse y je oe cmd e =
     (if y
      then (let e1 = VoteYes e; has_real_cmd = (cmd \<noteq> None \<and> cmd \<noteq> Some CMD_TPC_EMPTY) in
            if has_real_cmd \<and> (recovered_cmd e1 = None \<or> recovered_cmd e1 = Some CMD_TPC_EMPTY)
            then e1\<lparr>recovered_cmd := cmd\<rparr> else e1)
      else refused je oe e)"


section \<open>Lemmas on votes\<close>

definition cast_votes :: "bool list \<Rightarrow> 'a quorum_event_scheme \<Rightarrow> 'a quorum_event_scheme" where
  "cast_votes vs e = fold (\<lambda>v. if v then VoteYes else VoteNo) vs e"

lemma vote_fields [simp]:
  "n_voted_yes (VoteYes e) = n_voted_yes e + 1" "n_voted_no (VoteYes e) = n_voted_no e"
  "n_voted_yes (VoteNo e) = n_voted_yes e" "n_voted_no (VoteNo e) = n_voted_no e + 1"
  "n_total (VoteYes e) = n_total e" "n_total (VoteNo e) = n_total e"
  "quorum (VoteYes e) = quorum e" "quorum (VoteNo e) = quorum e"
  "timeouted (VoteYes e) = timeouted e" "timeouted (VoteNo e) = timeouted e"
  by (simp_all add: VoteYes_def VoteNo_def)

lemma cast_votes_counts:
  "n_voted_yes (cast_votes vs e) = n_voted_yes e + int (count_list vs True) \<and>
   n_voted_no (cast_votes vs e) = n_voted_no e + int (count_list vs False) \<and>
   n_total (cast_votes vs e) = n_total e \<and> quorum (cast_votes vs e) = quorum e \<and>
   timeouted (cast_votes vs e) = timeouted e"
  by (induction vs arbitrary: e) (auto simp: cast_votes_def)

lemma count_votes: "count_list vs True + count_list vs False = length vs"
  by (induction vs) auto

section \<open>Lemmas on candidate counting\<close>

text \<open>
  \<open>tallied es s\<close>: the state of one key after the command identifiers \<open>es\<close> were reported for it.
\<close>

definition tallied :: "u64 list \<Rightarrow> key_state \<Rightarrow> bool" where
  "tallied es s \<longleftrightarrow> (\<forall>c. at_default 0 (ks_counts s) c = int (count_list es c)) \<and>
     (\<forall>c. int (count_list es c) \<le> ks_max_count s) \<and>
     (if es = [] then ks_max_count s = 0 \<and> ks_max_cmd_id s = -1
      else ks_max_count s = int (count_list es (ks_max_cmd_id s)) \<and> 0 < ks_max_count s)"

lemma tallied_empty [simp]: "tallied [] empty_key_state"
  by (simp add: tallied_def empty_key_state_def)

lemma tallied_count:
  assumes "tallied es s" shows "tallied (es @ [c]) (count_cmd c s)"
proof (cases "int (count_list es c) + 1 > ks_max_count s")
  case True
  have le: "int (count_list es d) \<le> int (count_list es c) + 1" for d
  proof -
    have "int (count_list es d) \<le> ks_max_count s" using assms by (simp add: tallied_def)
    with True show ?thesis by linarith
  qed
  have "at_default 0 (ks_counts s) d = int (count_list es d)" for d using assms by (simp add: tallied_def)
  with True le show ?thesis by (auto simp: tallied_def count_cmd_def Let_def)
next
  case False
  then have "es \<noteq> []" using assms by (auto simp: tallied_def)
  moreover have "ks_max_cmd_id s \<noteq> c" using assms False \<open>es \<noteq> []\<close> by (auto simp: tallied_def)
  ultimately show ?thesis using assms False by (auto simp: tallied_def count_cmd_def Let_def)
qed

definition ids_for :: "key_t \<Rightarrow> (key_t \<times> u64) list \<Rightarrow> u64 list" where
  "ids_for k es = map snd (filter (\<lambda>(k', c). k' = k) es)"

lemma count_ids_for: "count_list (ids_for k es) c = count_list es (k, c)"
  by (induction es) (auto simp: ids_for_def)

definition recovery_tally :: "(key_t \<times> u64) list \<Rightarrow> recovery_event \<Rightarrow> bool" where
  "recovery_tally es e \<longleftrightarrow> distinct (keys_of (re_key_states e)) \<and>
     (\<forall>k. tallied (ids_for k es) (at_default empty_key_state (re_key_states e) k))"

lemma recovery_tally_entry:
  "recovery_tally es e \<Longrightarrow> recovery_tally (es @ [kc]) (feed_entry kc e)"
  by (auto simp: recovery_tally_def feed_entry_def ids_for_def tallied_count split_beta)

lemma recovery_tally_fold:
  "recovery_tally es e \<Longrightarrow> recovery_tally (es @ new) (fold feed_entry new e)"
proof (induction new arbitrary: es e)
  case (Cons kc new)
  from Cons.IH [OF recovery_tally_entry [OF Cons.prems]] show ?case by simp
qed simp

lemma re_fields_fold [simp]:
  "re_majority_threshold (fold feed_entry es e) = re_majority_threshold e"
  by (induction es arbitrary: e) (simp_all add: feed_entry_def)

lemma re_states_votes [simp]:
  "re_key_states (VoteYes e) = re_key_states e" "re_majority_threshold (VoteYes e) = re_majority_threshold e"
  "re_key_states (refused je oe e) = re_key_states e"
  "re_majority_threshold (refused je oe e) = re_majority_threshold e"
  by (simp_all add: VoteYes_def VoteNo_def refused_def Let_def)

type_synonym recovery_reply = "bool \<times> epoch_t \<times> epoch_t \<times> (key_t \<times> u64) list option"

definition feed_replies :: "recovery_reply list \<Rightarrow> recovery_event \<Rightarrow> recovery_event" where
  "feed_replies rs e = fold (\<lambda>(y, je, oe, b). Recovery_FeedResponse y je oe b) rs e"

definition reported :: "recovery_reply list \<Rightarrow> (key_t \<times> u64) list" where
  "reported rs = concat (map (\<lambda>(y, je, oe, b). if y then (case b of Some es \<Rightarrow> es | None \<Rightarrow> []) else []) rs)"

lemma feed_replies_snoc:
  "feed_replies (rs @ [(y, je, oe, b)]) e = Recovery_FeedResponse y je oe b (feed_replies rs e)"
  by (simp add: feed_replies_def)

lemma recovery_tally_votes [simp]:
  "recovery_tally es (VoteYes e) = recovery_tally es e"
  "recovery_tally es (refused je oe e) = recovery_tally es e"
  by (simp_all add: recovery_tally_def)

lemma feed_replies_tally:
  "recovery_tally (reported rs) (feed_replies rs (new_recovery_event n q)) \<and>
   re_majority_threshold (feed_replies rs (new_recovery_event n q)) = recovery_threshold n"
proof (induction rs rule: rev_induct)
  case Nil
  show ?case
    by (simp add: reported_def feed_replies_def recovery_tally_def ids_for_def new_recovery_event_def
        new_epoch_event_def epoch_event.extend_def quorum_event.extend_def)
next
  case (snoc r rs)
  obtain y je oe b where r: "r = (y, je, oe, b)" by (cases r)
  show ?case
    using snoc recovery_tally_fold [of "reported rs" "VoteYes (feed_replies rs (new_recovery_event n q))"]
    by (auto simp: r feed_replies_snoc Recovery_FeedResponse_def reported_def split: option.splits)
qed

lemma at_default_state:
  "at_default empty_key_state m k = s \<Longrightarrow> s \<noteq> empty_key_state \<Longrightarrow> map_of m k = Some s"
  by (auto simp: at_default_def split: option.splits)

lemma recovered_iff:
  assumes "recovery_tally es e" "1 \<le> re_majority_threshold e"
  shows "(k, c) \<in> set (GetRecoveredKeyIds e) \<longleftrightarrow>
    (let s = at_default empty_key_state (re_key_states e) k in
     c = ks_max_cmd_id s \<and> c \<noteq> -1 \<and> ks_max_count s \<ge> re_majority_threshold e)"
proof -
  have d: "distinct (keys_of (re_key_states e))" using assms(1) by (simp add: recovery_tally_def)
  have "(k, c) \<in> set (GetRecoveredKeyIds e) \<longleftrightarrow>
      (\<exists>s. map_of (re_key_states e) k = Some s \<and> c = ks_max_cmd_id s \<and> c \<noteq> -1 \<and> ks_max_count s \<ge> re_majority_threshold e)"
    unfolding map_of_Some_in_set [OF d] by (force simp: GetRecoveredKeyIds_def)
  moreover have "empty_key_state = s \<Longrightarrow> ks_max_count s < re_majority_threshold e" for s
    using assms(2) by (auto simp: empty_key_state_def)
  ultimately show ?thesis by (auto simp: at_default_def Let_def split: option.splits)
qed

lemma recovered_unique:
  assumes "recovery_tally es e" "1 \<le> re_majority_threshold e" "c \<noteq> -1"
    "re_majority_threshold e \<le> int (count_list es (k, c))"
    "\<And>c'. c' \<noteq> c \<Longrightarrow> count_list es (k, c') < count_list es (k, c)"
  shows "(k, c) \<in> set (GetRecoveredKeyIds e)"
proof -
  let ?s = "at_default empty_key_state (re_key_states e) k"
  have t: "tallied (ids_for k es) ?s" using assms(1) by (simp add: recovery_tally_def)
  have ne: "ids_for k es \<noteq> []"
  proof
    assume "ids_for k es = []"
    then have "count_list es (k, c) = 0" using count_ids_for [of k es c] by simp
    with assms(2,4) show False by simp
  qed
  have ge: "int (count_list es (k, c)) \<le> ks_max_count ?s" and
    m: "ks_max_count ?s = int (count_list es (k, ks_max_cmd_id ?s))"
    using t ne by (auto simp: tallied_def count_ids_for)
  then have "ks_max_cmd_id ?s = c" using assms(5) [of "ks_max_cmd_id ?s"] by force
  with ge assms(3,4) show ?thesis by (simp add: recovered_iff [OF assms(1,2)] Let_def)
qed

lemma recovered_sound:
  assumes "recovery_tally es e" "1 \<le> re_majority_threshold e" "(k, c) \<in> set (GetRecoveredKeyIds e)"
  shows "re_majority_threshold e \<le> int (count_list es (k, c)) \<and>
    count_list es (k, c') \<le> count_list es (k, c)"
proof -
  let ?s = "at_default empty_key_state (re_key_states e) k"
  have t: "tallied (ids_for k es) ?s" using assms(1) by (simp add: recovery_tally_def)
  have c: "c = ks_max_cmd_id ?s" "re_majority_threshold e \<le> ks_max_count ?s"
    using assms by (auto simp: recovered_iff Let_def)
  then have "ids_for k es \<noteq> []" using t assms(2) by (auto simp: tallied_def)
  then have "ks_max_count ?s = int (count_list es (k, c))" "int (count_list es (k, c')) \<le> ks_max_count ?s"
    using t c by (auto simp: tallied_def count_ids_for)
  with c show ?thesis by simp
qed

lemma distinct_sort_key: "distinct (map f l) \<Longrightarrow> distinct (map f (sort_key g l))"
  by (metis mset_map mset_sort mset_eq_imp_distinct_iff)

lemma recovered_sorted:
  assumes "recovery_tally es e"
  shows "sorted (map fst (GetRecoveredKeyIds e)) \<and> distinct (map fst (GetRecoveredKeyIds e))"
proof -
  let ?l = "map (\<lambda>(k, s). (k, ks_max_cmd_id s))
       (filter (\<lambda>(k, s). ks_max_cmd_id s \<noteq> -1 \<and> ks_max_count s \<ge> re_majority_threshold e) (re_key_states e))"
  have eq: "map fst ?l = map fst (filter (\<lambda>(k, s). ks_max_cmd_id s \<noteq> -1 \<and> ks_max_count s \<ge> re_majority_threshold e) (re_key_states e))"
    by (simp add: comp_def split_beta)
  have "distinct (map fst ?l)"
    unfolding eq using assms by (simp add: recovery_tally_def distinct_map_filter)
  from distinct_sort_key [OF this] show ?thesis by (simp add: GetRecoveredKeyIds_def)
qed


lemma recovery_threshold_odd: "recovery_threshold (2 * int f + 1) = (int f + 3) div 2"
  by (simp add: recovery_threshold_def Let_def sgn_if add.commute)

lemma recovery_threshold_pos: "1 \<le> recovery_threshold (2 * int f + 1)"
  by (simp add: recovery_threshold_odd)

section \<open>Properties\<close>

text \<open>
  C11. A quorum event never answers both ways and always answers: as long as at most one vote
  per member arrives, \<^verbatim>\<open>Yes\<close> and \<^verbatim>\<open>No\<close> exclude each other, and once every member has voted
  one of them holds, so a waiter is released; a quorum not larger than the membership never
  hits the \<^verbatim>\<open>verify\<close> in \<^verbatim>\<open>No\<close>.
\<close>

theorem quorum_decides:
  assumes "q \<le> n" "int (length vs) \<le> n"
  shows "\<exists>no. No (cast_votes vs (new_quorum_event n q)) = Some no \<and>
    \<not> (Yes (cast_votes vs (new_quorum_event n q)) \<and> no) \<and>
    (int (length vs) = n \<longrightarrow> IsReady (cast_votes vs (new_quorum_event n q)) = Some True)"
  using assms cast_votes_counts [of vs "new_quorum_event n q"] count_votes [of vs]
  by (auto simp: No_def Yes_def IsReady_def)

theorem quorum_decides_witness:
  "IsReady (cast_votes [True, False, False] (new_quorum_event 3 2)) = Some True"
  using quorum_decides [of 2 3 "[True, False, False]"] by auto

text \<open>
  C8. Candidate counting: after any sequence of replies to the recovery pull of a partition of
  \<open>2f + 1\<close> replicas, the recovered list is sorted, names each key once, only names candidates
  that at least \<open>(f + 3) div 2\<close> positive replies reported and no other candidate of the key
  beats, and it does name a candidate that reaches the threshold and is reported strictly more
  often than every other candidate of its key.
\<close>

theorem recovered_ids_exact:
  fixes f :: nat and rs :: "recovery_reply list"
  defines "e \<equiv> feed_replies rs (new_recovery_event (2 * int f + 1) (int f + 1))"
  shows "sorted (map fst (GetRecoveredKeyIds e)) \<and> distinct (map fst (GetRecoveredKeyIds e)) \<and>
    (\<forall>k c. (k, c) \<in> set (GetRecoveredKeyIds e) \<longrightarrow>
       (int f + 3) div 2 \<le> int (count_list (reported rs) (k, c)) \<and>
       (\<forall>c'. count_list (reported rs) (k, c') \<le> count_list (reported rs) (k, c))) \<and>
    (\<forall>k c. c \<noteq> -1 \<and> (int f + 3) div 2 \<le> int (count_list (reported rs) (k, c)) \<and>
       (\<forall>c'. c' \<noteq> c \<longrightarrow> count_list (reported rs) (k, c') < count_list (reported rs) (k, c)) \<longrightarrow>
       (k, c) \<in> set (GetRecoveredKeyIds e))"
proof -
  have t: "recovery_tally (reported rs) e" and thr: "re_majority_threshold e = (int f + 3) div 2"
    using feed_replies_tally [of rs "2 * int f + 1" "int f + 1"] recovery_threshold_odd [of f]
    by (simp_all add: e_def)
  have pos: "1 \<le> re_majority_threshold e" using thr by simp
  show ?thesis
    using recovered_sorted [OF t] recovered_sound [OF t pos] recovered_unique [OF t pos]
    unfolding thr by blast
qed

theorem recovered_ids_exact_witness:
  "(7, 3) \<in> set (GetRecoveredKeyIds (feed_replies
      [(True, 0, 0, Some [(7, 3)]), (True, 0, 0, Some [(7, 3), (8, 1)])] (new_recovery_event 3 2)))"
proof -
  have "count_list (reported [(True, 0, 0, Some [(7, 3)]), (True, 0, 0, Some [(7, 3), (8, 1)])]) (7, c)
      = (if c = 3 then 2 else 0)" for c
    by (simp add: reported_def)
  then show ?thesis
    using recovered_ids_exact [of "[(True, 0, 0, Some [(7, 3)]), (True, 0, 0, Some [(7, 3), (8, 1)])]" 1] by simp
qed

text \<open>
  The largest epochs reported by refusals are lost: the unsigned fields start at their
  largest value, so no sequence of replies changes them, and a leader that compares them with
  its own epoch always finds them larger (unless its epoch is already the largest one).
\<close>

theorem refusal_epochs_saturate:
  "max_jepoch (feed_replies rs (new_recovery_event n q)) = -1 \<and>
   max_oepoch (feed_replies rs (new_recovery_event n q)) = -1 \<and>
   (max_jepoch (feed_replies rs (new_recovery_event n q)) > je \<longleftrightarrow> je \<noteq> -1)"
proof -
  have keep: "max_jepoch (fold feed_entry es e) = max_jepoch e \<and> max_oepoch (fold feed_entry es e) = max_oepoch e"
    for es e by (induction es arbitrary: e) (simp_all add: feed_entry_def)
  have "max_jepoch (feed_replies rs (new_recovery_event n q)) = -1 \<and>
     max_oepoch (feed_replies rs (new_recovery_event n q)) = -1"
  proof (induction rs rule: rev_induct)
    case Nil
    show ?case by (simp add: feed_replies_def new_recovery_event_def new_epoch_event_def
          epoch_event.extend_def quorum_event.extend_def)
  next
    case (snoc r rs)
    then show ?case
      by (cases r) (auto simp: feed_replies_snoc Recovery_FeedResponse_def keep refused_def VoteYes_def
          VoteNo_def Let_def split: option.splits)
  qed
  moreover have "(-1 :: epoch_t) > je \<longleftrightarrow> je \<noteq> -1" by (simp add: word_order.not_eq_extremum)
  ultimately show ?thesis by simp
qed

theorem refusal_epochs_saturate_witness:
  "max_jepoch (feed_replies [(False, 4, 5, None)] (new_recovery_event 3 2)) > 3"
  using refusal_epochs_saturate [of "[(False, 4, 5, None)]" 3 2 3] by simp

end
