(* ===== verification/View.thy ===== *)
theory View
  imports Prelude
begin

text \<open>
  Views (\<^verbatim>\<open>view.h\<close>) and the client-side table of the newest view of each partition
  (\<^verbatim>\<open>Communicator::UpdatePartitionView\<close>, \<^verbatim>\<open>GetPartitionView\<close>, \<^verbatim>\<open>GetLeaderForPartition\<close>).
  The clock reading that stamps a view is an argument.
\<close>

record view =
  view_n :: int
  view_leaders :: "int list"
  view_id :: epoch_t
  view_timestamp :: u64

definition empty_view :: view where
  "empty_view = \<lparr>view_n = 0, view_leaders = [], view_id = 0, view_timestamp = 0\<rparr>"

definition mk_view :: "u64 \<Rightarrow> int \<Rightarrow> int list \<Rightarrow> epoch_t \<Rightarrow> view" where
  "mk_view now n ls vid = \<lparr>view_n = n, view_leaders = ls, view_id = vid, view_timestamp = now\<rparr>"

definition view_eq :: "view \<Rightarrow> view \<Rightarrow> bool" where
  "view_eq a b \<longleftrightarrow> view_n a = view_n b \<and> view_leaders a = view_leaders b \<and> view_id a = view_id b"

definition IsEmpty :: "view \<Rightarrow> bool" where
  "IsEmpty v \<longleftrightarrow> view_n v = 0 \<and> view_leaders v = []"

definition GetLeader :: "view \<Rightarrow> int" where
  "GetLeader v = (case view_leaders v of [] \<Rightarrow> -1 | l # _ \<Rightarrow> l)"

text \<open>The partition number is non-negative at every call; the vector is resized with \<open>-1\<close>.\<close>

definition UpdateLeader :: "u64 \<Rightarrow> int \<Rightarrow> nat \<Rightarrow> view \<Rightarrow> view" where
  "UpdateLeader now new_leader pid v =
     (let ls = view_leaders v;
          ls' = (if pid < length ls then ls[pid := new_leader]
                 else if pid = 0 \<and> ls \<noteq> [] then ls[0 := new_leader]
                 else (ls @ replicate (pid + 1 - length ls) (-1))[pid := new_leader])
      in v\<lparr>view_leaders := ls', view_timestamp := now\<rparr>)"

definition IsStale :: "u64 \<Rightarrow> u64 \<Rightarrow> view \<Rightarrow> bool" where
  "IsStale now max_age v \<longleftrightarrow> now - view_timestamp v > max_age"

section \<open>The table of partition views\<close>

type_synonym partition_views = "(u32 \<times> view) list"

definition UpdatePartitionView :: "u32 \<Rightarrow> view option \<Rightarrow> partition_views \<Rightarrow> partition_views" where
  "UpdatePartitionView pid vd m =
     (case vd of
        None \<Rightarrow> m
      | Some v \<Rightarrow>
          (case map_of m pid of
             Some w \<Rightarrow> if view_id v > view_id w then AList.update pid v m else m
           | None \<Rightarrow> AList.update pid v m))"

definition GetPartitionView :: "u32 \<Rightarrow> partition_views \<Rightarrow> view" where
  "GetPartitionView pid m = at_default empty_view m pid"

datatype replica_proto = MODE_NAIVE_RPC | MODE_NAIVE_RAFT | MODE_RAFT | MODE_FPGA_RAFT | MODE_OTHER

definition GetLeaderForPartition :: "replica_proto \<Rightarrow> int \<Rightarrow> u32 \<Rightarrow> partition_views \<Rightarrow> int" where
  "GetLeaderForPartition proto raft_leader_locale pid m =
     (if proto = MODE_NAIVE_RPC then 1
      else if proto = MODE_NAIVE_RAFT then 1
      else if proto = MODE_RAFT \<or> proto = MODE_FPGA_RAFT then raft_leader_locale
      else let v = GetPartitionView pid m in
           if \<not> IsEmpty v \<and> GetLeader v \<ge> 0 then GetLeader v else 0)"

section \<open>Lemmas\<close>

text \<open>The newest of the views received: the first one with the greatest identifier.\<close>

fun newest :: "view list \<Rightarrow> view option" where
  "newest [] = None"
| "newest (v # vs) =
     (case newest vs of None \<Rightarrow> Some v | Some w \<Rightarrow> Some (if view_id w > view_id v then w else v))"

lemma newest_snoc:
  "newest (vs @ [v]) = (case newest vs of None \<Rightarrow> Some v
                                        | Some w \<Rightarrow> Some (if view_id v > view_id w then v else w))"
  by (induction vs) (auto split: option.splits)

lemma newest_in: "newest vs = Some v \<Longrightarrow> v \<in> set vs"
  by (induction vs arbitrary: v) (auto split: option.splits if_splits)

lemma newest_max: "newest vs = Some v \<Longrightarrow> w \<in> set vs \<Longrightarrow> view_id w \<le> view_id v"
proof (induction vs arbitrary: v)
  case (Cons u vs)
  show ?case
  proof (cases "newest vs")
    case None
    then have "vs = []" by (cases vs) (auto split: option.splits)
    with Cons.prems show ?thesis by simp
  next
    case (Some x)
    from Cons.prems(2) consider "w = u" | "view_id w \<le> view_id x"
      using Cons.IH [OF Some] by auto
    then show ?thesis using Cons.prems(1) Some by cases (auto split: if_splits)
  qed
qed simp

definition received :: "u32 \<Rightarrow> (u32 \<times> view option) list \<Rightarrow> view list" where
  "received pid us = concat (map (\<lambda>(p, vd). case vd of Some v \<Rightarrow> if p = pid then [v] else [] | None \<Rightarrow> []) us)"

lemma table_holds_newest:
  "map_of (fold (\<lambda>(p, vd). UpdatePartitionView p vd) us []) pid = newest (received pid us)"
proof (induction us rule: rev_induct)
  case (snoc u us)
  obtain p vd where "u = (p, vd)" by (cases u)
  with snoc show ?case
    by (auto simp: received_def UpdatePartitionView_def newest_snoc split: option.splits)
qed (simp add: received_def)

lemma UpdateLeader_length: "length (view_leaders (UpdateLeader now l pid v)) = max (length (view_leaders v)) (pid + 1)"
  by (auto simp: UpdateLeader_def Let_def max_def)

section \<open>Properties\<close>

text \<open>
  Whatever view messages arrive, in whatever order, for whatever partitions, the table
  returns for a partition the view with the greatest identifier among those received for it
  (the first of them on a tie), and the empty view before any arrived: stale views never
  replace newer ones. The leader handed to clients of the view-based protocols is the first
  leader of that view when it is valid.
\<close>

theorem partition_view_is_newest:
  "let m = fold (\<lambda>(p, vd). UpdatePartitionView p vd) us [] in
   (case newest (received pid us) of
      None \<Rightarrow> GetPartitionView pid m = empty_view \<and> GetLeaderForPartition MODE_OTHER loc pid m = 0
    | Some v \<Rightarrow> GetPartitionView pid m = v \<and> v \<in> set (received pid us) \<and>
        (\<forall>w. w \<in> set (received pid us) \<longrightarrow> view_id w \<le> view_id v) \<and>
        GetLeaderForPartition MODE_OTHER loc pid m = max 0 (GetLeader v))"
proof (cases "newest (received pid us)")
  case None
  then show ?thesis
    by (simp add: GetPartitionView_def at_default_def table_holds_newest GetLeaderForPartition_def
        IsEmpty_def empty_view_def Let_def)
next
  case (Some v)
  have "GetLeader v = -1" if "IsEmpty v" using that by (simp add: IsEmpty_def GetLeader_def)
  with Some newest_in [OF Some] newest_max [OF Some] show ?thesis
    by (auto simp: GetPartitionView_def at_default_def table_holds_newest GetLeaderForPartition_def Let_def)
qed

theorem partition_view_is_newest_witness:
  "GetPartitionView 1 (fold (\<lambda>(p, vd). UpdatePartitionView p vd)
      [(1, Some (mk_view 5 3 [0] 1)), (1, Some (mk_view 6 3 [2] 4)), (1, Some (mk_view 7 3 [1] 2))] [])
    = mk_view 6 3 [2] 4"
  using partition_view_is_newest [of "[(1, Some (mk_view 5 3 [0] 1)), (1, Some (mk_view 6 3 [2] 4)),
      (1, Some (mk_view 7 3 [1] 2))]" 1]
  by (simp add: received_def mk_view_def Let_def)

text \<open>
  Updating one leader of a view keeps the other leaders and the view identifier: the
  entry of the partition becomes the new leader, entries that existed before are unchanged,
  entries created by the resize are \<open>-1\<close>, and the vector is just long enough.
\<close>

lemma UpdateLeader_frame:
  "let v' = UpdateLeader now l pid v in
   view_leaders v' ! pid = l \<and> view_id v' = view_id v \<and> view_n v' = view_n v \<and>
   length (view_leaders v') = max (length (view_leaders v)) (pid + 1) \<and>
   (\<forall>i. i < length (view_leaders v') \<and> i \<noteq> pid \<longrightarrow>
      view_leaders v' ! i = (if i < length (view_leaders v) then view_leaders v ! i else -1))"
  using UpdateLeader_length [of now l pid v]
  by (auto simp: UpdateLeader_def Let_def nth_append nth_Cons')

lemma UpdateLeader_frame_witness:
  "view_leaders (UpdateLeader 9 4 2 (mk_view 5 3 [7] 1)) ! 1 = -1"
  using UpdateLeader_frame [of 9 4 2 "mk_view 5 3 [7] 1"]
  by (simp add: mk_view_def UpdateLeader_def Let_def)

end
