(* ===== verification/Recovery.thy ===== *)
theory Recovery
  imports CommandPool Quorum View
begin

text \<open>
  Jetpack's recovery: the replica-side handlers \<^verbatim>\<open>OnJetpack*\<close> of \<^verbatim>\<open>scheduler.cc\<close> with their
  service wrappers, the broadcasts of \<^verbatim>\<open>communicator.cc\<close> with their reply callbacks, and the
  procedure of the new leader (\<^verbatim>\<open>JetpackRecoveryEntry\<close>, \<^verbatim>\<open>JetpackRecovery\<close>, \<^verbatim>\<open>JetpackCommit\<close>,
  \<^verbatim>\<open>JetpackResubmit\<close>, \<^verbatim>\<open>DispatchRecoveredCommand\<close>).

  A replica is one record: the handlers run on the transaction scheduler and act on its
  replication scheduler \<^verbatim>\<open>rep_sched_\<close>, whose fields these are; the epochs that the
  transaction scheduler itself keeps are separate fields, since one wrapper reads them. The
  views echoed in every reply are dropped by all callbacks and are left out of the replies;
  the output batches passed by the wrappers are never null. Reply fields that a handler leaves
  uninitialised are 0. Log lines, timing, and the signal files are left out.
\<close>

section \<open>State\<close>

record recovery_set =
  rs_rec_set :: "(int \<times> (key_t \<times> u64) list) list"
  rs_missed :: "(int \<times> (key_t \<times> marshallable) list) list"

definition set_rec_set :: "int \<Rightarrow> (key_t \<times> u64) list \<Rightarrow> recovery_set \<Rightarrow> recovery_set" where
  "set_rec_set sid ids r = r\<lparr>rs_rec_set := AList.update sid ids (rs_rec_set r)\<rparr>"

definition set_missed_key_cmd_set :: "int \<Rightarrow> (key_t \<times> marshallable) list \<Rightarrow> recovery_set \<Rightarrow> recovery_set" where
  "set_missed_key_cmd_set sid kcs r = r\<lparr>rs_missed := AList.update sid kcs (rs_missed r)\<rparr>"

definition clear_rec_set :: "int \<Rightarrow> recovery_set \<Rightarrow> recovery_set" where
  "clear_rec_set sid r =
     r\<lparr>rs_rec_set := AList.delete sid (rs_rec_set r), rs_missed := AList.delete sid (rs_missed r)\<rparr>"

definition get_rec_set :: "int \<Rightarrow> recovery_set \<Rightarrow> (key_t \<times> u64) list option" where
  "get_rec_set sid r = map_of (rs_rec_set r) sid"

definition get_missed_key_cmd_set :: "int \<Rightarrow> recovery_set \<Rightarrow> (key_t \<times> marshallable) list option" where
  "get_missed_key_cmd_set sid r = map_of (rs_missed r) sid"

datatype jetpack_status = JP_RECOVERY | JP_READY

record jserver =
  jp_status :: jetpack_status
  jepoch :: epoch_t
  oepoch :: epoch_t
  old_view :: view
  new_view :: view
  js_pool :: command_pool
  rec_set :: recovery_set
  js_sid :: int
  sid_cnt :: int
  js_loc_id :: int
  js_site_id :: int
  js_par_id :: u32
  js_views :: partition_views
  js_raft_leader :: "bool option"
  tx_jepoch :: epoch_t
  tx_oepoch :: epoch_t

definition upd_pool :: "(command_pool \<Rightarrow> command_pool) \<Rightarrow> jserver \<Rightarrow> jserver" where
  "upd_pool f s = s\<lparr>js_pool := f (js_pool s)\<rparr>"

section \<open>Handlers of a replica\<close>

text \<open>
  \<^verbatim>\<open>OnJetpackBeginRecovery\<close>: the views are \<open>None\<close> when the payload is not a view. The field
  \<open>js_raft_leader\<close> is \<open>None\<close> when the replication scheduler is not a Raft server of the
  Raft modes.
\<close>

definition OnJetpackBeginRecovery :: "view option \<Rightarrow> view option \<Rightarrow> epoch_t \<Rightarrow> jserver \<Rightarrow> jserver" where
  "OnJetpackBeginRecovery ov nv new_view_id s0 =
     (let s1 = s0\<lparr>jp_status := JP_RECOVERY, oepoch := new_view_id\<rparr>;
          s2 = (case ov of Some v \<Rightarrow> s1\<lparr>old_view := v\<rparr> | None \<Rightarrow> s1)
      in case nv of
           None \<Rightarrow> s2
         | Some v \<Rightarrow>
             let s3 = s2\<lparr>new_view := v, js_views := UpdatePartitionView (js_par_id s2) (Some v) (js_views s2)\<rparr>
             in if view_leaders v \<noteq> [] \<and> js_raft_leader s3 = Some True \<and> GetLeader v \<noteq> js_site_id s3
                then s3\<lparr>js_raft_leader := Some False\<rparr> else s3)"

definition epochs_ok :: "epoch_t \<Rightarrow> epoch_t \<Rightarrow> jserver \<Rightarrow> bool" where
  "epochs_ok je oe s \<longleftrightarrow> je \<ge> jepoch s \<and> oe \<ge> oepoch s"

text \<open>
  The candidates of the pool, as \<^verbatim>\<open>OnJetpackPullRecovery\<close> reports them; \<open>None\<close> when the
  identifier of a command cannot be computed.
\<close>

fun pull_ids :: "(key_t \<times> rev_candidates) list \<Rightarrow> (key_t \<times> u64) list option" where
  "pull_ids [] = Some []"
| "pull_ids ((k, r) # m) =
     do {ids \<leftarrow> pull_ids m;
         (case (if rc_has_cmd_to_recover r then rc_cmd_to_recover r else None) of
            None \<Rightarrow> Some ids
          | Some cmd \<Rightarrow> do {c \<leftarrow> GetCombinedCmdID (Some cmd); Some ((k, c) # ids)})}"

definition OnJetpackPullRecovery ::
  "view option \<Rightarrow> view option \<Rightarrow> epoch_t \<Rightarrow> epoch_t \<Rightarrow> jserver \<Rightarrow>
   (recovery_reply \<times> jserver) option" where
  "OnJetpackPullRecovery ov nv je oe s0 =
     (let s = OnJetpackBeginRecovery ov nv oe s0 in
      if epochs_ok je oe s
      then do {ids \<leftarrow> pull_ids (candidates (js_pool s));
               Some ((True, jepoch s, oepoch s, Some ids), s\<lparr>jp_status := JP_RECOVERY\<rparr>)}
      else Some ((False, jepoch s, oepoch s, Some []), s))"

definition OnJetpackPullIdSet ::
  "epoch_t \<Rightarrow> epoch_t \<Rightarrow> jserver \<Rightarrow> (bool \<times> epoch_t \<times> epoch_t \<times> key_t list) \<times> jserver" where
  "OnJetpackPullIdSet je oe s =
     (if epochs_ok je oe s
      then ((True, jepoch s, oepoch s, pool_id_set (js_pool s)), s\<lparr>jp_status := JP_RECOVERY\<rparr>)
      else ((False, jepoch s, oepoch s, []), s))"

definition pull_cmds :: "key_t list \<Rightarrow> command_pool \<Rightarrow> (key_t \<times> marshallable option) list" where
  "pull_cmds keys p =
     concat (map (\<lambda>k. case map_of (candidates p) k of
                        None \<Rightarrow> []
                      | Some r \<Rightarrow> (if rc_has_cmd_to_recover r
                                   then (case rc_cmd_to_recover r of None \<Rightarrow> [] | Some c \<Rightarrow> [(k, Some c)])
                                   else [])) keys)"

definition OnJetpackPullCmd ::
  "epoch_t \<Rightarrow> epoch_t \<Rightarrow> key_t list \<Rightarrow> jserver \<Rightarrow>
   (bool \<times> epoch_t \<times> epoch_t \<times> (key_t \<times> marshallable option) list) \<times> jserver" where
  "OnJetpackPullCmd je oe keys s =
     (if epochs_ok je oe s
      then ((True, jepoch s, oepoch s, pull_cmds keys (js_pool s)), s\<lparr>jp_status := JP_RECOVERY\<rparr>)
      else ((False, jepoch s, oepoch s, []), s))"

definition find_missing :: "(key_t \<times> u64) list \<Rightarrow> command_pool \<Rightarrow> (key_t \<times> marshallable option) list" where
  "find_missing ids p =
     concat (map (\<lambda>(k, c). case map_of (candidates p) k of
                             None \<Rightarrow> []
                           | Some r \<Rightarrow> (case rc_get_cmd c r of None \<Rightarrow> [] | Some m \<Rightarrow> [(k, Some m)])) ids)"

definition OnJetpackRecordCmd ::
  "epoch_t \<Rightarrow> epoch_t \<Rightarrow> int \<Rightarrow> (key_t \<times> u64) list \<Rightarrow> (key_t \<times> u64) list \<Rightarrow> jserver \<Rightarrow>
   (key_t \<times> marshallable option) list \<times> jserver" where
  "OnJetpackRecordCmd je oe sid record_ids missing_ids s =
     (if epochs_ok je oe s
      then (find_missing missing_ids (js_pool s), s\<lparr>rec_set := set_rec_set sid record_ids (rec_set s)\<rparr>)
      else ([], s))"

text \<open>The ballot part of \<^verbatim>\<open>OnJetpackPrepare\<close> and \<^verbatim>\<open>OnJetpackAccept\<close>.\<close>

definition see_ballot :: "ballot_t \<Rightarrow> jserver \<Rightarrow> jserver" where
  "see_ballot b s =
     upd_pool (\<lambda>p. if b > max_seen_ballot p then p\<lparr>max_seen_ballot := b\<rparr> else p) s"

type_synonym prepare_reply = "bool \<times> epoch_t \<times> epoch_t \<times> ballot_t \<times> int \<times> ballot_t"

definition OnJetpackPrepare :: "epoch_t \<Rightarrow> epoch_t \<Rightarrow> ballot_t \<Rightarrow> jserver \<Rightarrow> prepare_reply \<times> jserver" where
  "OnJetpackPrepare je oe b s0 =
     (let s = see_ballot b s0; seen = max_seen_ballot (js_pool s) in
      if epochs_ok je oe s \<and> b \<ge> seen
      then ((True, jepoch s, oepoch s, max_accepted_ballot (js_pool s), pool_sid (js_pool s), seen), s)
      else ((False, jepoch s, oepoch s, 0, 0, seen), s))"

type_synonym accept_reply = "bool \<times> epoch_t \<times> epoch_t \<times> ballot_t"

definition OnJetpackAccept :: "epoch_t \<Rightarrow> epoch_t \<Rightarrow> ballot_t \<Rightarrow> int \<Rightarrow> jserver \<Rightarrow> accept_reply \<times> jserver" where
  "OnJetpackAccept je oe b sid s0 =
     (let s = see_ballot b s0; seen = max_seen_ballot (js_pool s) in
      if epochs_ok je oe s \<and> b \<ge> seen
      then ((True, jepoch s, oepoch s, seen),
            upd_pool (\<lambda>p. p\<lparr>max_accepted_ballot := b, pool_sid := sid\<rparr>) s)
      else ((False, jepoch s, oepoch s, seen), s))"

definition OnJetpackCommit :: "epoch_t \<Rightarrow> epoch_t \<Rightarrow> int \<Rightarrow> jserver \<Rightarrow> jserver" where
  "OnJetpackCommit je oe sid s =
     (if epochs_ok je oe s then upd_pool (\<lambda>p. p\<lparr>pool_sid := sid, pool_committed := True\<rparr>) s else s)"

definition OnJetpackFinishRecovery :: "epoch_t \<Rightarrow> jserver \<Rightarrow> jserver" where
  "OnJetpackFinishRecovery oe s =
     (if oe \<ge> oepoch s
      then (upd_pool pool_reset s)\<lparr>jepoch := oe, oepoch := oe, jp_status := JP_READY\<rparr>
      else s)"

text \<open>
  The wrapper of \<^verbatim>\<open>RecordCmd\<close> answers positively whatever the handler decided, with the
  epochs of the transaction scheduler; a payload of another kind counts as empty. The other
  wrappers pass arguments and results through.
\<close>

definition service_JetpackRecordCmd ::
  "epoch_t \<Rightarrow> epoch_t \<Rightarrow> int \<Rightarrow> (key_t \<times> u64) list option \<Rightarrow> (key_t \<times> u64) list option \<Rightarrow> jserver \<Rightarrow>
   (bool \<times> epoch_t \<times> epoch_t \<times> (key_t \<times> marshallable option) list option) \<times> jserver" where
  "service_JetpackRecordCmd je oe sid record_md missing_md s =
     (let rb = (case record_md of Some b \<Rightarrow> b | None \<Rightarrow> []);
          mb = (case missing_md of Some b \<Rightarrow> b | None \<Rightarrow> []);
          (cmds, s1) = OnJetpackRecordCmd je oe sid rb mb s
      in ((True, tx_jepoch s1, tx_oepoch s1, Some cmds), s1))"

definition service_JetpackPullRecovery ::
  "view option \<Rightarrow> view option \<Rightarrow> epoch_t \<Rightarrow> epoch_t \<Rightarrow> jserver \<Rightarrow> (recovery_reply \<times> jserver) option" where
  "service_JetpackPullRecovery ov nv je oe s = OnJetpackPullRecovery ov nv je oe s"

definition service_JetpackPullCmd ::
  "epoch_t \<Rightarrow> epoch_t \<Rightarrow> key_t list option option \<Rightarrow> jserver \<Rightarrow>
   (bool \<times> epoch_t \<times> epoch_t \<times> (key_t \<times> marshallable option) list) \<times> jserver" where
  "service_JetpackPullCmd je oe key_batch s =
     OnJetpackPullCmd je oe (case key_batch of Some (Some ks) \<Rightarrow> ks | _ \<Rightarrow> []) s"

section \<open>Broadcasts and reply callbacks\<close>

text \<open>
  Each broadcast creates an event for \<open>n\<close> members with a quorum of \<open>n/2 + 1\<close>; its callback runs
  once per reply, \<open>None\<close> being a transport error.
\<close>

definition JetpackBroadcastPullRecovery :: "int \<Rightarrow> recovery_event" where
  "JetpackBroadcastPullRecovery n = new_recovery_event n (n div 2 + 1)"

definition PullRecovery_callback :: "recovery_reply option \<Rightarrow> recovery_event \<Rightarrow> recovery_event" where
  "PullRecovery_callback r e =
     (case r of None \<Rightarrow> e | Some (y, je, oe, b) \<Rightarrow> Recovery_FeedResponse y je oe b e)"

definition JetpackBroadcastPrepare :: "int \<Rightarrow> prepare_event" where
  "JetpackBroadcastPrepare n = new_prepare_event n (n div 2 + 1)"

definition Prepare_callback :: "prepare_reply option \<Rightarrow> prepare_event \<Rightarrow> prepare_event" where
  "Prepare_callback r e =
     (case r of None \<Rightarrow> e | Some (y, je, oe, ab, sid, ms) \<Rightarrow> Prepare_FeedResponse y je oe ab sid ms e)"

definition JetpackBroadcastAccept :: "int \<Rightarrow> accept_event" where
  "JetpackBroadcastAccept n = new_accept_event n (n div 2 + 1)"

definition Accept_callback :: "accept_reply option \<Rightarrow> accept_event \<Rightarrow> accept_event" where
  "Accept_callback r e =
     (case r of None \<Rightarrow> e | Some (y, je, oe, ms) \<Rightarrow> Accept_FeedResponse y je oe ms e)"

definition JetpackBroadcastRecordCmd :: "int \<Rightarrow> record_event" where
  "JetpackBroadcastRecordCmd n = epoch_event.extend (new_epoch_event n (n div 2 + 1)) \<lparr>recovered_cmds = []\<rparr>"

definition RecordCmd_callback ::
  "(bool \<times> epoch_t \<times> epoch_t \<times> (key_t \<times> marshallable option) list option) option \<Rightarrow> record_event \<Rightarrow> record_event" where
  "RecordCmd_callback r e =
     (case r of None \<Rightarrow> VoteNo e | Some (y, je, oe, b) \<Rightarrow> Record_FeedResponse y je oe b e)"

section \<open>The procedure of the new leader\<close>

text \<open>Round 1 waits for both quorums; the failure branch of the pull ends the recovery.\<close>

record round1 =
  r1_key_ids :: "(key_t \<times> u64) list"
  r1_missing :: "(key_t \<times> u64) list"
  r1_prepare_ok :: bool
  r1_propose_sid :: int

definition pull_failed :: "recovery_event \<Rightarrow> jserver \<Rightarrow> jserver" where
  "pull_failed e s =
     (let s1 = (if max_jepoch e > jepoch s then (upd_pool pool_reset s)\<lparr>jepoch := max_jepoch e\<rparr> else s)
      in if max_oepoch e > oepoch s1 then s1\<lparr>oepoch := max_oepoch e\<rparr> else s1)"

definition has_local :: "command_pool \<Rightarrow> key_t \<times> u64 \<Rightarrow> bool" where
  "has_local p kc =
     (case map_of (candidates p) (fst kc) of None \<Rightarrow> False | Some r \<Rightarrow> rc_get_cmd (snd kc) r \<noteq> None)"

definition recovery_round1 ::
  "recovery_event \<Rightarrow> prepare_event \<Rightarrow> jserver \<Rightarrow> (jserver, round1 \<times> jserver) sum" where
  "recovery_round1 re pe s =
     (if \<not> Yes re then Inl (pull_failed re s)
      else let ids = GetRecoveredKeyIds re;
               sid = (push_bit 8 (sid_cnt s)) OR js_loc_id s;
               s1 = s\<lparr>js_sid := sid, sid_cnt := sid_cnt s + 1, rec_set := set_rec_set sid ids (rec_set s)\<rparr>;
               missing = filter (\<lambda>kc. \<not> has_local (js_pool s1) kc) ids;
               propose = (if Yes pe \<and> has_accepted_value pe then accepted_sid pe else sid)
           in Inr (\<lparr>r1_key_ids = ids, r1_missing = missing, r1_prepare_ok = Yes pe, r1_propose_sid = propose\<rparr>, s1))"

text \<open>
  Between the rounds the ballot is raised, after a successful prepare; the accept is sent with
  the raised ballot.
\<close>

definition raise_ballot :: "round1 \<Rightarrow> jserver \<Rightarrow> jserver" where
  "raise_ballot r1 s =
     (if r1_prepare_ok r1 then upd_pool (\<lambda>p. p\<lparr>max_seen_ballot := max_seen_ballot p + 1\<rparr>) s else s)"

definition paxos_failed :: "epoch_t \<Rightarrow> epoch_t \<Rightarrow> ballot_t \<Rightarrow> jserver \<Rightarrow> jserver" where
  "paxos_failed mj mo mb s =
     (let s1 = (if mj > jepoch s then (upd_pool pool_reset s)\<lparr>jepoch := mj\<rparr> else s);
          s2 = (if mo > oepoch s1 then s1\<lparr>oepoch := mo\<rparr> else s1)
      in if mb > max_seen_ballot (js_pool s2) then upd_pool (\<lambda>p. p\<lparr>max_seen_ballot := mb\<rparr>) s2 else s2)"

text \<open>Round 2 returns the identifier to commit, or \<open>None\<close> when the recovery stops.\<close>

definition recovery_round2 ::
  "round1 \<Rightarrow> prepare_event \<Rightarrow> record_event \<Rightarrow> accept_event \<Rightarrow> jserver \<Rightarrow> int option \<times> jserver" where
  "recovery_round2 r1 pe rec ae s =
     (let s1 = (if Yes rec then s\<lparr>rec_set := set_missed_key_cmd_set (js_sid s) (recovered_cmds rec) (rec_set s)\<rparr> else s)
      in if \<not> r1_prepare_ok r1
         then (None, paxos_failed (max_jepoch pe) (max_oepoch pe) (pe_max_seen_ballot pe) s1)
         else if \<not> Yes ae
         then (None, paxos_failed (max_jepoch ae) (max_oepoch ae) (ae_max_seen_ballot ae) s1)
         else (Some (r1_propose_sid r1), s1))"

text \<open>
  \<^verbatim>\<open>JetpackResubmit\<close>: the commands of the recovered set that are known locally or were fetched
  with \<^verbatim>\<open>RecordCmd\<close>, wrapped as commits. The loop over the set; \<open>None\<close> is an abort in
  \<^verbatim>\<open>GetCombinedCmdID\<close>.
\<close>

definition lookup_recovered ::
  "command_pool \<Rightarrow> (key_t \<times> marshallable) list \<Rightarrow> key_t \<times> u64 \<Rightarrow> marshallable option option" where
  "lookup_recovered p missed kc =
     (let local = (case map_of (candidates p) (fst kc) of None \<Rightarrow> None | Some r \<Rightarrow> rc_get_cmd (snd kc) r)
      in case local of
           Some m \<Rightarrow> Some (Some m)
         | None \<Rightarrow>
             (case map_of missed (fst kc) of
                None \<Rightarrow> Some None
              | Some m \<Rightarrow> do {c \<leftarrow> GetCombinedCmdID (Some m); Some (if c = snd kc then Some m else None)}))"

fun wrap_commit :: "marshallable \<Rightarrow> (u64 \<times> marshallable option) list" where
  "wrap_commit (CMD_TPC_COMMIT tx c) = [(tx, c)]"
| "wrap_commit (CMD_VEC_PIECE v) = [(0, Some (CMD_VEC_PIECE v))]"
| "wrap_commit _ = []"

fun cmds_to_dispatch ::
  "command_pool \<Rightarrow> (key_t \<times> marshallable) list \<Rightarrow> (key_t \<times> u64) list \<Rightarrow>
   (u64 \<times> marshallable option) list option" where
  "cmds_to_dispatch p missed [] = Some []"
| "cmds_to_dispatch p missed (kc # ids) =
     do {m \<leftarrow> lookup_recovered p missed kc;
         rest \<leftarrow> cmds_to_dispatch p missed ids;
         Some ((case m of None \<Rightarrow> [] | Some c \<Rightarrow> wrap_commit c) @ rest)}"

definition JetpackResubmit :: "int \<Rightarrow> jserver \<Rightarrow> (u64 \<times> marshallable option) list option" where
  "JetpackResubmit sid s =
     (case get_rec_set sid (rec_set s) of
        None \<Rightarrow> Some []
      | Some ids \<Rightarrow>
          cmds_to_dispatch (js_pool s)
            (case get_missed_key_cmd_set sid (rec_set s) of Some m \<Rightarrow> m | None \<Rightarrow> []) ids)"

text \<open>
  \<^verbatim>\<open>DispatchRecoveredCommand\<close> up to the dispatch: the command sent to the leader with its
  completion weight, or \<open>None\<close> when the command is dropped with an error message. A piece
  vector is marked as a recovery command before it is sent.
\<close>

definition mark_recovery :: "marshallable option \<Rightarrow> marshallable option" where
  "mark_recovery c =
     (case c of Some (CMD_VEC_PIECE v) \<Rightarrow> Some (CMD_VEC_PIECE (v\<lparr>is_recovery_command := True\<rparr>)) | _ \<Rightarrow> c)"

definition is_vec_piece :: "marshallable option \<Rightarrow> bool" where
  "is_vec_piece c = (case c of Some (CMD_VEC_PIECE v) \<Rightarrow> True | _ \<Rightarrow> False)"

definition DispatchRecoveredCommand :: "marshallable option \<Rightarrow> (marshallable \<times> int) option" where
  "DispatchRecoveredCommand cmd =
     (case cmd of
        None \<Rightarrow> None
      | Some (CMD_TPC_BATCH cs) \<Rightarrow>
          (case cs of
             [] \<Rightarrow> None
           | (tx, c) # _ \<Rightarrow>
               if c = None then None
               else let cs' = map (\<lambda>(tx, c). (tx, mark_recovery c)) cs
                    in if is_vec_piece c then Some (CMD_TPC_BATCH cs', int (length cs)) else None)
      | Some (CMD_TPC_COMMIT tx c) \<Rightarrow>
          (if is_vec_piece c then map_option (\<lambda>v. (v, 1)) (mark_recovery c) else None)
      | Some m \<Rightarrow> if is_vec_piece (Some m) then map_option (\<lambda>v. (v, 1)) (mark_recovery (Some m)) else None)"

definition DispatchRecoveredBatch :: "(u64 \<times> marshallable option) list \<Rightarrow> (marshallable \<times> int) option" where
  "DispatchRecoveredBatch b = (if b = [] then None else DispatchRecoveredCommand (Some (CMD_TPC_BATCH b)))"

text \<open>The resubmission with the batch size of one, and the value the waiting leader expects.\<close>

definition resubmit_batches :: "(u64 \<times> marshallable option) list \<Rightarrow> (marshallable \<times> int) list" where
  "resubmit_batches cs = concat (map (\<lambda>c. case DispatchRecoveredBatch [c] of None \<Rightarrow> [] | Some d \<Rightarrow> [d]) cs)"

definition JetpackRecoveryEntry :: "jserver \<Rightarrow> jserver" where
  "JetpackRecoveryEntry s = s\<lparr>jp_status := JP_RECOVERY\<rparr>"


section \<open>Histories of a replica\<close>

datatype jmsg =
    PullRecovery "view option" "view option" epoch_t epoch_t
  | PullIdSet epoch_t epoch_t
  | PullCmd epoch_t epoch_t "key_t list"
  | RecordCmd epoch_t epoch_t int "(key_t \<times> u64) list" "(key_t \<times> u64) list"
  | Prepare epoch_t epoch_t ballot_t
  | Accept epoch_t epoch_t ballot_t int
  | Commit epoch_t epoch_t int
  | FinishRecovery epoch_t
  | Execute marshallable
  | Applied marshallable

text \<open>
  \<open>Execute\<close> is a fast-path attempt pushed to the pool, \<open>Applied\<close> the removal of a replicated
  command.
\<close>

definition handle :: "jmsg \<Rightarrow> jserver \<Rightarrow> jserver option" where
  "handle m s =
     (case m of
        PullRecovery ov nv je oe \<Rightarrow> map_option snd (OnJetpackPullRecovery ov nv je oe s)
      | PullIdSet je oe \<Rightarrow> Some (snd (OnJetpackPullIdSet je oe s))
      | PullCmd je oe ks \<Rightarrow> Some (snd (OnJetpackPullCmd je oe ks s))
      | RecordCmd je oe sid ids miss \<Rightarrow> Some (snd (OnJetpackRecordCmd je oe sid ids miss s))
      | Prepare je oe b \<Rightarrow> Some (snd (OnJetpackPrepare je oe b s))
      | Accept je oe b sid \<Rightarrow> Some (snd (OnJetpackAccept je oe b sid s))
      | Commit je oe sid \<Rightarrow> Some (OnJetpackCommit je oe sid s)
      | FinishRecovery oe \<Rightarrow> Some (OnJetpackFinishRecovery oe s)
      | Execute cmd \<Rightarrow> map_option (\<lambda>(ok, p). s\<lparr>js_pool := p\<rparr>)
                        (pool_push_back (jp_status s = JP_RECOVERY) cmd (js_pool s))
      | Applied cmd \<Rightarrow> map_option (\<lambda>(n, p). s\<lparr>js_pool := p\<rparr>) (pool_remove cmd (js_pool s)))"

fun handle_all :: "jmsg list \<Rightarrow> jserver \<Rightarrow> jserver option" where
  "handle_all [] s = Some s"
| "handle_all (m # ms) s = do {s1 \<leftarrow> handle m s; handle_all ms s1}"

definition acceptor_inv :: "jserver \<Rightarrow> bool" where
  "acceptor_inv s \<longleftrightarrow> pool_inv (js_pool s) \<and> max_accepted_ballot (js_pool s) \<le> max_seen_ballot (js_pool s)"

lemma begin_recovery_fields [simp]:
  "js_pool (OnJetpackBeginRecovery ov nv oe s) = js_pool s"
  "jepoch (OnJetpackBeginRecovery ov nv oe s) = jepoch s"
  "oepoch (OnJetpackBeginRecovery ov nv oe s) = oe"
  "jp_status (OnJetpackBeginRecovery ov nv oe s) = JP_RECOVERY"
  "rec_set (OnJetpackBeginRecovery ov nv oe s) = rec_set s"
  by (auto simp: OnJetpackBeginRecovery_def Let_def split: option.splits)

lemma pull_recovery_fields:
  assumes "OnJetpackPullRecovery ov nv je oe s = Some (r, s')"
  shows "js_pool s' = js_pool s" "jepoch s' = jepoch s" "oepoch s' = oe" "jp_status s' = JP_RECOVERY"
    "fst r \<longleftrightarrow> je \<ge> jepoch s"
    "fst r \<Longrightarrow> \<exists>ids. pull_ids (candidates (js_pool s)) = Some ids \<and> snd (snd (snd r)) = Some ids"
  using assms
  by (auto simp: OnJetpackPullRecovery_def epochs_ok_def Let_def bind_eq_Some_conv split: if_splits)

lemma pool_inv_ballots [simp]:
  "pool_inv (p\<lparr>max_seen_ballot := b\<rparr>) = pool_inv p" "pool_inv (p\<lparr>max_accepted_ballot := b\<rparr>) = pool_inv p"
  "pool_inv (p\<lparr>pool_sid := i\<rparr>) = pool_inv p" "pool_inv (p\<lparr>pool_committed := c\<rparr>) = pool_inv p"
  by (simp_all add: pool_inv_def bucket_def)

lemma see_ballot_fields:
  "jepoch (see_ballot b s) = jepoch s" "oepoch (see_ballot b s) = oepoch s"
  "jp_status (see_ballot b s) = jp_status s"
  "js_pool (see_ballot b s) = (js_pool s)\<lparr>max_seen_ballot := max b (max_seen_ballot (js_pool s))\<rparr>"
  by (simp_all add: see_ballot_def upd_pool_def max_def)

lemma Prepare_state [simp]: "snd (OnJetpackPrepare je oe b s) = see_ballot b s"
  by (simp add: OnJetpackPrepare_def Let_def)

lemma Accept_pool:
  "js_pool (snd (OnJetpackAccept je oe b sid s)) =
     (if fst (fst (OnJetpackAccept je oe b sid s))
      then (js_pool s)\<lparr>max_seen_ballot := b, max_accepted_ballot := b, pool_sid := sid\<rparr>
      else (js_pool s)\<lparr>max_seen_ballot := max b (max_seen_ballot (js_pool s))\<rparr>)"
  by (auto simp: OnJetpackAccept_def Let_def see_ballot_fields upd_pool_def max_def)

lemma Accept_ok:
  "fst (fst (OnJetpackAccept je oe b sid s)) \<longleftrightarrow> epochs_ok je oe s \<and> max_seen_ballot (js_pool s) \<le> b"
  by (auto simp: OnJetpackAccept_def Let_def see_ballot_fields epochs_ok_def)

lemma push_back_ballots:
  "pool_push_back rec cmd p = Some (ok, p') \<Longrightarrow>
     max_seen_ballot p' = max_seen_ballot p \<and> max_accepted_ballot p' = max_accepted_ballot p"
  by (auto simp: pool_push_back_def pool_insert_def set_bucket_def WriteCommandToDisk_def
      Let_def bind_eq_Some_conv split: if_splits)

lemma clear_ballots [simp]:
  "max_seen_ballot (pool_clear k c p) = max_seen_ballot p"
  "max_accepted_ballot (pool_clear k c p) = max_accepted_ballot p"
  by (simp_all add: pool_clear_def pool_remove_one_def set_bucket_def Let_def split_beta)

lemma pool_remove_ballots:
  assumes "pool_remove cmd p = Some (n, p')"
  shows "max_seen_ballot p' = max_seen_ballot p \<and> max_accepted_ballot p' = max_accepted_ballot p"
  using assms by (rule pool_remove_clears) auto

lemma pool_inv_remove: "pool_remove cmd p = Some (n, p') \<Longrightarrow> pool_inv p \<Longrightarrow> pool_inv p'"
  by (erule pool_remove_clears) (auto intro: pool.clear_inv)

lemma pool_inv_push_back: "pool_push_back rec cmd p = Some (ok, p') \<Longrightarrow> pool_inv p \<Longrightarrow> pool_inv p'"
  by (erule pool_push_back_cases) (auto intro: pool_inv_insert)

text \<open>One message keeps the acceptor invariant and, unless it finishes a recovery, the ballots grow.\<close>

lemma handle_acceptor:
  assumes "acceptor_inv s" "handle m s = Some s'"
  shows "acceptor_inv s' \<and> ((\<nexists>oe. m = FinishRecovery oe) \<longrightarrow>
    max_seen_ballot (js_pool s) \<le> max_seen_ballot (js_pool s') \<and>
    max_accepted_ballot (js_pool s) \<le> max_accepted_ballot (js_pool s'))"
proof (cases m)
  case (PullRecovery ov nv je oe)
  then show ?thesis using assms pull_recovery_fields(1) [of ov nv je oe s] by (auto simp: handle_def acceptor_inv_def)
next
  case (Accept je oe b sid)
  then have s': "s' = snd (OnJetpackAccept je oe b sid s)" using assms(2) by (simp add: handle_def)
  show ?thesis using assms(1) Accept_ok [of je oe b sid s] by (auto simp: s' Accept_pool acceptor_inv_def)
next
  case (FinishRecovery oe)
  then show ?thesis using assms
    by (auto simp: handle_def acceptor_inv_def OnJetpackFinishRecovery_def upd_pool_def pool_reset_def
        pool_inv_def bucket_def split: if_splits)
next
  case (Execute cmd)
  then show ?thesis using assms push_back_ballots pool_inv_push_back by (fastforce simp: handle_def acceptor_inv_def)
next
  case (Applied cmd)
  then show ?thesis using assms pool_remove_ballots pool_inv_remove by (fastforce simp: handle_def acceptor_inv_def)
qed (use assms in \<open>auto simp: handle_def acceptor_inv_def OnJetpackPullIdSet_def OnJetpackPullCmd_def
      OnJetpackRecordCmd_def OnJetpackCommit_def upd_pool_def see_ballot_fields\<close>)

lemma handle_all_acceptor:
  "acceptor_inv s \<Longrightarrow> handle_all ms s = Some s' \<Longrightarrow> acceptor_inv s' \<and>
   ((\<forall>oe. FinishRecovery oe \<notin> set ms) \<longrightarrow> max_seen_ballot (js_pool s) \<le> max_seen_ballot (js_pool s') \<and>
     max_accepted_ballot (js_pool s) \<le> max_accepted_ballot (js_pool s'))"
proof (induction ms arbitrary: s)
  case (Cons m ms)
  obtain s1 where s1: "handle m s = Some s1" "handle_all ms s1 = Some s'"
    using Cons.prems(2) by (auto simp: bind_eq_Some_conv)
  note h = handle_acceptor [OF Cons.prems(1) s1(1)]
  show ?case using h Cons.IH [OF _ s1(2)] by (auto intro: order_trans)
qed simp

text \<open>During a recovery the pool only loses commands.\<close>

definition frozen :: "command_pool \<Rightarrow> jserver \<Rightarrow> bool" where
  "frozen p s \<longleftrightarrow> jp_status s = JP_RECOVERY \<and>
     (\<forall>k c. pool_flight (js_pool s) k c = None \<or> pool_flight (js_pool s) k c = pool_flight p k c)"

lemma pool_flight_updates [simp]:
  "pool_flight (p\<lparr>max_seen_ballot := b\<rparr>) k c = pool_flight p k c"
  "pool_flight (p\<lparr>max_accepted_ballot := b\<rparr>) k c = pool_flight p k c"
  "pool_flight (p\<lparr>pool_sid := i\<rparr>) k c = pool_flight p k c"
  "pool_flight (p\<lparr>pool_committed := d\<rparr>) k c = pool_flight p k c"
  by (simp_all add: pool_flight_def bucket_def)

lemma frozen_cong:
  "frozen p s \<Longrightarrow> jp_status s' = JP_RECOVERY \<Longrightarrow> pool_flight (js_pool s') = pool_flight (js_pool s) \<Longrightarrow>
   frozen p s'"
  by (simp add: frozen_def)

lemma frozen_status: "frozen p s \<Longrightarrow> jp_status s = JP_RECOVERY"
  by (simp add: frozen_def)

lemma handle_frozen:
  assumes "frozen p s" "handle m s = Some s'" "\<nexists>oe. m = FinishRecovery oe"
  shows "frozen p s'"
proof (cases m)
  case (PullRecovery ov nv je oe)
  then obtain r where r: "OnJetpackPullRecovery ov nv je oe s = Some (r, s')"
    using assms(2) by (auto simp: handle_def)
  show ?thesis using assms(1) by (simp add: frozen_def pull_recovery_fields(1,4) [OF r])
next
  case (Accept je oe b sid)
  then have s': "s' = snd (OnJetpackAccept je oe b sid s)" using assms(2) by (simp add: handle_def)
  have "jp_status s' = jp_status s"
    by (simp add: s' OnJetpackAccept_def Let_def see_ballot_fields upd_pool_def)
  then show ?thesis using assms(1) by (simp add: s' Accept_pool frozen_def)
next
  case (Execute cmd)
  then show ?thesis using assms by (simp add: handle_def frozen_def pool_push_back_def)
next
  case (Applied cmd)
  then obtain n q where q: "pool_remove cmd (js_pool s) = Some (n, q)" "s' = s\<lparr>js_pool := q\<rparr>"
    using assms(2) by (auto simp: handle_def)
  have "\<forall>k c. pool_flight q k c = None \<or> pool_flight q k c = pool_flight p k c"
    using q(1) assms(1) by - (rule pool_remove_clears, assumption, auto simp: frozen_def pool_flight_clear)
  then show ?thesis using assms(1) q by (simp add: frozen_def)
qed (use assms in \<open>auto intro!: frozen_cong [OF assms(1)] simp: handle_def OnJetpackPullIdSet_def
      OnJetpackPullCmd_def OnJetpackRecordCmd_def OnJetpackCommit_def upd_pool_def see_ballot_fields
      fun_eq_iff frozen_status [OF assms(1)] split: if_splits\<close>)

lemma handle_all_frozen:
  "frozen p s \<Longrightarrow> handle_all ms s = Some s' \<Longrightarrow> \<forall>oe. FinishRecovery oe \<notin> set ms \<Longrightarrow> frozen p s'"
proof (induction ms arbitrary: s)
  case (Cons m ms)
  obtain s1 where "handle m s = Some s1" "handle_all ms s1 = Some s'"
    using Cons.prems(2) by (auto simp: bind_eq_Some_conv)
  then show ?case using Cons.IH handle_frozen Cons.prems(1,3) by (metis list.set_intros)
qed simp


section \<open>Counting what replicas report\<close>

lemma GetCombinedCmdID_parsed:
  assumes "SimpleRWCommand (Some m) = Some c"
  shows "GetCombinedCmdID (Some m) = Some (CombineInt32 (fst (rw_cmd_id c)) (snd (rw_cmd_id c)))"
proof -
  have "GetCmdID (Some m) = Some (rw_cmd_id c)"
    using assms by (cases m rule: first_piece.cases) (auto simp: SimpleRWCommand_def)
  then show ?thesis by (simp add: GetCombinedCmdID_def split_beta)
qed

lemma pull_ids_keys: "pull_ids m = Some ids \<Longrightarrow> set (map fst ids) \<subseteq> set (keys_of m)"
  by (induction m arbitrary: ids rule: pull_ids.induct)
     (fastforce simp: bind_eq_Some_conv split: option.splits if_splits)+

lemma pull_ids_distinct: "pull_ids m = Some ids \<Longrightarrow> distinct (keys_of m) \<Longrightarrow> distinct (map fst ids)"
proof (induction m arbitrary: ids rule: pull_ids.induct)
  case (2 k r m)
  obtain ids' where i: "pull_ids m = Some ids'" and e: "ids = ids' \<or> (\<exists>c. ids = (k, c) # ids')"
    using "2.prems"(1) by (auto simp: bind_eq_Some_conv split: option.splits if_splits)
  then show ?case using "2.IH" [OF i] "2.prems"(2) pull_ids_keys [OF i] by auto
qed simp

lemma pull_ids_entry:
  "pull_ids m = Some ids \<Longrightarrow> map_of m k = Some r \<Longrightarrow> rc_has_cmd_to_recover r \<Longrightarrow>
   rc_cmd_to_recover r = Some cmd \<Longrightarrow> GetCombinedCmdID (Some cmd) = Some c \<Longrightarrow> (k, c) \<in> set ids"
  by (induction m arbitrary: ids rule: pull_ids.induct)
     (auto simp: bind_eq_Some_conv split: option.splits if_splits)

lemma count_concat: "count_list (concat xss) x = sum_list (map (\<lambda>xs. count_list xs x) xss)"
  by (induction xss) auto

lemma count_list_keys:
  "distinct (map fst ids) \<Longrightarrow> count_list ids (k, c) = of_bool ((k, c) \<in> set ids)"
  by (induction ids) (auto simp: image_iff)

lemma sum_of_bool: "distinct xs \<Longrightarrow> sum_list (map (\<lambda>i. of_bool (P i)) xs) = card {i \<in> set xs. P i}"
proof (induction xs)
  case (Cons x xs)
  have "{i \<in> set (x # xs). P i} = (if P x then insert x {i \<in> set xs. P i} else {i \<in> set xs. P i})" by auto
  with Cons show ?case by simp
qed simp

text \<open>
  The counting argument: each replica of a reply set reports at most one candidate per key, so
  when a fast quorum reports one identifier, it reaches the threshold and beats every other.
\<close>

lemma fast_candidate_wins:
  assumes Q: "distinct Q" "set Q \<subseteq> R" "f + 1 \<le> length Q" and R: "finite R" "card R = 2 * f + 1"
    and A: "A \<subseteq> R" "RuleSuperMajority (2 * f + 1) \<le> card A"
    and dist: "\<And>i. i \<in> set Q \<Longrightarrow> distinct (map fst (ids i))"
    and rep: "\<And>i. i \<in> set Q \<Longrightarrow> i \<in> A \<Longrightarrow> (k, c) \<in> set (ids i)"
  shows "(f + 3) div 2 \<le> count_list (concat (map ids Q)) (k, c)"
    and "c' \<noteq> c \<Longrightarrow> count_list (concat (map ids Q)) (k, c') < count_list (concat (map ids Q)) (k, c)"
proof -
  have count: "count_list (concat (map ids Q)) (k, d) = card {i \<in> set Q. (k, d) \<in> set (ids i)}" for d
  proof -
    have eq: "map (\<lambda>i. count_list (ids i) (k, d)) Q = map (\<lambda>i. of_bool ((k, d) \<in> set (ids i))) Q"
      using dist by (auto simp: count_list_keys)
    have "count_list (concat (map ids Q)) (k, d) = sum_list (map (\<lambda>i. count_list (ids i) (k, d)) Q)"
      by (simp add: count_concat comp_def)
    then show ?thesis unfolding eq sum_of_bool [OF Q(1)] .
  qed
  have fin: "finite (set Q)" by simp
  have cQ: "card (set Q) = length Q" using Q(1) by (rule distinct_card)
  have inter: "card A + card (set Q) \<le> card R + card (A \<inter> set Q)" using R(1) A(1) Q(2) by (rule card_inter_ge)
  have "card (A \<inter> set Q) \<le> card {i \<in> set Q. (k, c) \<in> set (ids i)}"
    using rep by (intro card_mono) auto
  with inter cQ Q(3) R(2) A(2)
  have c: "(f + 1) div 2 + length Q \<le> count_list (concat (map ids Q)) (k, c) + f"
    by (simp add: count RuleSuperMajority_def MaxFailure_def Let_def)
  then show "(f + 3) div 2 \<le> count_list (concat (map ids Q)) (k, c)" using Q(3) by linarith
  show "count_list (concat (map ids Q)) (k, c') < count_list (concat (map ids Q)) (k, c)" if "c' \<noteq> c"
  proof -
    let ?S = "\<lambda>d. {i \<in> set Q. (k, d) \<in> set (ids i)}"
    have "?S c \<inter> ?S c' = {}" using dist that by (auto dest!: eq_key_imp_eq_value)
    then have "card (?S c) + card (?S c') = card (?S c \<union> ?S c')" by (simp add: card_Un_disjoint)
    also have "\<dots> \<le> length Q" unfolding cQ [symmetric] by (intro card_mono) auto
    finally show ?thesis using c Q(3) unfolding count by linarith
  qed
qed

lemma PullRecovery_callbacks:
  "fold PullRecovery_callback (map (\<lambda>i. Some (reply i)) Q) e = feed_replies (map reply Q) e"
proof -
  have "PullRecovery_callback (Some r) = (\<lambda>(y, je, oe, b). Recovery_FeedResponse y je oe b) r" for r
    by (cases r) (simp add: PullRecovery_callback_def fun_eq_iff)
  then show ?thesis by (induction Q arbitrary: e) (simp_all add: feed_replies_def)
qed

end
