(* ===== verification/Witness.thy ===== *)
theory Witness
  imports ConflictTracker
begin

text \<open>
  The CURP witness of \<^verbatim>\<open>curp/witness.h\<close> and \<^verbatim>\<open>curp/witness.cc\<close>: per key a slot with the
  attempts in flight, the identifiers seen, the writer count and the identifier of the first
  writer. The witness provides the same contract as the command pool, with an empty slot
  erased instead of kept. \<^verbatim>\<open>writer_count_\<close> is only ever incremented and decremented, is never
  decremented at zero (shown below), and is an integer here.
\<close>

section \<open>The slot of one key\<close>

record witness_entry =
  we_cmd :: marshallable
  we_is_write :: bool

record witness_slot =
  in_flight :: "(u64 \<times> witness_entry) list"
  seen :: "(u64 \<times> bool) list"
  writer_count :: int
  leader_recover_id :: u64

definition empty_slot :: witness_slot where
  "empty_slot = \<lparr>in_flight = [], seen = [], writer_count = 0, leader_recover_id = -1\<rparr>"

definition record_in_flight :: "u64 \<Rightarrow> marshallable \<Rightarrow> bool \<Rightarrow> witness_slot \<Rightarrow> witness_slot" where
  "record_in_flight cid cmd w s =
     s\<lparr>in_flight := AList.update cid \<lparr>we_cmd = cmd, we_is_write = w\<rparr> (in_flight s),
       leader_recover_id := (if writer_count s = 0 \<and> w then cid else leader_recover_id s),
       writer_count := writer_count s + of_bool w,
       seen := AList.update cid True (seen s)\<rparr>"

definition clear_in_flight :: "u64 \<Rightarrow> witness_slot \<Rightarrow> nat \<times> witness_slot" where
  "clear_in_flight cid s =
     (case map_of (in_flight s) cid of
        None \<Rightarrow> (0, s)
      | Some e \<Rightarrow>
          let s1 = (if we_is_write e
                    then s\<lparr>leader_recover_id :=
                             (if writer_count s = 1 \<and> leader_recover_id s = cid then -1
                              else leader_recover_id s),
                           writer_count := writer_count s - 1\<rparr>
                    else s)
          in (1, s1\<lparr>in_flight := AList.delete cid (in_flight s1)\<rparr>))"

definition has_seen :: "u64 \<Rightarrow> witness_slot \<Rightarrow> bool" where
  "has_seen cid s \<longleftrightarrow> map_of (seen s) cid \<noteq> None"

section \<open>The witness\<close>

record curp_witness =
  slots :: "(key_t \<times> witness_slot) list"
  attempt_count :: nat

definition empty_witness :: curp_witness where
  "empty_witness = \<lparr>slots = [], attempt_count = 0\<rparr>"

text \<open>\<^verbatim>\<open>slots_[key]\<close> default-constructs a missing slot.\<close>

definition slot :: "key_t \<Rightarrow> curp_witness \<Rightarrow> witness_slot" where
  "slot k w = at_default empty_slot (slots w) k"

definition record_decoded ::
  "key_t \<Rightarrow> u64 \<Rightarrow> bool \<Rightarrow> marshallable \<Rightarrow> curp_witness \<Rightarrow> (bool \<times> curp_witness) option" where
  "record_decoded k cid w cmd s =
     Some (writer_count (slot k s) = 0,
           s\<lparr>slots := AList.update k (record_in_flight cid cmd w (slot k s)) (slots s),
             attempt_count := attempt_count s + 1\<rparr>)"

definition clear_decoded :: "key_t \<Rightarrow> u64 \<Rightarrow> curp_witness \<Rightarrow> nat \<times> curp_witness" where
  "clear_decoded k cid s =
     (case map_of (slots s) k of
        None \<Rightarrow> (0, s)
      | Some sl \<Rightarrow>
          let (n, sl') = clear_in_flight cid sl in
          if 0 < n
          then (n, s\<lparr>attempt_count := (if 0 < attempt_count s then attempt_count s - 1 else 0),
                     slots := (if in_flight sl' = [] then AList.delete k (slots s)
                               else AList.update k sl' (slots s))\<rparr>)
          else (n, s\<lparr>slots := AList.update k sl' (slots s)\<rparr>))"

text \<open>
  \<^verbatim>\<open>record_attempt\<close> and \<^verbatim>\<open>clear_attempt\<close>: \<open>None\<close> is an abort inside the decoder; a command
  without a per-key view is reported as conflict-free and not recorded.
\<close>

definition record_attempt ::
  "marshallable \<Rightarrow> curp_witness \<Rightarrow> (bool \<times> curp_witness) option" where
  "record_attempt cmd s =
     do {d \<leftarrow> ExtractPoolKeys (Some cmd);
         case d of None \<Rightarrow> Some (True, s)
                 | Some (k, cid, w) \<Rightarrow> record_decoded k cid w cmd s}"

definition clear_attempt :: "marshallable \<Rightarrow> curp_witness \<Rightarrow> (nat \<times> curp_witness) option" where
  "clear_attempt cmd s =
     do {d \<leftarrow> ExtractPoolKeys (Some cmd);
         case d of None \<Rightarrow> Some (0, s)
                 | Some (k, cid, w) \<Rightarrow> Some (clear_decoded k cid s)}"

definition witness_reset :: "curp_witness \<Rightarrow> curp_witness" where
  "witness_reset s = s\<lparr>slots := [], attempt_count := 0\<rparr>"

section \<open>Invariants\<close>

abbreviation writers_of :: "witness_slot \<Rightarrow> nat" where
  "writers_of s \<equiv> count_vals we_is_write (in_flight s)"

definition slot_inv :: "witness_slot \<Rightarrow> bool" where
  "slot_inv s \<longleftrightarrow> distinct (keys_of (in_flight s)) \<and> int (writers_of s) \<le> writer_count s"

definition witness_inv :: "curp_witness \<Rightarrow> bool" where
  "witness_inv s \<longleftrightarrow> distinct (keys_of (slots s)) \<and> (\<forall>k. slot_inv (slot k s))"

definition witness_flight :: "curp_witness \<Rightarrow> flights" where
  "witness_flight s k c = map_option we_is_write (map_of (in_flight (slot k s)) c)"

definition witness_clear :: "key_t \<Rightarrow> u64 \<Rightarrow> curp_witness \<Rightarrow> curp_witness" where
  "witness_clear k c s = snd (clear_decoded k c s)"

definition witness_exact :: "curp_witness \<Rightarrow> bool" where
  "witness_exact s \<longleftrightarrow> (\<forall>k. writer_count (slot k s) = int (writers_of (slot k s)))"

lemma empty_slot_fields [simp]:
  "in_flight empty_slot = []" "writer_count empty_slot = 0" "seen empty_slot = []"
  by (simp_all add: empty_slot_def)

lemma slot_inv_empty [simp]: "slot_inv empty_slot"
  by (simp add: slot_inv_def)

lemma slot_empty_witness [simp]: "slot k empty_witness = empty_slot"
  by (simp add: slot_def empty_witness_def)

lemma witness_inv_empty [simp]: "witness_inv empty_witness"
  by (simp add: witness_inv_def) (simp add: empty_witness_def)

lemma slot_inv_record: "slot_inv s \<Longrightarrow> slot_inv (record_in_flight cid cmd w s)"
  using count_vals_update [of we_is_write cid "\<lparr>we_cmd = cmd, we_is_write = w\<rparr>" "in_flight s"]
  by (auto simp: slot_inv_def record_in_flight_def)

lemma in_flight_clear: "in_flight (snd (clear_in_flight c s)) = AList.delete c (in_flight s)"
  by (auto simp: clear_in_flight_def Let_def delete_idem map_of_eq_None_iff split: option.splits)

lemma writer_count_clear:
  "writer_count (snd (clear_in_flight c s)) = writer_count s -
     (case map_of (in_flight s) c of None \<Rightarrow> 0 | Some e \<Rightarrow> of_bool (we_is_write e))"
  by (simp add: clear_in_flight_def Let_def split: option.splits)

lemma clear_hits: "0 < fst (clear_in_flight c s) \<longleftrightarrow> map_of (in_flight s) c \<noteq> None"
  by (simp add: clear_in_flight_def Let_def split: option.splits)

lemma writers_clear:
  "slot_inv s \<Longrightarrow> int (count_vals we_is_write (AList.delete c (in_flight s))) =
     int (writers_of s) - (case map_of (in_flight s) c of None \<Rightarrow> 0 | Some e \<Rightarrow> of_bool (we_is_write e))"
  using count_vals_delete [of "in_flight s" we_is_write c]
  by (cases "map_of (in_flight s) c") (auto simp: slot_inv_def)

lemma slot_inv_clear: "slot_inv s \<Longrightarrow> slot_inv (snd (clear_in_flight c s))"
  using writers_clear [of s c]
  by (simp add: slot_inv_def in_flight_clear writer_count_clear)

text \<open>
  The slot a clear leaves behind: the slot with the attempt cleared, or the empty slot when
  nothing else was in flight and the entry was erased.
\<close>

lemma slot_witness_clear:
  "slot k' (witness_clear k c s) =
     (if k' = k then if map_of (in_flight (slot k s)) c \<noteq> None \<and> AList.delete c (in_flight (slot k s)) = []
                     then empty_slot else snd (clear_in_flight c (slot k s))
      else slot k' s)"
proof (cases "map_of (slots s) k")
  case None
  then show ?thesis
    by (simp add: witness_clear_def clear_decoded_def slot_def at_default_def clear_in_flight_def)
next
  case (Some sl)
  obtain n sl' where n: "clear_in_flight c sl = (n, sl')" by (cases "clear_in_flight c sl")
  from Some n in_flight_clear [of c sl] clear_hits [of c sl] show ?thesis
    by (auto simp: witness_clear_def clear_decoded_def slot_def at_default_Some Let_def)
qed

lemma distinct_witness_clear:
  "distinct (keys_of (slots s)) \<Longrightarrow> distinct (keys_of (slots (witness_clear k c s)))"
  by (auto simp: witness_clear_def clear_decoded_def Let_def split_beta split: option.splits)

lemma slot_record:
  "record_decoded k c w m s = Some (ok, s') \<Longrightarrow>
   slot k' s' = (if k' = k then record_in_flight c m w (slot k s) else slot k' s)"
  by (auto simp: record_decoded_def slot_def)

lemma witness_inv_record:
  "witness_inv s \<Longrightarrow> record_decoded k c w m s = Some (ok, s') \<Longrightarrow> witness_inv s'"
  by (auto simp: witness_inv_def slot_record slot_inv_record) (auto simp: record_decoded_def)

lemma witness_inv_clear: "witness_inv s \<Longrightarrow> witness_inv (witness_clear k c s)"
  by (simp add: witness_inv_def distinct_witness_clear slot_witness_clear slot_inv_clear)

lemma witness_flight_record:
  "record_decoded k c w m s = Some (ok, s') \<Longrightarrow>
   witness_flight s' k' c' = (if k' = k \<and> c' = c then Some w else witness_flight s k' c')"
  by (auto simp: witness_flight_def slot_record record_in_flight_def)

lemma delete_Nil_lookup: "AList.delete c m = [] \<Longrightarrow> c' \<noteq> c \<Longrightarrow> map_of m c' = None"
  by (metis map_of_delete map_of.simps(1))

lemma witness_flight_clear:
  "witness_flight (witness_clear k c s) k' c' = (if k' = k \<and> c' = c then None else witness_flight s k' c')"
  by (auto simp: witness_flight_def slot_witness_clear in_flight_clear dest: delete_Nil_lookup)

lemma slot_quiet:
  "witness_inv s \<Longrightarrow> writers_of (slot k s) = 0 \<longleftrightarrow> (\<forall>c. witness_flight s k c \<noteq> Some True)"
  using count_vals_zero [of "in_flight (slot k s)" we_is_write]
  by (auto simp: witness_inv_def slot_inv_def witness_flight_def)

lemma writers_record:
  "witness_flight s k c = None \<Longrightarrow>
   writers_of (record_in_flight c m w (slot k s)) = writers_of (slot k s) + of_bool w"
  using count_vals_update [of we_is_write c "\<lparr>we_cmd = m, we_is_write = w\<rparr>" "in_flight (slot k s)"]
  by (simp add: record_in_flight_def witness_flight_def)

lemma witness_exact_record:
  "witness_exact s \<Longrightarrow> witness_flight s k c = None \<Longrightarrow> record_decoded k c w m s = Some (ok, s') \<Longrightarrow>
   witness_exact s'"
  by (simp add: witness_exact_def slot_record writers_record) (simp add: record_in_flight_def)

lemma witness_exact_clear: "witness_inv s \<Longrightarrow> witness_exact s \<Longrightarrow> witness_exact (witness_clear k c s)"
  using writers_clear [of "slot k s" c]
  by (auto simp: witness_exact_def witness_inv_def slot_witness_clear in_flight_clear writer_count_clear)

interpretation wit: exact_tracker witness_inv witness_flight record_decoded witness_clear witness_exact
proof unfold_locales
  fix s k c w m s' c'
  assume inv: "witness_inv s" and "record_decoded k c w m s = Some (True, s')"
  then have "writer_count (slot k s) = 0" by (simp add: record_decoded_def)
  then have "writers_of (slot k s) = 0" using inv by (simp add: witness_inv_def slot_inv_def) (metis of_nat_le_0_iff)
  then show "witness_flight s k c' \<noteq> Some True" using slot_quiet [OF inv] by blast
next
  fix s k c w m s'
  assume "witness_inv s" "witness_exact s" "record_decoded k c w m s = Some (False, s')"
  then show "\<exists>c'. witness_flight s k c' = Some True"
    using slot_quiet [of s k] by (auto simp: record_decoded_def witness_exact_def)
qed (simp_all add: witness_inv_record witness_flight_record witness_inv_clear witness_flight_clear
       witness_exact_record witness_exact_clear)


section \<open>Reachable witnesses\<close>

text \<open>
  The witnesses a replica reaches when no command is recorded again while it is in flight:
  attempts, clears (of any command) and resets.
\<close>

inductive fresh_witness :: "curp_witness \<Rightarrow> bool" where
  fw_init: "fresh_witness empty_witness"
| fw_record: "fresh_witness s \<Longrightarrow> record_attempt cmd s = Some (ok, s') \<Longrightarrow>
    (\<forall>k c w. ExtractPoolKeys (Some cmd) = Some (Some (k, c, w)) \<longrightarrow> witness_flight s k c = None) \<Longrightarrow>
    fresh_witness s'"
| fw_clear: "fresh_witness s \<Longrightarrow> clear_attempt cmd s = Some (n, s') \<Longrightarrow> fresh_witness s'"
| fw_reset: "fresh_witness s \<Longrightarrow> fresh_witness (witness_reset s)"

definition witness_counts :: "curp_witness \<Rightarrow> bool" where
  "witness_counts s \<longleftrightarrow> attempt_count s = sum_vals (\<lambda>sl. length (in_flight sl)) (slots s)"

lemma record_attempt_cases:
  assumes "record_attempt cmd s = Some (ok, s')"
  obtains "ExtractPoolKeys (Some cmd) = Some None" "ok" "s' = s"
  | k c w where "ExtractPoolKeys (Some cmd) = Some (Some (k, c, w))" "c \<noteq> -1"
      "record_decoded k c w cmd s = Some (ok, s')"
proof -
  obtain d where d: "ExtractPoolKeys (Some cmd) = Some d"
    using assms by (auto simp: record_attempt_def bind_eq_Some_conv)
  show thesis
  proof (cases d)
    case None
    then show thesis using that(1) assms d by (simp add: record_attempt_def)
  next
    case (Some kcw)
    obtain k c w where "kcw = (k, c, w)" by (cases kcw)
    then show thesis using that(2) [of k c w] assms d Some ExtractPoolKeys_not_sentinel [of "Some cmd" k c w]
      by (simp add: record_attempt_def)
  qed
qed

lemma clear_attempt_cases:
  assumes "clear_attempt cmd s = Some (n, s')"
  shows "s' = s \<or> (\<exists>k c. s' = witness_clear k c s)"
proof -
  obtain d where d: "ExtractPoolKeys (Some cmd) = Some d"
    using assms by (auto simp: clear_attempt_def bind_eq_Some_conv)
  show ?thesis
  proof (cases d)
    case None
    with assms d show ?thesis by (simp add: clear_attempt_def)
  next
    case (Some kcw)
    obtain k c w where "kcw = (k, c, w)" by (cases kcw)
    with Some assms d have "s' = witness_clear k c s" by (simp add: clear_attempt_def witness_clear_def)
    then show ?thesis by blast
  qed
qed

lemma sum_flights_update:
  "sum_vals (\<lambda>sl. length (in_flight sl)) (AList.update k sl (slots s)) + length (in_flight (slot k s))
     = sum_vals (\<lambda>sl. length (in_flight sl)) (slots s) + length (in_flight sl)"
  unfolding slot_def
  using sum_vals_update_default [of "\<lambda>sl. length (in_flight sl)" empty_slot k sl "slots s"] by simp

lemma witness_counts_record:
  assumes "witness_counts s" "witness_flight s k c = None" "record_decoded k c w m s = Some (ok, s')"
  shows "witness_counts s'"
  using assms sum_flights_update [of k "record_in_flight c m w (slot k s)" s]
  by (auto simp: witness_counts_def record_decoded_def record_in_flight_def witness_flight_def
        length_update)

lemma sum_vals_delete:
  "distinct (keys_of m) \<Longrightarrow> sum_vals f (AList.delete k m) + (case map_of m k of Some v \<Rightarrow> f v | None \<Rightarrow> 0)
     = sum_vals f m"
proof (induction m)
  case (Cons e m)
  obtain k' v where e: "e = (k', v)" by (cases e)
  have "AList.delete k' m = m" if "k' \<notin> fst ` set m" using that by (simp add: delete_idem)
  with Cons show ?case by (auto simp: e map_of_eq_None_iff split: option.splits)
qed simp

lemma length_delete_hit:
  "distinct (keys_of m) \<Longrightarrow> map_of m k = Some v \<Longrightarrow> Suc (length (AList.delete k m)) = length m"
  using length_delete [of m k] by (cases m) auto

lemma witness_counts_clear:
  assumes "witness_counts s" "witness_inv s" shows "witness_counts (witness_clear k c s)"
proof (cases "map_of (slots s) k")
  case None
  with assms(1) show ?thesis by (simp add: witness_clear_def clear_decoded_def)
next
  case (Some sl)
  let ?len = "\<lambda>sl. length (in_flight sl)"
  have sl: "slot k s = sl" using Some by (simp add: slot_def at_default_Some)
  have d: "distinct (keys_of (slots s))" "distinct (keys_of (in_flight sl))"
    using assms(2) sl by (auto simp: witness_inv_def slot_inv_def)
  show ?thesis
  proof (cases "map_of (in_flight sl) c")
    case None
    then have "clear_in_flight c sl = (0, sl)" by (simp add: clear_in_flight_def)
    with Some sl assms(1) sum_flights_update [of k sl s] show ?thesis
      by (simp add: witness_clear_def clear_decoded_def witness_counts_def)
  next
    case hit: (Some e)
    obtain sl' where sl': "clear_in_flight c sl = (1, sl')"
      using hit by (simp add: clear_in_flight_def Let_def)
    have len: "Suc (?len sl') = ?len sl"
      using length_delete_hit [OF d(2) hit] in_flight_clear [of c sl] sl' by simp
    have upd: "sum_vals ?len (AList.update k sl' (slots s)) + ?len sl = sum_vals ?len (slots s) + ?len sl'"
      using sum_flights_update [of k sl' s] sl by simp
    have del: "sum_vals ?len (AList.delete k (slots s)) + ?len sl = sum_vals ?len (slots s)"
      using sum_vals_delete [OF d(1), of ?len k] Some by simp
    have "0 < sum_vals ?len (slots s)" using del len by linarith
    with len upd del assms(1) sl' Some show ?thesis
      by (auto simp: witness_clear_def clear_decoded_def witness_counts_def)
  qed
qed

lemma fresh_witness_inv: "fresh_witness s \<Longrightarrow> witness_inv s \<and> witness_exact s \<and> witness_counts s"
proof (induction rule: fresh_witness.induct)
  case fw_init
  have "witness_counts empty_witness" by (simp add: witness_counts_def empty_witness_def)
  then show ?case by (simp add: witness_exact_def)
next
  case (fw_record s cmd ok s')
  from fw_record.hyps(2) show ?case
  proof (cases rule: record_attempt_cases)
    case 1
    with fw_record.IH show ?thesis by simp
  next
    case (2 k c w)
    with fw_record.hyps(3) have "witness_flight s k c = None" by blast
    with 2(3) fw_record.IH show ?thesis
      by (blast intro: witness_inv_record witness_exact_record witness_counts_record)
  qed
next
  case (fw_clear s cmd n s')
  from clear_attempt_cases [OF fw_clear.hyps(2)] fw_clear.IH show ?case
    using witness_inv_clear witness_exact_clear witness_counts_clear by blast
next
  case (fw_reset s)
  have "slot k (witness_reset s) = empty_slot" for k by (simp add: slot_def witness_reset_def)
  moreover have "distinct (keys_of (slots (witness_reset s)))" "witness_counts (witness_reset s)"
    by (simp_all add: witness_reset_def witness_counts_def)
  ultimately show ?case by (simp add: witness_inv_def witness_exact_def)
qed

section \<open>Properties\<close>

text \<open>
  C6. The witness implements the map of attempts in flight: on every witness reached with
  commands that are not recorded twice while in flight, \<^verbatim>\<open>record_attempt\<close> answers true
  exactly when no writer is in flight on the key and then adds the attempt to the abstract
  map, \<^verbatim>\<open>clear_attempt\<close> removes exactly the one attempt, and \<^verbatim>\<open>attempt_count_\<close> is the
  number of attempts in flight.
\<close>

theorem witness_refines_flights:
  assumes "fresh_witness s" "ExtractPoolKeys (Some cmd) = Some (Some (k, c, w))"
  shows "(\<exists>ok s'. record_attempt cmd s = Some (ok, s') \<and> (ok \<longleftrightarrow> (\<forall>d. witness_flight s k d \<noteq> Some True)) \<and>
            witness_flight s' = spec_record k c w (witness_flight s)) \<and>
         (\<exists>n s'. clear_attempt cmd s = Some (n, s') \<and>
            witness_flight s' = spec_clear k c (witness_flight s)) \<and>
         attempt_count s = sum_vals (\<lambda>sl. length (in_flight sl)) (slots s)"
proof -
  note inv = fresh_witness_inv [OF assms(1)]
  obtain ok s' where r: "record_decoded k c w cmd s = Some (ok, s')" by (simp add: record_decoded_def)
  have "witness_flight s' = spec_record k c w (witness_flight s)"
    using witness_flight_record [OF r] by (simp add: spec_record_def fun_eq_iff)
  moreover have "witness_flight (witness_clear k c s) = spec_clear k c (witness_flight s)"
    using witness_flight_clear [of k c s] by (simp add: spec_clear_def fun_eq_iff)
  moreover have "ok \<longleftrightarrow> (\<forall>d. witness_flight s k d \<noteq> Some True)"
    using wit.attempt_iff [OF _ _ r] inv by blast
  moreover have "clear_attempt cmd s = Some (fst (clear_decoded k c s), witness_clear k c s)"
    using assms(2) by (simp add: clear_attempt_def witness_clear_def)
  ultimately show ?thesis
    using r assms(2) inv by (auto simp: record_attempt_def witness_counts_def)
qed

theorem witness_refines_flights_witness:
  "\<exists>s'. record_attempt (example_write 1 1 7 70) empty_witness = Some (True, s') \<and>
        witness_flight s' 7 (CombineInt32 1 1) = Some True"
proof -
  have "witness_flight empty_witness 7 d \<noteq> Some True" for d by (simp add: witness_flight_def)
  with witness_refines_flights [OF fw_init example_write_extract [of 1 1 7 70]]
  obtain s' where "record_attempt (example_write 1 1 7 70) empty_witness = Some (True, s')"
    "witness_flight s' = spec_record 7 (CombineInt32 1 1) True (witness_flight empty_witness)" by auto
  then show ?thesis by (simp add: spec_record_def)
qed

text \<open>
  The seen-set does not survive the last clear: recording one attempt on an idle key and
  clearing it erases the whole slot, so the identifier is no longer known to have been seen,
  although the slot alone (\<^verbatim>\<open>clear_in_flight\<close>) keeps it.
\<close>

theorem witness_forgets_seen:
  assumes "ExtractPoolKeys (Some cmd) = Some (Some (k, c, w))" "map_of (slots s) k = None"
    "record_attempt cmd s = Some (ok, s1)" "clear_attempt cmd s1 = Some (n, s2)"
  shows "n = 1 \<and> has_seen c (snd (clear_in_flight c (slot k s1))) \<and> \<not> has_seen c (slot k s2) \<and>
    map_of (slots s2) k = None"
proof -
  have "slot k s = empty_slot" using assms(2) by (simp add: slot_def at_default_None)
  then have s1: "map_of (slots s1) k = Some (record_in_flight c cmd w empty_slot)"
    using assms(1,3) by (auto simp: record_attempt_def record_decoded_def)
  then have sl: "slot k s1 = record_in_flight c cmd w empty_slot" by (simp add: slot_def at_default_Some)
  have "clear_decoded k c s1 = (n, s2)" using assms(1,4) by (simp add: clear_attempt_def)
  then have "n = 1 \<and> map_of (slots s2) k = None"
    using s1 by (auto simp: clear_decoded_def clear_in_flight_def record_in_flight_def Let_def)
  then show ?thesis
    using sl by (auto simp: has_seen_def slot_def at_default_None clear_in_flight_def
        record_in_flight_def Let_def)
qed

theorem witness_forgets_seen_witness:
  "\<exists>s1 s2. record_attempt (example_write 1 1 7 70) empty_witness = Some (True, s1) \<and>
     clear_attempt (example_write 1 1 7 70) s1 = Some (1, s2) \<and> \<not> has_seen (CombineInt32 1 1) (slot 7 s2)"
proof -
  obtain s1 where s1: "record_attempt (example_write 1 1 7 70) empty_witness = Some (True, s1)"
    by (simp add: record_attempt_def record_decoded_def)
  obtain n s2 where s2: "clear_attempt (example_write 1 1 7 70) s1 = Some (n, s2)"
    by (cases "clear_decoded 7 (CombineInt32 1 1) s1") (simp add: clear_attempt_def)
  from witness_forgets_seen [OF example_write_extract _ s1 s2] s1 s2 show ?thesis
    by (auto simp: empty_witness_def)
qed

end
