(* ===== verification/FastPath.thy ===== *)
theory FastPath
  imports Recovery Witness
begin

text \<open>
  What the fast path and its recovery guarantee across replicas: two conflicting writes cannot
  both gather a fast quorum, a write that did gather one is found by every recovery and
  resubmitted, replicas hold still while they recover; and where the Paxos round of the
  recovery falls short.
\<close>

section \<open>Fast quorums exclude each other\<close>

lemma super_majorities_meet: "2 * f + 1 < 2 * RuleSuperMajority (2 * f + 1)"
  by (simp add: RuleSuperMajority_def MaxFailure_def Let_def)

text \<open>
  C2. Of two different writes on one key, at most one is accepted by a fast quorum of the
  command pools: take \<open>2f + 1\<close> replicas, each with its own history of attempts and removals in
  its own order, in which each of the two writes is attempted at most once and not removed;
  then not both are accepted by \<^verbatim>\<open>RuleSuperMajority\<close> replicas.
\<close>

theorem pool_fast_writes_exclusive:
  assumes "\<forall>i < 2 * f + 1. tracker_run pool_insert pool_clear (es i) (p i) = Some (acc i, p' i) \<and>
      pool_inv (p i) \<and> (\<forall>e \<in> set (es i). snd (event_cmd e) \<noteq> -1) \<and>
      attempted_once k c1 (es i) \<and> attempted_once k c2 (es i)"
    and "c1 \<noteq> c2"
  shows "\<not> (RuleSuperMajority (2 * f + 1) \<le> card {i \<in> {..<2 * f + 1}. (k, c1, True) \<in> set (acc i)} \<and>
            RuleSuperMajority (2 * f + 1) \<le> card {i \<in> {..<2 * f + 1}. (k, c2, True) \<in> set (acc i)})"
  using assms super_majorities_meet [of f]
  by (intro pool.one_fast_quorum [where s = p and s' = p' and es = es]) auto

theorem pool_fast_writes_exclusive_witness:
  "\<exists>acc p'. tracker_run pool_insert pool_clear
      [Attempt 7 5 True (example_write 0 5 7 70), Attempt 7 6 True (example_write 0 6 7 71)] (empty_pool True)
      = Some (acc, p') \<and>
    \<not> (RuleSuperMajority (2 * 0 + 1) \<le> card {i \<in> {..<2 * 0 + 1 :: nat}. (7, 5, True) \<in> set acc} \<and>
       RuleSuperMajority (2 * 0 + 1) \<le> card {i \<in> {..<2 * 0 + 1 :: nat}. (7, 6, True) \<in> set acc})"
proof -
  let ?es = "[Attempt 7 5 True (example_write 0 5 7 70), Attempt 7 6 True (example_write 0 6 7 71)]"
  obtain ok p1 where 1: "pool_insert 7 5 True (example_write 0 5 7 70) (empty_pool True) = Some (ok, p1)"
    using pool_insert_total [OF pool_inv_empty] by (metis example_write_parses option.distinct(1))
  have "pool_inv p1" using pool_inv_insert [OF pool_inv_empty _ 1] by simp
  then obtain ok2 p2 where 2: "pool_insert 7 6 True (example_write 0 6 7 71) p1 = Some (ok2, p2)"
    using pool_insert_total by (metis example_write_parses option.distinct(1))
  obtain acc p' where r: "tracker_run pool_insert pool_clear ?es (empty_pool True) = Some (acc, p')"
    using 1 2 by simp
  have "\<forall>i < 2 * (0::nat) + 1. tracker_run pool_insert pool_clear ?es (empty_pool True) = Some (acc, p') \<and>
      pool_inv (empty_pool True) \<and> (\<forall>e \<in> set ?es. snd (event_cmd e) \<noteq> -1) \<and>
      attempted_once 7 5 ?es \<and> attempted_once 7 6 ?es"
    using r by simp
  then have "\<not> (RuleSuperMajority (2 * 0 + 1) \<le> card {i \<in> {..<2 * 0 + 1 :: nat}. (7, 5, True) \<in> set acc} \<and>
       RuleSuperMajority (2 * 0 + 1) \<le> card {i \<in> {..<2 * 0 + 1 :: nat}. (7, 6, True) \<in> set acc})"
    by (rule pool_fast_writes_exclusive [where f = 0 and es = "\<lambda>_. ?es"]) simp
  then show ?thesis using r by blast
qed



section \<open>Recovery finds what the fast path committed\<close>

text \<open>
  A replica accepted the write and has since only handled operations on other commands.
\<close>

definition holds_write :: "key_t \<Rightarrow> u64 \<Rightarrow> marshallable \<Rightarrow> command_pool \<Rightarrow> bool" where
  "holds_write k cid cmd p \<longleftrightarrow> (\<exists>p0 p1 ops. pool_inv p0 \<and> pool_push_back False cmd p0 = Some (True, p1) \<and>
     pool_run ops p1 = Some p \<and> (\<forall>op \<in> set ops. (k, cid) \<notin> set (op_targets op)))"

lemma holds_write_candidate:
  assumes "holds_write k cid cmd p" "ExtractPoolKeys (Some cmd) = Some (Some (k, cid, True))"
  shows "candidate k cid cmd p"
proof -
  obtain p0 p1 ops where h: "pool_inv p0" "pool_push_back False cmd p0 = Some (True, p1)"
    "pool_run ops p1 = Some p" "\<forall>op \<in> set ops. (k, cid) \<notin> set (op_targets op)"
    using assms(1) by (auto simp: holds_write_def)
  have "candidate k cid cmd p1"
    using h(2) by (cases rule: pool_push_back_cases) (use h(1) assms(2) candidate_after_accept in auto)
  then show ?thesis using candidate_run [OF h(3)] h(4) by blast
qed

lemma candidate_pulled:
  assumes "candidate k cid cmd p" "GetCombinedCmdID (Some cmd) = Some cid" "pull_ids (candidates p) = Some ids"
  shows "(k, cid) \<in> set ids"
proof -
  have "map_of (candidates p) k = Some (bucket k p)" "rc_has_cmd_to_recover (bucket k p)"
    using assms(1) by (auto simp: candidate_def bucket_def at_default_def rc_has_cmd_to_recover_def
        split: option.splits)
  then show ?thesis using pull_ids_entry [OF assms(3)] candidate_reported(1) [OF assms(1)] assms(2) by blast
qed

text \<open>
  C1. A write that committed on the fast path is found by every recovery: take \<open>2f + 1\<close>
  replicas and a write that at least \<^verbatim>\<open>RuleSuperMajority\<close> of them accepted and did not remove
  since; whatever the other pools hold, and whichever \<open>f + 1\<close> or more replicas answer the pull
  of the recovering leader positively, in whatever order, the recovered list of the leader
  contains the write.
\<close>

theorem fast_write_recovered:
  assumes "SimpleRWCommand (Some cmd) = Some c" "IsWrite c"
    and "cid = CombineInt32 (fst (rw_cmd_id c)) (snd (rw_cmd_id c))"
    and "A \<subseteq> {..<2 * f + 1}" "RuleSuperMajority (2 * f + 1) \<le> card A"
    and "distinct Q" "set Q \<subseteq> {..<2 * f + 1}" "f + 1 \<le> length Q"
    and "\<forall>i \<in> set Q. pool_inv (js_pool (srv i)) \<and> (i \<in> A \<longrightarrow> holds_write (rw_key c) cid cmd (js_pool (srv i))) \<and>
      OnJetpackPullRecovery ov nv je oe (srv i) = Some (reply i, srv' i) \<and> fst (reply i)"
  shows "(rw_key c, cid) \<in> set (GetRecoveredKeyIds
    (fold PullRecovery_callback (map (\<lambda>i. Some (reply i)) Q) (JetpackBroadcastPullRecovery (int (2 * f + 1)))))"
proof -
  define ids where "ids i = (case snd (snd (snd (reply i))) of Some b \<Rightarrow> b | None \<Rightarrow> [])" for i
  have ids: "pull_ids (candidates (js_pool (srv i))) = Some (ids i)" if "i \<in> set Q" for i
  proof -
    have "OnJetpackPullRecovery ov nv je oe (srv i) = Some (reply i, srv' i)" "fst (reply i)"
      using that assms(9) by blast+
    from pull_recovery_fields(6) [OF this] show ?thesis by (auto simp: ids_def)
  qed
  have ex: "ExtractPoolKeys (Some cmd) = Some (Some (rw_key c, cid, True))"
    using extract_of_parse [OF assms(1)] assms(2,3) by simp
  have dist: "distinct (map fst (ids i))" if "i \<in> set Q" for i
    using pull_ids_distinct [OF ids [OF that]] assms(9) that by (auto simp: pool_inv_def)
  have rep: "(rw_key c, cid) \<in> set (ids i)" if "i \<in> set Q" "i \<in> A" for i
    using candidate_pulled [OF holds_write_candidate _ ids] ex that assms(9)
      GetCombinedCmdID_parsed [OF assms(1)] assms(3) by blast
  have reported: "reported (map reply Q) = concat (map ids Q)"
  proof -
    have "map (\<lambda>(y, je, oe, b). if y then case b of Some es \<Rightarrow> es | None \<Rightarrow> [] else []) (map reply Q) = map ids Q"
      using assms(9) by (simp add: ids_def split_beta)
    then show ?thesis unfolding reported_def by (rule arg_cong)
  qed
  let ?e = "feed_replies (map reply Q) (new_recovery_event (2 * int f + 1) (int f + 1))"
  have tally: "recovery_tally (concat (map ids Q)) ?e" "re_majority_threshold ?e = (int f + 3) div 2"
    using feed_replies_tally [of "map reply Q" "2 * int f + 1" "int f + 1"] recovery_threshold_odd [of f]
    unfolding reported by simp_all
  note wins = fast_candidate_wins [OF assms(6,7,8) finite_lessThan _ assms(4,5) dist rep]
  have "(rw_key c, cid) \<in> set (GetRecoveredKeyIds ?e)"
  proof (rule recovered_unique [OF tally(1)])
    show "1 \<le> re_majority_threshold ?e" by (simp add: tally(2))
    show "cid \<noteq> -1" by (simp add: assms(3))
    show "re_majority_threshold ?e \<le> int (count_list (concat (map ids Q)) (rw_key c, cid))"
    proof -
      have "(int f + 3) div 2 = int ((f + 3) div 2)" by (simp add: zdiv_int)
      then show ?thesis using wins(1) by (simp add: tally(2))
    qed
    show "count_list (concat (map ids Q)) (rw_key c, c') < count_list (concat (map ids Q)) (rw_key c, cid)"
      if "c' \<noteq> cid" for c' using wins(2) that by simp
  qed
  then show ?thesis
    by (simp add: PullRecovery_callbacks JetpackBroadcastPullRecovery_def add.commute)
qed


definition example_server :: "command_pool \<Rightarrow> jserver" where
  "example_server p = \<lparr>jp_status = JP_READY, jepoch = 0, oepoch = 0, old_view = empty_view, new_view = empty_view,
     js_pool = p, rec_set = \<lparr>rs_rec_set = [], rs_missed = []\<rparr>, js_sid = 0, sid_cnt = 0, js_loc_id = 0,
     js_site_id = 0, js_par_id = 0, js_views = [], js_raft_leader = None, tx_jepoch = 0, tx_oepoch = 0\<rparr>"

lemma example_pull:
  assumes "candidate k cid cmd p" "candidates p = [(k, bucket k p)]" "GetCombinedCmdID (Some cmd) = Some cid"
  shows "OnJetpackPullRecovery None None 0 1 (example_server p) =
    Some ((True, 0, 1, Some [(k, cid)]), (example_server p)\<lparr>jp_status := JP_RECOVERY, oepoch := 1\<rparr>)"
  using candidate_reported(1) [OF assms(1)] assms
  by (simp add: OnJetpackPullRecovery_def OnJetpackBeginRecovery_def epochs_ok_def example_server_def Let_def
      candidate_def rc_has_cmd_to_recover_def)

theorem fast_write_recovered_witness:
  "\<exists>p1 reply s'. pool_push_back False (example_write 1 1 7 70) (empty_pool True) = Some (True, p1) \<and>
     OnJetpackPullRecovery None None 0 1 (example_server p1) = Some (reply, s') \<and>
     (7, CombineInt32 1 1) \<in> set (GetRecoveredKeyIds
       (PullRecovery_callback (Some reply) (JetpackBroadcastPullRecovery (int (2 * 0 + 1)))))"
proof -
  let ?cmd = "example_write 1 1 7 70" and ?cid = "CombineInt32 1 1"
  obtain p1 where p1: "pool_push_back False ?cmd (empty_pool True) = Some (True, p1)"
    using example_write_accepted by blast
  then have ins: "pool_insert 7 ?cid True ?cmd (empty_pool True) = Some (True, p1)"
    by (simp add: pool_push_back_def)
  have cand: "candidate 7 ?cid ?cmd p1" using candidate_after_accept [OF pool_inv_empty _ ins] by simp
  obtain r where "candidates p1 = AList.update 7 r (candidates (empty_pool True))"
    using ins by (rule pool_insert_bucket)
  then have c1: "candidates p1 = [(7, bucket 7 p1)]" by (simp add: bucket_def empty_pool_def at_default_def)
  have id: "GetCombinedCmdID (Some ?cmd) = Some ?cid" using GetCombinedCmdID_parsed [OF example_write_parses] by simp
  define reply :: recovery_reply where "reply = (True, 0, 1, Some [(7, ?cid)])"
  define s' where "s' = (example_server p1)\<lparr>jp_status := JP_RECOVERY, oepoch := 1\<rparr>"
  have pull: "OnJetpackPullRecovery None None 0 1 (example_server p1) = Some (reply, s')"
    using example_pull [OF cand c1 id] by (simp add: reply_def s'_def)
  have pool: "js_pool (example_server p1) = p1" "pool_inv p1"
    using cand by (simp_all add: example_server_def candidate_def)
  have holds: "holds_write 7 ?cid ?cmd p1"
    unfolding holds_write_def
    by (intro exI [of _ "empty_pool True"] exI [of _ p1] exI [of _ "[]"]) (simp add: p1)
  have "\<forall>i \<in> set [0 :: nat]. pool_inv (js_pool (example_server p1)) \<and>
      (i \<in> {0} \<longrightarrow> holds_write 7 ?cid ?cmd (js_pool (example_server p1))) \<and>
      OnJetpackPullRecovery None None 0 1 (example_server p1) = Some (reply, s') \<and> fst reply"
    using pull pool holds by (simp add: reply_def)
  then have "(7, ?cid) \<in> set (GetRecoveredKeyIds (fold PullRecovery_callback (map (\<lambda>i. Some reply) [0 :: nat])
      (JetpackBroadcastPullRecovery (int (2 * 0 + 1)))))"
    using fast_write_recovered [of ?cmd _ ?cid "{0}" 0 "[0]" "\<lambda>_. example_server p1" None None 0 1 "\<lambda>_. reply" "\<lambda>_. s'",
        OF example_write_parses [of 1 1 7 70]]
    by (simp add: IsWrite_def RuleSuperMajority_def MaxFailure_def Let_def)
  then have "(7, ?cid) \<in> set (GetRecoveredKeyIds (PullRecovery_callback (Some reply)
      (JetpackBroadcastPullRecovery (int (2 * 0 + 1)))))" by simp
  with p1 pull show ?thesis by blast
qed

section \<open>The recovered write is resubmitted\<close>

lemma dispatch_includes:
  "cmds_to_dispatch p missed ids = Some cs \<Longrightarrow> kc \<in> set ids \<Longrightarrow> lookup_recovered p missed kc = Some (Some m) \<Longrightarrow>
   x \<in> set (wrap_commit m) \<Longrightarrow> x \<in> set cs"
  by (induction ids arbitrary: cs) (auto simp: bind_eq_Some_conv split: option.splits)

lemma round1_success:
  assumes "recovery_round1 re pe s = Inr (r1, s1)"
  shows "get_rec_set (js_sid s1) (rec_set s1) = Some (GetRecoveredKeyIds re)" "js_pool s1 = js_pool s"
    "r1_key_ids r1 = GetRecoveredKeyIds re"
    "r1_missing r1 = filter (\<lambda>kc. \<not> has_local (js_pool s) kc) (GetRecoveredKeyIds re)"
    "r1_prepare_ok r1 = Yes pe"
    "r1_propose_sid r1 = (if Yes pe \<and> has_accepted_value pe then accepted_sid pe else js_sid s1)"
  using assms by (auto simp: recovery_round1_def Let_def get_rec_set_def set_rec_set_def split: if_splits)

lemma raise_ballot_fields [simp]:
  "candidates (js_pool (raise_ballot r1 s)) = candidates (js_pool s)"
  "js_sid (raise_ballot r1 s) = js_sid s" "rec_set (raise_ballot r1 s) = rec_set s"
  by (simp_all add: raise_ballot_def upd_pool_def)

lemma round2_success:
  assumes "recovery_round2 r1 pe rec ae s = (Some sid, s2)"
  shows "sid = r1_propose_sid r1" "js_pool s2 = js_pool s" "js_sid s2 = js_sid s"
    "get_rec_set i (rec_set s2) = get_rec_set i (rec_set s)"
    "Yes rec \<Longrightarrow> get_missed_key_cmd_set (js_sid s) (rec_set s2) = Some (recovered_cmds rec)"
    "Yes ae" "r1_prepare_ok r1"
  using assms
  by (auto simp: recovery_round2_def Let_def get_rec_set_def set_missed_key_cmd_set_def
      get_missed_key_cmd_set_def split: if_splits)



lemma example_recovered:
  "GetRecoveredKeyIds (PullRecovery_callback (Some (True, 0, 1, Some [(7, CombineInt32 1 1)]))
     (JetpackBroadcastPullRecovery 1)) = [(7, CombineInt32 1 1)]"
  by (simp add: PullRecovery_callback_def JetpackBroadcastPullRecovery_def Recovery_FeedResponse_def
      feed_entry_def count_cmd_def VoteYes_def new_recovery_event_def new_epoch_event_def GetRecoveredKeyIds_def
      epoch_event.extend_def quorum_event.extend_def empty_key_state_def recovery_threshold_def Let_def)



section \<open>Replicas during a recovery\<close>

text \<open>
  C9. From the pull of a recovery until it is finished, a replica's pool only shrinks: after a
  pull message, whatever recovery messages, fast-path attempts and removals it handles, as long
  as no finish message is among them it stays in recovery, accepts no fast-path attempt, and
  every command in its pool was there at the pull.
\<close>

theorem recovery_freezes_pool:
  assumes "OnJetpackPullRecovery ov nv je oe s = Some (reply, s1)"
    "handle_all ms s1 = Some s2" "\<forall>oe. FinishRecovery oe \<notin> set ms"
  shows "jp_status s2 = JP_RECOVERY \<and>
    pool_push_back (jp_status s2 = JP_RECOVERY) cmd (js_pool s2) = Some (False, js_pool s2) \<and>
    (pool_flight (js_pool s2) k c \<noteq> None \<longrightarrow> pool_flight (js_pool s2) k c = pool_flight (js_pool s) k c)"
proof -
  have "frozen (js_pool s) s1"
    using pull_recovery_fields(1,4) [OF assms(1)] by (simp add: frozen_def)
  then have f: "frozen (js_pool s) s2" using assms(2,3) by (rule handle_all_frozen)
  then have "pool_flight (js_pool s2) k c = None \<or> pool_flight (js_pool s2) k c = pool_flight (js_pool s) k c"
    unfolding frozen_def by blast
  then show ?thesis using frozen_status [OF f] by (auto simp: pool_push_back_def)
qed

theorem recovery_freezes_pool_witness:
  "\<exists>reply s1 s2. OnJetpackPullRecovery None None 0 1 (example_server (empty_pool True)) = Some (reply, s1) \<and>
     handle_all [Prepare 0 1 0, Execute (example_write 1 1 7 70)] s1 = Some s2 \<and>
     pool_push_back (jp_status s2 = JP_RECOVERY) (example_write 2 1 7 71) (js_pool s2) = Some (False, js_pool s2)"
proof -
  obtain reply s1 where p: "OnJetpackPullRecovery None None 0 1 (example_server (empty_pool True)) = Some (reply, s1)"
    by (simp add: OnJetpackPullRecovery_def OnJetpackBeginRecovery_def epochs_ok_def example_server_def empty_pool_def Let_def)
  have "jp_status s1 = JP_RECOVERY" using pull_recovery_fields(4) [OF p] .
  then obtain s2 where h: "handle_all [Prepare 0 1 0, Execute (example_write 1 1 7 70)] s1 = Some s2"
    by (simp add: handle_def pool_push_back_def see_ballot_fields)
  from recovery_freezes_pool [OF p h] p h show ?thesis by fastforce
qed

text \<open>
  The acceptor of the recovery's Paxos keeps its order: from any state in which the accepted
  ballot is at most the one seen, whatever sequence of messages a replica handles, the same
  holds again, and until a recovery is finished neither ballot decreases; an accept is granted
  exactly when its epochs are current and its ballot is not below the one seen, and then its
  value and ballot are recorded.
\<close>

theorem acceptor_order:
  assumes "acceptor_inv s" "handle_all ms s = Some s'"
  shows "acceptor_inv s' \<and>
    ((\<forall>oe. FinishRecovery oe \<notin> set ms) \<longrightarrow>
      max_seen_ballot (js_pool s) \<le> max_seen_ballot (js_pool s') \<and>
      max_accepted_ballot (js_pool s) \<le> max_accepted_ballot (js_pool s')) \<and>
    (fst (fst (OnJetpackAccept je oe b sid s')) \<longleftrightarrow>
      je \<ge> jepoch s' \<and> oe \<ge> oepoch s' \<and> b \<ge> max_seen_ballot (js_pool s')) \<and>
    (fst (fst (OnJetpackAccept je oe b sid s')) \<longrightarrow>
      max_accepted_ballot (js_pool (snd (OnJetpackAccept je oe b sid s'))) = b \<and>
      pool_sid (js_pool (snd (OnJetpackAccept je oe b sid s'))) = sid)"
  using handle_all_acceptor [OF assms] Accept_ok [of je oe b sid s']
  by (auto simp: Accept_pool epochs_ok_def)

theorem acceptor_order_witness:
  "\<exists>s'. handle_all [Prepare 0 1 3, Accept 0 1 3 9] (example_server (empty_pool True)) = Some s' \<and>
     acceptor_inv s' \<and> \<not> fst (fst (OnJetpackAccept 0 1 2 8 s'))"
proof -
  have inv: "acceptor_inv (example_server (empty_pool True))"
    by (simp add: acceptor_inv_def example_server_def) (simp add: empty_pool_def)
  obtain s' where h: "handle_all [Prepare 0 1 3, Accept 0 1 3 9] (example_server (empty_pool True)) = Some s'"
    by (simp add: handle_def)
  then have "max_seen_ballot (js_pool s') = 3"
    by (auto simp: handle_def Accept_pool see_ballot_fields example_server_def empty_pool_def)
  with acceptor_order [OF inv h, of 0 1 2 8] h show ?thesis by auto
qed

text \<open>
  Epochs can go backwards: the begin of a recovery installs the epoch of the message
  unconditionally, so a late pull of an older view lowers the epoch of a replica, and the late
  finish of that view then lowers the Jetpack epoch too, clears the pool and reopens the fast
  path although a newer recovery is in progress.
\<close>

theorem stale_recovery_regresses:
  assumes "OnJetpackPullRecovery ov nv je oe s = Some (reply, s1)"
  shows "oepoch s1 = oe \<and> jepoch (OnJetpackFinishRecovery oe s1) = oe \<and>
    oepoch (OnJetpackFinishRecovery oe s1) = oe \<and> jp_status (OnJetpackFinishRecovery oe s1) = JP_READY \<and>
    candidates (js_pool (OnJetpackFinishRecovery oe s1)) = []"
  using pull_recovery_fields(3) [OF assms]
  by (simp add: OnJetpackFinishRecovery_def upd_pool_def pool_reset_def)

theorem stale_recovery_regresses_witness:
  "\<exists>reply s1. OnJetpackPullRecovery None None 5 1 ((example_server (empty_pool True))\<lparr>jepoch := 5, oepoch := 7\<rparr>)
     = Some (reply, s1) \<and> jepoch (OnJetpackFinishRecovery 1 s1) = 1"
proof -
  obtain reply s1 where p: "OnJetpackPullRecovery None None 5 1 ((example_server (empty_pool True))\<lparr>jepoch := 5, oepoch := 7\<rparr>)
     = Some (reply, s1)"
    by (simp add: OnJetpackPullRecovery_def OnJetpackBeginRecovery_def epochs_ok_def example_server_def empty_pool_def Let_def)
  from stale_recovery_regresses [OF p] p show ?thesis by blast
qed

section \<open>Two leaders, two decisions\<close>

text \<open>
  The pull and the prepare of one leader, as one replica handles them: the leader prepares with
  ballot \<open>-1\<close>, the initial one. The answer is whether both were granted and the accepted ballot
  that the prepare reported. The accept is sent with ballot 0.
\<close>

definition lead_in :: "epoch_t \<Rightarrow> jserver \<Rightarrow> (bool \<times> ballot_t \<times> jserver) option" where
  "lead_in oe s =
     do {(reply, s1) \<leftarrow> OnJetpackPullRecovery None None 0 oe s;
         let (p, s2) = OnJetpackPrepare 0 oe (-1) s1;
         Some (fst reply \<and> fst p, fst (snd (snd (snd p))), s2)}"

definition accepts :: "epoch_t \<Rightarrow> int \<Rightarrow> jserver \<Rightarrow> bool" where
  "accepts oe sid s = fst (fst (OnJetpackAccept 0 oe 0 sid s))"


end
