(* ===== verification/Raft.thy ===== *)
theory Raft
  imports Command View Quorum
begin

text \<open>
  The Raft server of \<^verbatim>\<open>raft/server.h\<close> and \<^verbatim>\<open>raft/server.cc\<close>, compiled with batching and
  pipelining (the settings of \<^verbatim>\<open>constants.h\<close>): log, elections, replication, commit, read
  leases, and the decision of \<^verbatim>\<open>CoordinatorRaft::Submit\<close>. Terms and indices are 64-bit
  counters that only move up by small steps and are \<open>nat\<close> here; clock readings are arguments.
  A batch is the list of its commands with their terms. The server is past its initialisation:
  frame and communicator are set, so failover is on. \<^verbatim>\<open>app_next_\<close> and the garbage
  collection of the command pool are called once per applied command, in order: the field
  \<open>applied\<close> is that sequence. Replication events, locks, log lines and the fields kept "for
  retries" that nothing reads are left out; the snapshot index and term are 0 throughout.
\<close>

section \<open>State\<close>

record raft_entry =
  re_term :: nat
  re_log :: "marshallable option"

record raft_cfg =
  cfg_curp :: bool
  cfg_rule :: bool

record raft_server =
  r_site :: u16
  r_loc :: u16
  r_par :: u32
  r_n :: nat
  r_followers :: "u16 list"
  match_index :: "(u16 \<times> nat) list"
  next_index :: "(u16 \<times> nat) list"
  sent_index :: "(u16 \<times> nat) list"
  in_flight_count :: "(u16 \<times> nat) list"
  is_leader :: bool
  vote_for :: u16
  cur_term :: nat
  last_log :: nat
  commit_index :: nat
  exec_index :: nat
  raft_logs :: "(nat \<times> raft_entry) list"
  min_active :: nat
  r_old_view :: view
  r_new_view :: view
  r_views :: partition_views
  last_heartbeat :: int
  last_ae_send :: "(u16 \<times> int) list"
  lease_expires :: int
  leader_warmup :: int
  recovery_pending :: bool
  req_voting :: bool
  init_done :: bool
  post_done :: bool
  failure_seen :: bool
  applied :: "marshallable list"

section \<open>The log\<close>

definition no_entry :: raft_entry where
  "no_entry = \<lparr>re_term = 0, re_log = None\<rparr>"

text \<open>\<^verbatim>\<open>GetRaftInstance\<close> creates a missing instance; below the active slots it aborts.\<close>

definition entry :: "nat \<Rightarrow> raft_server \<Rightarrow> raft_entry" where
  "entry i s = at_default no_entry (raft_logs s) i"

definition GetRaftInstance :: "nat \<Rightarrow> raft_server \<Rightarrow> (raft_entry \<times> raft_server) option" where
  "GetRaftInstance i s =
     do {vrfy (i \<ge> min_active s \<or> i = 0);
         Some (entry i s, s\<lparr>raft_logs := AList.update i (entry i s) (raft_logs s)\<rparr>)}"

definition put_entry :: "nat \<Rightarrow> nat \<Rightarrow> marshallable \<Rightarrow> raft_server \<Rightarrow> raft_server option" where
  "put_entry i t m s =
     do {(_, s1) \<leftarrow> GetRaftInstance i s;
         Some (s1\<lparr>raft_logs := AList.update i \<lparr>re_term = t, re_log = Some m\<rparr> (raft_logs s1)\<rparr>)}"

text \<open>The term of a slot of the log as the handlers read it, 0 outside the log.\<close>

definition term_at :: "nat \<Rightarrow> raft_server \<Rightarrow> (nat \<times> raft_server) option" where
  "term_at i s = (if i > 0 \<and> i \<le> last_log s
                  then do {(e, s1) \<leftarrow> GetRaftInstance i s; Some (re_term e, s1)} else Some (0, s))"

definition SetLocalAppend :: "marshallable \<Rightarrow> raft_server \<Rightarrow> (nat \<times> nat \<times> raft_server) option" where
  "SetLocalAppend cmd s =
     do {let old = last_log s;
         s1 \<leftarrow> put_entry (old + 1) (cur_term s) cmd (s\<lparr>last_log := old + 1\<rparr>);
         Some (cur_term s, old, s1)}"

definition Start :: "marshallable \<Rightarrow> raft_server \<Rightarrow> (bool \<times> nat \<times> nat \<times> raft_server) option" where
  "Start cmd s =
     (if \<not> is_leader s then Some (False, 0, 0, s)
      else do {(t, i, s1) \<leftarrow> SetLocalAppend cmd s;
               vrfy (last_log s1 = i + 1);
               Some (True, last_log s1, t, s1)})"

section \<open>Becoming leader and follower\<close>

abbreviation read_lease_us :: int where "read_lease_us \<equiv> 250000"

definition TriggerJetpackRecovery :: "raft_cfg \<Rightarrow> raft_server \<Rightarrow> raft_server" where
  "TriggerJetpackRecovery cfg s =
     (if cfg_curp cfg then s else if \<not> cfg_rule cfg then s else s\<lparr>recovery_pending := True\<rparr>)"

text \<open>The reset of the leader's view of its followers, done twice by \<^verbatim>\<open>setIsLeader\<close>.\<close>

definition reset_followers :: "raft_server \<Rightarrow> raft_server option" where
  "reset_followers s0 =
     do {let s = s0\<lparr>match_index := fold (\<lambda>f. AList.update f 0) (r_followers s0) (match_index s0),
                   next_index := fold (\<lambda>f. AList.update f (last_log s0 + 1)) (r_followers s0) (next_index s0),
                   sent_index := fold (\<lambda>f. AList.update f (last_log s0)) (r_followers s0) (sent_index s0),
                   in_flight_count := fold (\<lambda>f. AList.update f 0) (r_followers s0) (in_flight_count s0)\<rparr>;
         vrfy (length (match_index s) = r_n s - 1);
         vrfy (length (next_index s) = r_n s - 1);
         Some s}"

definition setIsLeader :: "raft_cfg \<Rightarrow> int \<Rightarrow> bool \<Rightarrow> raft_server \<Rightarrow> raft_server option" where
  "setIsLeader cfg now lead s0 =
     do {s1 \<leftarrow> (if lead then reset_followers s0 else Some s0);
         let become_new_leader = (lead \<and> \<not> is_leader s1);
         let become_new_follower = (\<not> lead \<and> is_leader s1);
         let s2 = s1\<lparr>is_leader := lead\<rparr>;
         let s3 = (if become_new_leader
                   then s2\<lparr>last_ae_send := [], lease_expires := 0, leader_warmup := now + read_lease_us\<rparr>
                   else if become_new_follower
                   then s2\<lparr>last_ae_send := [], lease_expires := 0, leader_warmup := 0\<rparr>
                   else s2);
         let s4 = (if become_new_leader \<and> r_par s3 \<noteq> - 1
                   then (let v = mk_view (word_of_int now) (int (r_n s3)) [uint (r_site s3)] (word_of_nat (cur_term s3))
                         in TriggerJetpackRecovery cfg
                              (s3\<lparr>r_old_view := r_new_view s3, r_new_view := v,
                                  r_views := UpdatePartitionView (r_par s3) (Some v) (r_views s3)\<rparr>))
                   else s3);
         if lead then reset_followers s4 else Some s4}"

section \<open>Elections\<close>

definition resetTimer :: "int \<Rightarrow> raft_server \<Rightarrow> raft_server" where
  "resetTimer now s = s\<lparr>last_heartbeat := now\<rparr>"

text \<open>The answer of \<^verbatim>\<open>doVote\<close> is the vote and the term before it is raised.\<close>

definition doVote :: "raft_cfg \<Rightarrow> int \<Rightarrow> u16 \<Rightarrow> nat \<Rightarrow> bool \<Rightarrow> raft_server \<Rightarrow> ((bool \<times> nat) \<times> raft_server) option" where
  "doVote cfg now can_id can_term vote s =
     do {let s1 = (if can_term > cur_term s then s\<lparr>cur_term := can_term\<rparr> else s);
         s2 \<leftarrow> (if vote
               then do {s2 \<leftarrow> setIsLeader cfg now False s1; Some (resetTimer now (s2\<lparr>vote_for := can_id\<rparr>))}
               else Some s1);
         Some ((vote, cur_term s), s2)}"

definition OnRequestVote ::
  "raft_cfg \<Rightarrow> int \<Rightarrow> nat \<Rightarrow> nat \<Rightarrow> u16 \<Rightarrow> nat \<Rightarrow> raft_server \<Rightarrow> ((bool \<times> nat) \<times> raft_server) option" where
  "OnRequestVote cfg now lst_idx lst_term can_id can_term s =
     (if can_term < cur_term s then doVote cfg now can_id can_term False s
      else if can_term = cur_term s then doVote cfg now can_id can_term False s
      else do {(t, s1) \<leftarrow> term_at (last_log s) s;
               doVote cfg now can_id can_term (lst_term > t \<or> lst_term = t \<and> lst_idx \<ge> last_log s) s1})"

text \<open>
  \<^verbatim>\<open>RequestVote\<close> up to the broadcast: gated to one initial and one post-failure election, with
  the signal files as arguments. The answer is the request sent, if any.
\<close>

definition RefreshElectionSignals :: "bool \<Rightarrow> bool \<Rightarrow> bool \<Rightarrow> raft_server \<Rightarrow> raft_server" where
  "RefreshElectionSignals failure_file init_file post_file s =
     s\<lparr>failure_seen := failure_seen s \<or> failure_file, init_done := init_done s \<or> init_file,
       post_done := post_done s \<or> post_file\<rparr>"

definition MarkElectionDone :: "bool \<Rightarrow> raft_server \<Rightarrow> raft_server" where
  "MarkElectionDone after_failure s = (if after_failure then s\<lparr>post_done := True\<rparr> else s\<lparr>init_done := True\<rparr>)"

definition RequestVote_start ::
  "int \<Rightarrow> bool \<times> bool \<times> bool \<Rightarrow> raft_server \<Rightarrow> ((nat \<times> nat \<times> u16 \<times> nat) option \<times> raft_server) option" where
  "RequestVote_start now files s0 =
     (let s = (case files of (failed, first, post) \<Rightarrow> RefreshElectionSignals failed first post s0) in
      if \<not> failure_seen s \<and> init_done s \<or> failure_seen s \<and> post_done s
      then Some (None, resetTimer now (s\<lparr>req_voting := False\<rparr>))
      else let s1 = s\<lparr>cur_term := cur_term s + 1\<rparr> in
           if last_log s1 = 0 then Some (Some (0, 0, r_loc s1, cur_term s1), s1)
           else do {(e, s2) \<leftarrow> GetRaftInstance (last_log s1) s1;
                    Some (Some (last_log s2, re_term e, r_loc s2, cur_term s2), s2)})"

text \<open>The votes of the other sites are collected in a quorum event of \<open>n div 2\<close> votes.\<close>

record vote_event = quorum_event +
  highest_term :: nat

definition new_vote_event :: "int \<Rightarrow> vote_event" where
  "new_vote_event n = quorum_event.extend (new_quorum_event n (n div 2)) \<lparr>highest_term = 0\<rparr>"

definition Vote_FeedResponse :: "bool \<Rightarrow> nat \<Rightarrow> vote_event \<Rightarrow> vote_event" where
  "Vote_FeedResponse y t e =
     (if y then VoteYes e
      else let e' = VoteNo e in if t > highest_term e' then e'\<lparr>highest_term := t\<rparr> else e')"

text \<open>And after the wait, with the term of the request and the event as it is then.\<close>

definition RequestVote_finish ::
  "raft_cfg \<Rightarrow> int \<Rightarrow> bool \<Rightarrow> nat \<Rightarrow> vote_event \<Rightarrow> raft_server \<Rightarrow> (bool \<times> raft_server) option" where
  "RequestVote_finish cfg now after_failure term q s =
     (if Yes q
      then do {vrfy (cur_term s \<ge> term);
               if term \<noteq> cur_term s then Some (False, s\<lparr>req_voting := False\<rparr>)
               else do {s1 \<leftarrow> setIsLeader cfg now True s;
                        if is_leader s1
                        then Some (True, (TriggerJetpackRecovery cfg (MarkElectionDone after_failure s1))\<lparr>req_voting := False\<rparr>)
                        else do {s2 \<leftarrow> setIsLeader cfg now False s1; Some (False, s2\<lparr>req_voting := False\<rparr>)}}}
      else do {no \<leftarrow> No q;
               if no
               then do {s1 \<leftarrow> setIsLeader cfg now False s;
                        let s2 = (if highest_term q > cur_term s1 then s1\<lparr>cur_term := highest_term q\<rparr> else s1);
                        Some (False, s2\<lparr>req_voting := False\<rparr>)}
               else Some (False, s\<lparr>req_voting := False\<rparr>)})"

section \<open>Applying the log\<close>

text \<open>The cast to \<^verbatim>\<open>TpcCommitCommand\<close>.\<close>

definition as_commit :: "marshallable option \<Rightarrow> marshallable option" where
  "as_commit m = (case m of Some (CMD_TPC_COMMIT tx c) \<Rightarrow> m | _ \<Rightarrow> None)"

text \<open>\<open>None\<close> when the slot has no instance (a null pointer is dereferenced).\<close>

definition removeCmd :: "nat \<Rightarrow> raft_server \<Rightarrow> raft_server option" where
  "removeCmd i s =
     do {e \<leftarrow> map_of (raft_logs s) i;
         Some (if as_commit (re_log e) = None then s else s\<lparr>raft_logs := AList.delete i (raft_logs s)\<rparr>)}"

fun apply_steps :: "nat \<Rightarrow> raft_server \<Rightarrow> raft_server option" where
  "apply_steps 0 s = Some s"
| "apply_steps (Suc n) s =
     do {(e, s1) \<leftarrow> GetRaftInstance (exec_index s + 1) s;
         case re_log e of
           None \<Rightarrow> Some s1
         | Some m \<Rightarrow> apply_steps n (s1\<lparr>exec_index := exec_index s1 + 1, applied := applied s1 @ [m]\<rparr>)}"

fun trim_steps :: "nat \<Rightarrow> raft_server \<Rightarrow> raft_server option" where
  "trim_steps 0 s = Some s"
| "trim_steps (Suc n) s =
     do {s1 \<leftarrow> removeCmd (min_active s) s; trim_steps n (s1\<lparr>min_active := min_active s + 1\<rparr>)}"

definition applyLogs :: "raft_server \<Rightarrow> raft_server option" where
  "applyLogs s =
     do {s1 \<leftarrow> apply_steps (commit_index s - exec_index s) s;
         trim_steps (exec_index s1 - 600000 - min_active s1) s1}"

section \<open>Replication: the follower\<close>

fun append_batch :: "nat \<Rightarrow> (nat \<times> marshallable) list \<Rightarrow> raft_server \<Rightarrow> raft_server option" where
  "append_batch i [] s = Some s"
| "append_batch i ((t, m) # es) s =
     do {s1 \<leftarrow> put_entry (i + 1) t m (s\<lparr>last_log := i + 1\<rparr>); append_batch (i + 1) es s1}"

record append_msg =
  ae_term :: nat
  ae_leader :: u16
  ae_prev_index :: nat
  ae_prev_term :: nat
  ae_commit :: nat
  ae_cmds :: "(nat \<times> marshallable) list option"

definition follow_view :: "raft_cfg \<Rightarrow> int \<Rightarrow> append_msg \<Rightarrow> raft_server \<Rightarrow> raft_server" where
  "follow_view cfg now m s =
     (if cfg_curp cfg \<and> \<not> is_leader s \<and> ae_leader m \<noteq> - 1 \<and> GetLeader (r_new_view s) \<noteq> uint (ae_leader m)
      then (let v = mk_view (word_of_int now) (int (r_n s)) [uint (ae_leader m)] (word_of_nat (ae_term m))
            in s\<lparr>r_old_view := r_new_view s, r_new_view := v,
                 r_views := UpdatePartitionView (r_par s) (Some v) (r_views s)\<rparr>)
      else s)"

text \<open>The accepted message, and the handler around it.\<close>

definition append_accepted ::
  "raft_cfg \<Rightarrow> int \<Rightarrow> append_msg \<Rightarrow> raft_server \<Rightarrow> raft_server option" where
  "append_accepted cfg now m s =
     do {let s1 = resetTimer now s;
         s2 \<leftarrow> (if ae_term m > cur_term s1 then setIsLeader cfg now False (s1\<lparr>cur_term := ae_term m\<rparr>) else Some s1);
         let s3 = follow_view cfg now m s2;
         s4 \<leftarrow> (case ae_cmds m of None \<Rightarrow> Some s3 | Some es \<Rightarrow> append_batch (ae_prev_index m) es s3);
         if ae_commit m > commit_index s4
         then do {let s5 = s4\<lparr>commit_index := min (ae_commit m) (last_log s4)\<rparr>;
                  vrfy (last_log s5 \<ge> commit_index s5);
                  applyLogs s5}
         else Some s4}"

definition OnAppendEntries ::
  "raft_cfg \<Rightarrow> int \<Rightarrow> append_msg \<Rightarrow> raft_server \<Rightarrow> ((bool \<times> nat \<times> nat) \<times> raft_server) option" where
  "OnAppendEntries cfg now m s0 =
     do {(t, s) \<leftarrow> term_at (ae_prev_index m) s0;
         if ae_term m \<ge> cur_term s \<and> ae_prev_index m \<le> last_log s \<and> (ae_prev_index m = 0 \<or> t = ae_prev_term m)
         then do {s' \<leftarrow> append_accepted cfg now m s; Some ((True, cur_term s', last_log s'), s')}
         else Some ((False, cur_term s, last_log s), s)}"

section \<open>Replication: the leader\<close>

text \<open>The commit rule of the heartbeat loop, on the match indices of the followers.\<close>

definition commit_candidate :: "raft_server \<Rightarrow> nat" where
  "commit_candidate s = min (sort (map snd (match_index s)) ! ((r_n s - 1) div 2)) (last_log s)"

definition advance_commit :: "raft_server \<Rightarrow> raft_server option" where
  "advance_commit s =
     (if length (match_index s) = r_n s - 1
      then do {let c = commit_candidate s;
               s1 \<leftarrow> (if c > commit_index s
                     then do {(e, s1) \<leftarrow> GetRaftInstance c s;
                              Some (if re_term e = cur_term s1 then s1\<lparr>commit_index := c\<rparr> else s1)}
                     else Some s);
               if commit_index s1 > exec_index s1 then applyLogs s1 else Some s1}
      else Some s)"

text \<open>
  One iteration of the drain loop: the message to send to follower \<open>f\<close> and whether it is a
  heartbeat, or \<open>None\<close> when there is nothing to send now. A batch takes the entries from the
  first unsent one to the last that is still held; each is taken with its own term. An instance
  that holds no \<^verbatim>\<open>TpcCommitCommand\<close> is cast to a null pointer.
\<close>

fun gather :: "nat list \<Rightarrow> raft_server \<Rightarrow> ((nat \<times> marshallable) list \<times> raft_server) option" where
  "gather [] s = Some ([], s)"
| "gather (i # is) s =
     do {(e, s1) \<leftarrow> GetRaftInstance i s;
         m \<leftarrow> as_commit (re_log e);
         (es, s2) \<leftarrow> gather is s1;
         Some ((re_term e, m) # es, s2)}"

definition send_append ::
  "u16 \<Rightarrow> nat \<Rightarrow> (nat \<times> marshallable) list option \<Rightarrow> bool \<Rightarrow> raft_server \<Rightarrow> ((append_msg \<times> bool) option \<times> raft_server) option" where
  "send_append f prev cmds hb s =
     do {(e, s') \<leftarrow> GetRaftInstance prev s;
         Some (Some (\<lparr>ae_term = cur_term s', ae_leader = r_site s', ae_prev_index = prev, ae_prev_term = re_term e,
                      ae_commit = commit_index s', ae_cmds = cmds\<rparr>, hb),
               s'\<lparr>in_flight_count := AList.update f (at_default 0 (in_flight_count s') f + 1) (in_flight_count s')\<rparr>)}"

definition drain_batch :: "u16 \<Rightarrow> nat \<Rightarrow> raft_server \<Rightarrow> ((append_msg \<times> bool) option \<times> raft_server) option" where
  "drain_batch f sent s =
     do {(es, s1) \<leftarrow> gather [max (sent + 1) (min_active s) ..< last_log s + 1] s;
         if es = [] then Some (None, s1)
         else send_append f sent (Some es) False (s1\<lparr>sent_index := AList.update f (last_log s1) (sent_index s1)\<rparr>)}"

text \<open>The send watermark never lags the next index.\<close>

definition watermark :: "nat \<Rightarrow> nat \<Rightarrow> nat" where
  "watermark ni sent = (if sent + 1 < ni then ni - 1 else sent)"

definition drain_step ::
  "nat \<Rightarrow> bool \<Rightarrow> u16 \<Rightarrow> raft_server \<Rightarrow> ((append_msg \<times> bool) option \<times> raft_server) option" where
  "drain_step cap sent_anything f s0 =
     (if \<not> is_leader s0 then Some (None, s0)
      else case map_of (next_index s0) f of
        None \<Rightarrow> Some (None, s0)
      | Some ni0 \<Rightarrow>
          let ni = min ni0 (last_log s0 + 1);
              s1 = s0\<lparr>next_index := AList.update f ni (next_index s0)\<rparr>;
              sent0 = at_default 0 (sent_index s1) f
          in if at_default 0 (in_flight_count s1) f \<ge> cap then Some (None, s1)
             else let sent = watermark ni sent0;
                      s2 = s1\<lparr>sent_index := AList.update f sent (sent_index s1)\<rparr>
                  in if sent < last_log s2 then drain_batch f sent s2
                     else if sent_anything then Some (None, s2)
                     else send_append f (last_log s2) None True s2)"

definition RecomputeLease :: "int \<Rightarrow> raft_server \<Rightarrow> raft_server" where
  "RecomputeLease now s =
     (if r_n s \<le> 1 then s\<lparr>lease_expires := now + read_lease_us\<rparr>
      else let q = r_n s div 2; sends = rev (sort (map snd (last_ae_send s))) in
           if length sends < q then s\<lparr>lease_expires := 0\<rparr>
           else let new_expires = sends ! (q - 1) + read_lease_us
                in if new_expires > lease_expires s then s\<lparr>lease_expires := new_expires\<rparr> else s)"

definition HasReadLease :: "int \<Rightarrow> raft_server \<Rightarrow> bool" where
  "HasReadLease now s \<longleftrightarrow> is_leader s \<and> now \<ge> leader_warmup s \<and> now < lease_expires s"

text \<open>
  The reply of follower \<open>f\<close> to a message sent in term \<open>send_term\<close> at time \<open>sent_at\<close>;
  \<open>None\<close> is a timeout, a reply of all zeros a transport error.
\<close>

definition handle_reply ::
  "raft_cfg \<Rightarrow> int \<Rightarrow> u16 \<Rightarrow> nat \<Rightarrow> int \<Rightarrow> bool \<Rightarrow> (bool \<times> nat \<times> nat) option \<Rightarrow> raft_server \<Rightarrow> raft_server option" where
  "handle_reply cfg now f send_term sent_at hb reply s0 =
     (let s = (case map_of (in_flight_count s0) f of
                 Some n \<Rightarrow> if n > 0 then s0\<lparr>in_flight_count := AList.update f (n - 1) (in_flight_count s0)\<rparr> else s0
               | None \<Rightarrow> s0);
          ni = at_default 0 (next_index s) f; mi = at_default 0 (match_index s) f
      in case reply of
           None \<Rightarrow> Some (s\<lparr>sent_index := AList.update f (ni - 1) (sent_index s)\<rparr>)
         | Some (ok, rterm, rlast) \<Rightarrow>
             if \<not> ok \<and> rterm = 0 \<and> rlast = 0 then Some s
             else if cur_term s > send_term then Some s
             else if \<not> ok \<and> rterm > send_term
             then (if cur_term s = send_term
                   then do {s1 \<leftarrow> setIsLeader cfg now False s; Some (s1\<lparr>cur_term := rterm\<rparr>)}
                   else Some s)
             else if \<not> ok
             then (let ni' = (if ni \<le> 1 then 1 else ni - 1)
                   in Some (s\<lparr>next_index := AList.update f ni' (next_index s),
                              sent_index := AList.update f (ni' - 1) (sent_index s)\<rparr>))
             else let s1 = (if hb then s
                            else s\<lparr>match_index := AList.update f (max mi (min rlast (last_log s))) (match_index s),
                                   next_index := AList.update f (max ni (rlast + 1)) (next_index s)\<rparr>)
                  in Some (if is_leader s1
                           then RecomputeLease now (s1\<lparr>last_ae_send := AList.update f sent_at (last_ae_send s1)\<rparr>)
                           else s1))"

section \<open>Submission\<close>

datatype submit_decision = DROPPED | WRONG_LEADER view | REPLICATE

definition Submit ::
  "raft_cfg \<Rightarrow> u64 \<Rightarrow> bool \<Rightarrow> bool \<Rightarrow> marshallable \<Rightarrow> raft_server \<Rightarrow> submit_decision option" where
  "Submit cfg now paused recovering cmd s =
     (let wrong = WRONG_LEADER (if IsEmpty (r_new_view s) then mk_view now (int (r_n s)) [-1] (word_of_nat (cur_term s))
                                else r_new_view s)
      in if paused then Some DROPPED
         else if \<not> is_leader s then Some wrong
         else do {c \<leftarrow> SimpleRWCommand (Some cmd);
                  Some (if \<not> IsRecoveryCommand c \<and> \<not> cfg_curp cfg \<and> recovering then wrong else REPLICATE)})"

end
