(* ===== verification/RaftLog.thy ===== *)
theory RaftLog
  imports Raft
begin

text \<open>
  The log of a Raft server: what each operation of \<open>Raft\<close> does to the slots, the terms and the
  indices, the well-formedness invariant \<open>raft_ok\<close> that every operation preserves, application
  in log order, and replication of a leader's log to a follower.
\<close>

section \<open>Slots\<close>

named_theorems raft_simps \<open>evaluation of the operations of a Raft server\<close>

abbreviation log_slot :: "(nat \<times> raft_entry) list \<Rightarrow> nat \<Rightarrow> raft_entry" where
  "log_slot L i \<equiv> at_default no_entry L i"

lemma GetRaftInstance_Some [raft_simps]:
  "GetRaftInstance i s = Some (e, s') \<longleftrightarrow>
     (i \<ge> min_active s \<or> i = 0) \<and> e = entry i s \<and>
     s' = s\<lparr>raft_logs := AList.update i (entry i s) (raft_logs s)\<rparr>"
  by (auto simp: GetRaftInstance_def vrfy_def)

lemma slot_touch [simp]: "log_slot (AList.update i (entry i s) (raft_logs s)) j = entry j s"
  by (simp add: entry_def)

lemma put_entry_Some [raft_simps]:
  "put_entry i t m s = Some s' \<longleftrightarrow>
     (i \<ge> min_active s \<or> i = 0) \<and>
     s' = s\<lparr>raft_logs := AList.update i \<lparr>re_term = t, re_log = Some m\<rparr>
                          (AList.update i (entry i s) (raft_logs s))\<rparr>"
  by (auto simp: put_entry_def GetRaftInstance_def vrfy_def)

lemma gather_Some:
  "gather is s = Some (es, s') \<Longrightarrow>
   es = map (\<lambda>i. (re_term (entry i s), the (re_log (entry i s)))) is \<and>
   (\<forall>i\<in>set is. \<exists>tx c. re_log (entry i s) = Some (CMD_TPC_COMMIT tx c)) \<and>
   (\<exists>L. s' = s\<lparr>raft_logs := L\<rparr> \<and> (\<forall>j. log_slot L j = entry j s) \<and>
        (\<forall>j. map_of (raft_logs s) j \<noteq> None \<longrightarrow> map_of L j \<noteq> None))"
proof (induction "is" arbitrary: s es s')
  case Nil
  then show ?case by (auto simp: entry_def intro!: exI [of _ "raft_logs s"])
next
  case (Cons i "is")
  define s1 where "s1 = s\<lparr>raft_logs := AList.update i (entry i s) (raft_logs s)\<rparr>"
  from Cons.prems obtain m es1 where g: "gather is s1 = Some (es1, s')"
    and m: "as_commit (re_log (entry i s)) = Some m" and es: "es = (re_term (entry i s), m) # es1"
    by (auto simp: bind_eq_Some_conv GetRaftInstance_Some s1_def)
  have e1: "entry j s1 = entry j s" for j by (simp add: s1_def entry_def)
  have m': "\<exists>tx c. re_log (entry i s) = Some (CMD_TPC_COMMIT tx c)" "m = the (re_log (entry i s))"
    using m by (auto simp: as_commit_def split: option.splits marshallable.splits)
  from Cons.IH [OF g] show ?case
    unfolding e1 using m' es by (auto simp: s1_def)
qed

lemma append_batch_Some:
  "append_batch i es s = Some s' \<Longrightarrow>
   (es \<noteq> [] \<longrightarrow> min_active s \<le> i + 1) \<and>
   (\<exists>L. s' = s\<lparr>last_log := (if es = [] then last_log s else i + length es), raft_logs := L\<rparr> \<and>
        (\<forall>j. log_slot L j = (if i < j \<and> j \<le> i + length es
                          then \<lparr>re_term = fst (es ! (j - i - 1)), re_log = Some (snd (es ! (j - i - 1)))\<rparr>
                          else entry j s)) \<and>
        (\<forall>j. map_of (raft_logs s) j \<noteq> None \<longrightarrow> map_of L j \<noteq> None) \<and>
        (\<forall>j. i < j \<and> j \<le> i + length es \<longrightarrow> map_of L j \<noteq> None))"
proof (induction es arbitrary: i s s')
  case Nil
  then show ?case by (auto simp: entry_def intro!: exI [of _ "raft_logs s"])
next
  case (Cons p es)
  obtain t m where p: "p = (t, m)" by (cases p)
  define s1 where "s1 = s\<lparr>last_log := i + 1, raft_logs := AList.update (i + 1) \<lparr>re_term = t, re_log = Some m\<rparr>
                          (AList.update (i + 1) (entry (i + 1) s) (raft_logs s))\<rparr>"
  from Cons.prems have act: "min_active s \<le> i + 1" and b: "append_batch (i + 1) es s1 = Some s'"
    by (auto simp: p bind_eq_Some_conv put_entry_Some s1_def entry_def)
  from Cons.IH [OF b] obtain L where
    L: "s' = s1\<lparr>last_log := (if es = [] then last_log s1 else i + 1 + length es), raft_logs := L\<rparr>"
    and sl: "\<And>j. log_slot L j = (if i + 1 < j \<and> j \<le> i + 1 + length es
               then \<lparr>re_term = fst (es ! (j - (i + 1) - 1)), re_log = Some (snd (es ! (j - (i + 1) - 1)))\<rparr>
               else entry j s1)"
    and pres: "\<And>j. map_of (raft_logs s1) j \<noteq> None \<Longrightarrow> map_of L j \<noteq> None"
    and new: "\<And>j. i + 1 < j \<and> j \<le> i + 1 + length es \<Longrightarrow> map_of L j \<noteq> None"
    by auto
  have e1: "entry j s1 = (if j = i + 1 then \<lparr>re_term = t, re_log = Some m\<rparr> else entry j s)" for j
    by (simp add: s1_def entry_def)
  have sl': "log_slot L j = (if i < j \<and> j \<le> i + length (p # es)
               then \<lparr>re_term = fst ((p # es) ! (j - i - 1)), re_log = Some (snd ((p # es) ! (j - i - 1)))\<rparr>
               else entry j s)" for j
    using sl [of j] e1 [of j] by (auto simp: p nth_Cons' not_less le_Suc_eq)
  have dom: "map_of L j \<noteq> None" if "map_of (raft_logs s) j \<noteq> None \<or> i < j \<and> j \<le> i + length (p # es)" for j
  proof (cases "i + 1 < j \<and> j \<le> i + 1 + length es")
    case False
    with that have "map_of (raft_logs s1) j \<noteq> None" by (auto simp: s1_def)
    then show ?thesis by (rule pres)
  qed (rule new)
  have "s' = s\<lparr>last_log := (if p # es = [] then last_log s else i + length (p # es)), raft_logs := L\<rparr>"
    using L by (simp add: s1_def)
  with act sl' dom show ?case by (auto intro!: exI [of _ L])
qed

section \<open>Leadership changes leave the log alone\<close>

definition log_part ::
  "raft_server \<Rightarrow> nat \<times> nat \<times> nat \<times> (nat \<times> raft_entry) list \<times> nat \<times> marshallable list" where
  "log_part s = (last_log s, commit_index s, exec_index s, raft_logs s, min_active s, applied s)"

lemma log_part_eq [raft_simps]:
  "log_part s' = log_part s \<longleftrightarrow> last_log s' = last_log s \<and> commit_index s' = commit_index s \<and>
     exec_index s' = exec_index s \<and> raft_logs s' = raft_logs s \<and> min_active s' = min_active s \<and>
     applied s' = applied s"
  by (simp add: log_part_def)

lemma log_part_frame [simp]:
  "log_part (s\<lparr>match_index := x\<rparr>) = log_part s" "log_part (s\<lparr>next_index := x\<rparr>) = log_part s"
  "log_part (s\<lparr>sent_index := x\<rparr>) = log_part s" "log_part (s\<lparr>in_flight_count := x\<rparr>) = log_part s"
  "log_part (s\<lparr>last_ae_send := z\<rparr>) = log_part s" "log_part (s\<lparr>cur_term := t\<rparr>) = log_part s"
  "log_part (s\<lparr>req_voting := b\<rparr>) = log_part s" "log_part (s\<lparr>vote_for := v\<rparr>) = log_part s"
  by (simp_all add: log_part_def)

lemma reset_followers_Some:
  assumes "reset_followers s = Some s'"
  shows "cur_term s' = cur_term s \<and> is_leader s' = is_leader s \<and> log_part s' = log_part s"
  using assms by (auto simp: reset_followers_def bind_eq_Some_conv log_part_def Let_def)

lemma TriggerJetpackRecovery_frame [simp]:
  "cur_term (TriggerJetpackRecovery cfg s) = cur_term s"
  "is_leader (TriggerJetpackRecovery cfg s) = is_leader s"
  "log_part (TriggerJetpackRecovery cfg s) = log_part s"
  by (simp_all add: TriggerJetpackRecovery_def log_part_def)

lemma setIsLeader_Some:
  assumes "setIsLeader cfg now lead s = Some s'"
  shows "cur_term s' = cur_term s \<and> is_leader s' = lead \<and> log_part s' = log_part s"
  using assms
  by (auto simp: setIsLeader_def bind_eq_Some_conv Let_def TriggerJetpackRecovery_def log_part_eq
           split: if_splits dest!: reset_followers_Some)

lemma setIsLeader_False_returns: "\<exists>s'. setIsLeader cfg now False s = Some s'"
  by (simp add: setIsLeader_def Let_def)

lemma follow_view_frame [simp]:
  "cur_term (follow_view cfg now m s) = cur_term s"
  "log_part (follow_view cfg now m s) = log_part s"
  by (simp_all add: follow_view_def log_part_def Let_def)

lemma RecomputeLease_frame [simp]:
  "cur_term (RecomputeLease now s) = cur_term s"
  "is_leader (RecomputeLease now s) = is_leader s"
  "log_part (RecomputeLease now s) = log_part s"
  by (simp_all add: RecomputeLease_def log_part_def Let_def)

section \<open>Application\<close>

abbreviation cmd_at :: "raft_server \<Rightarrow> nat \<Rightarrow> marshallable" where
  "cmd_at s i \<equiv> the (re_log (entry i s))"

lemma apply_steps_Some:
  "apply_steps n s = Some s' \<Longrightarrow>
   \<exists>k L. k \<le> n \<and> (k < n \<longrightarrow> re_log (entry (exec_index s + k + 1) s) = None) \<and>
     s' = s\<lparr>exec_index := exec_index s + k, raft_logs := L,
            applied := applied s @ map (cmd_at s) [exec_index s + 1 ..< exec_index s + k + 1]\<rparr> \<and>
     (\<forall>j. log_slot L j = entry j s) \<and> (\<forall>j. map_of (raft_logs s) j \<noteq> None \<longrightarrow> map_of L j \<noteq> None)"
proof (induction n arbitrary: s)
  case 0
  then show ?case by (auto simp: entry_def intro!: exI [of _ "raft_logs s"])
next
  case (Suc n)
  define s1 where "s1 = s\<lparr>raft_logs := AList.update (exec_index s + 1) (entry (exec_index s + 1) s) (raft_logs s)\<rparr>"
  have e1: "entry j s1 = entry j s" for j by (simp add: s1_def entry_def)
  show ?case
  proof (cases "re_log (entry (exec_index s + 1) s)")
    case None
    with Suc.prems have "s' = s1" by (auto simp: bind_eq_Some_conv GetRaftInstance_Some s1_def)
    with None show ?thesis
      by (auto simp: s1_def entry_def intro!: exI [of _ 0] exI [of _ "AList.update (Suc (exec_index s)) (entry (Suc (exec_index s)) s) (raft_logs s)"])
  next
    case (Some m)
    define s2 where "s2 = s1\<lparr>exec_index := exec_index s + 1, applied := applied s @ [m]\<rparr>"
    have e2: "entry j s2 = entry j s" for j by (simp add: s2_def s1_def entry_def)
    from Some Suc.prems have "apply_steps n s2 = Some s'"
      by (auto simp: bind_eq_Some_conv GetRaftInstance_Some s1_def s2_def)
    from Suc.IH [OF this] obtain k L where k: "k \<le> n"
      "k < n \<longrightarrow> re_log (entry (exec_index s2 + k + 1) s2) = None"
      "s' = s2\<lparr>exec_index := exec_index s2 + k, raft_logs := L,
            applied := applied s2 @ map (cmd_at s2) [exec_index s2 + 1 ..< exec_index s2 + k + 1]\<rparr>"
      "\<And>j. log_slot L j = entry j s2" "\<And>j. map_of (raft_logs s2) j \<noteq> None \<Longrightarrow> map_of L j \<noteq> None"
      by auto
    have up: "[exec_index s + 1 ..< exec_index s + Suc k + 1]
                = (exec_index s + 1) # [exec_index s2 + 1 ..< exec_index s2 + k + 1]"
      by (simp add: s2_def upt_conv_Cons)
    have "s' = s\<lparr>exec_index := exec_index s + Suc k, raft_logs := L,
            applied := applied s @ map (cmd_at s) [exec_index s + 1 ..< exec_index s + Suc k + 1]\<rparr>"
      unfolding up k(3) e2 unfolding s2_def s1_def using Some by simp
    moreover have "map_of L j \<noteq> None" if "map_of (raft_logs s) j \<noteq> None" for j
      using that by (intro k(5)) (simp add: s2_def s1_def)
    ultimately show ?thesis
      using k(1,2,4) by (intro exI [of _ "Suc k"] exI [of _ L]) (auto simp: e2, simp add: s2_def)
  qed
qed

lemma apply_steps_returns:
  "min_active s \<le> exec_index s + 1 \<Longrightarrow> \<exists>s'. apply_steps n s = Some s'"
proof (induction n arbitrary: s)
  case (Suc n)
  then show ?case
    by (cases "re_log (entry (exec_index s + 1) s)") (auto simp: GetRaftInstance_def)
qed simp

lemma removeCmd_Some:
  "removeCmd i s = Some s' \<Longrightarrow>
   \<exists>L. s' = s\<lparr>raft_logs := L\<rparr> \<and> (\<forall>j. j \<noteq> i \<longrightarrow> map_of L j = map_of (raft_logs s) j)"
proof -
  assume "removeCmd i s = Some s'"
  then have "s' = s \<or> s' = s\<lparr>raft_logs := AList.delete i (raft_logs s)\<rparr>"
    by (simp add: removeCmd_def bind_eq_Some_conv) (elim exE conjE, simp split: if_splits)
  then show ?thesis
    by (elim disjE) (rule exI [of _ "raft_logs s"], simp, rule exI [of _ "AList.delete i (raft_logs s)"], simp)
qed

lemma removeCmd_returns: "map_of (raft_logs s) i \<noteq> None \<Longrightarrow> \<exists>s'. removeCmd i s = Some s'"
  by (auto simp: removeCmd_def bind_eq_Some_conv)

lemma trim_steps_Some:
  "trim_steps n s = Some s' \<Longrightarrow>
   \<exists>L. s' = s\<lparr>raft_logs := L, min_active := min_active s + n\<rparr> \<and>
       (\<forall>j\<ge>min_active s + n. map_of L j = map_of (raft_logs s) j)"
proof (induction n arbitrary: s)
  case 0
  then show ?case by (auto intro!: exI [of _ "raft_logs s"])
next
  case (Suc n)
  from Suc.prems obtain s1 where r: "removeCmd (min_active s) s = Some s1"
    and t: "trim_steps n (s1\<lparr>min_active := min_active s + 1\<rparr>) = Some s'"
    by (auto simp: bind_eq_Some_conv)
  from removeCmd_Some [OF r] Suc.IH [OF t] show ?case by auto
qed

lemma trim_steps_returns:
  "(\<And>i. min_active s \<le> i \<Longrightarrow> i < min_active s + n \<Longrightarrow> map_of (raft_logs s) i \<noteq> None) \<Longrightarrow>
   \<exists>s'. trim_steps n s = Some s'"
proof (induction n arbitrary: s)
  case (Suc n)
  obtain s1 where r: "removeCmd (min_active s) s = Some s1"
    using removeCmd_returns [of s "min_active s"] Suc.prems by auto
  from removeCmd_Some [OF r] obtain L where L: "s1 = s\<lparr>raft_logs := L\<rparr>"
    "\<And>j. j \<noteq> min_active s \<Longrightarrow> map_of L j = map_of (raft_logs s) j" by auto
  have "\<exists>s'. trim_steps n (s1\<lparr>min_active := min_active s + 1\<rparr>) = Some s'"
    by (rule Suc.IH) (use Suc.prems in \<open>auto simp: L\<close>)
  with r show ?case by auto
qed simp

section \<open>Well-formed servers\<close>

text \<open>
  Every slot from the first active one to the highest index the server knows of holds a
  command, and nothing below the executed prefix is freed. The log may be shorter than the
  committed or executed prefix: see \<open>stale_append_truncates\<close>.
\<close>

definition top_index :: "raft_server \<Rightarrow> nat" where
  "top_index s = max (last_log s) (max (commit_index s) (exec_index s))"

lemma le_top [simp]:
  "last_log s \<le> top_index s" "commit_index s \<le> top_index s" "exec_index s \<le> top_index s"
  by (auto simp: top_index_def)

definition raft_ok :: "raft_server \<Rightarrow> bool" where
  "raft_ok s \<longleftrightarrow> 1 \<le> min_active s \<and> min_active s \<le> exec_index s + 1 \<and>
     (\<forall>i\<in>{min_active s..top_index s}. map_of (raft_logs s) i \<noteq> None \<and> re_log (entry i s) \<noteq> None)"

lemma raft_ok_slot:
  assumes "raft_ok s" "min_active s \<le> i" "i \<le> top_index s"
  shows "map_of (raft_logs s) i = Some (entry i s)" "re_log (entry i s) \<noteq> None"
proof -
  have "map_of (raft_logs s) i \<noteq> None \<and> re_log (entry i s) \<noteq> None"
    using assms by (simp add: raft_ok_def)
  then show "map_of (raft_logs s) i = Some (entry i s)" "re_log (entry i s) \<noteq> None"
    by (auto simp: entry_def at_default_def)
qed

lemma raft_okI:
  assumes "1 \<le> min_active s" "min_active s \<le> exec_index s + 1"
    "\<And>i. min_active s \<le> i \<Longrightarrow> i \<le> top_index s \<Longrightarrow> map_of (raft_logs s) i \<noteq> None"
    "\<And>i. min_active s \<le> i \<Longrightarrow> i \<le> top_index s \<Longrightarrow> re_log (entry i s) \<noteq> None"
  shows "raft_ok s"
  using assms by (simp add: raft_ok_def)

lemma raft_ok_cong: "log_part s' = log_part s \<Longrightarrow> raft_ok s' = raft_ok s"
  by (simp add: raft_ok_def top_index_def entry_def log_part_eq)

lemma raft_ok_lower:
  "raft_ok s \<Longrightarrow> log_part s' = log_part (s\<lparr>commit_index := c\<rparr>) \<Longrightarrow> c \<le> top_index s \<Longrightarrow> raft_ok s'"
  by (auto simp: raft_ok_def top_index_def entry_def log_part_eq)

text \<open>Looking at a slot that exists changes nothing of the log.\<close>

lemma raft_ok_touch:
  assumes "raft_ok s" "i \<le> top_index s" "min_active s \<le> i \<or> i = 0"
  shows "raft_ok (s\<lparr>raft_logs := AList.update i (entry i s) (raft_logs s)\<rparr>)"
  using assms by (auto simp: raft_ok_def top_index_def entry_def)

text \<open>Applying: in the order of the log, from the executed index to the committed one.\<close>

lemma applyLogs_ok:
  assumes ok: "raft_ok s"
  shows "\<exists>s' L a. applyLogs s = Some s' \<and> raft_ok s' \<and>
     s' = s\<lparr>exec_index := max (exec_index s) (commit_index s), raft_logs := L, min_active := a,
            applied := applied s @ map (cmd_at s) [exec_index s + 1 ..< commit_index s + 1]\<rparr> \<and>
     min_active s \<le> a \<and> a \<le> max (min_active s) (max (exec_index s) (commit_index s)) \<and> (\<forall>j\<ge>a. log_slot L j = entry j s)"
proof -
  let ?n = "commit_index s - exec_index s"
  obtain s1 where s1: "apply_steps ?n s = Some s1"
    using apply_steps_returns [of s ?n] ok unfolding raft_ok_def by blast
  from apply_steps_Some [OF s1] obtain k L1 where k: "k \<le> ?n"
    "k < ?n \<longrightarrow> re_log (entry (exec_index s + k + 1) s) = None"
    "s1 = s\<lparr>exec_index := exec_index s + k, raft_logs := L1,
            applied := applied s @ map (cmd_at s) [exec_index s + 1 ..< exec_index s + k + 1]\<rparr>"
    "\<And>j. log_slot L1 j = entry j s" "\<And>j. map_of (raft_logs s) j \<noteq> None \<Longrightarrow> map_of L1 j \<noteq> None"
    by auto
  have "\<not> k < ?n"
  proof
    assume "k < ?n"
    moreover from this have "re_log (entry (exec_index s + k + 1) s) \<noteq> None"
      using ok by (intro raft_ok_slot(2)) (auto simp: top_index_def raft_ok_def)
    ultimately show False using k(2) by simp
  qed
  with k(1) have kn: "k = ?n" by simp
  have up: "[exec_index s + 1 ..< exec_index s + ?n + 1] = [exec_index s + 1 ..< commit_index s + 1]"
    by (cases "exec_index s \<le> commit_index s") auto
  have ex: "exec_index s + ?n = max (exec_index s) (commit_index s)" by simp
  let ?t = "exec_index s1 - 600000 - min_active s1"
  have "\<exists>s2. trim_steps ?t s1 = Some s2"
    using raft_ok_slot(1) [OF ok] k(5)
    by (intro trim_steps_returns) (auto simp: k(3) kn top_index_def)
  then obtain s2 where s2: "trim_steps ?t s1 = Some s2" by blast
  from trim_steps_Some [OF s2] obtain L where
    L: "s2 = s1\<lparr>raft_logs := L, min_active := min_active s1 + ?t\<rparr>"
    "\<And>j. min_active s1 + ?t \<le> j \<Longrightarrow> map_of L j = map_of L1 j"
    by (auto simp: k(3))
  define a where "a = min_active s1 + ?t"
  have a: "min_active s \<le> a" "a \<le> max (min_active s) (max (exec_index s) (commit_index s))" "a \<le> exec_index s2 + 1"
    using ok by (auto simp: a_def k(3) kn L(1) raft_ok_def)
  have eq: "s2 = s\<lparr>exec_index := max (exec_index s) (commit_index s), raft_logs := L, min_active := a,
            applied := applied s @ map (cmd_at s) [exec_index s + 1 ..< commit_index s + 1]\<rparr>"
    using L(1) k(3) kn up ex by (simp add: a_def)
  have sl: "log_slot L j = entry j s" if "a \<le> j" for j
    using L(2) [of j] k(4) [of j] that by (simp add: a_def at_default_def)
  have top: "top_index s2 = top_index s" by (auto simp: eq top_index_def)
  have "raft_ok s2"
  proof (rule raft_okI)
    fix i assume i: "min_active s2 \<le> i" "i \<le> top_index s2"
    then have i': "min_active s \<le> i" "i \<le> top_index s" "a \<le> i" using a top by (auto simp: eq)
    show "map_of (raft_logs s2) i \<noteq> None"
      using raft_ok_slot(1) [OF ok i'(1,2)] k(5) [of i] L(2) [of i] i'(3) by (simp add: L(1) a_def)
    show "re_log (entry i s2) \<noteq> None"
      using raft_ok_slot(2) [OF ok i'(1,2)] sl [OF i'(3)] by (simp add: L(1) entry_def)
  qed (use ok a eq in \<open>auto simp: raft_ok_def\<close>)
  moreover have "applyLogs s = Some s2" using s1 s2 by (simp add: applyLogs_def)
  ultimately show ?thesis using eq a sl by blast
qed

section \<open>Every call keeps the log well-formed and never lowers the term\<close>

text \<open>
  The calls a server serves, from its coordinator, its timers, its peers and the replies it
  waits for. The vote a call casts, if it casts one, is the term and the candidate; a server
  that campaigns counts as its own voter.
\<close>

datatype raft_call =
    CALL_START marshallable
  | CALL_VOTE int nat nat u16 nat
  | CALL_CAMPAIGN int "bool \<times> bool \<times> bool"
  | CALL_ELECTED int bool nat vote_event
  | CALL_APPEND int append_msg
  | CALL_COMMIT
  | CALL_DRAIN nat bool u16
  | CALL_REPLY int u16 nat int bool "(bool \<times> nat \<times> nat) option"

fun serve :: "raft_cfg \<Rightarrow> raft_call \<Rightarrow> raft_server \<Rightarrow> ((nat \<times> u16) option \<times> raft_server) option" where
  "serve cfg (CALL_START cmd) s = do {(_, _, _, s') \<leftarrow> Start cmd s; Some (None, s')}"
| "serve cfg (CALL_VOTE now i t can ct) s =
     do {((granted, _), s') \<leftarrow> OnRequestVote cfg now i t can ct s; Some (if granted then Some (ct, can) else None, s')}"
| "serve cfg (CALL_CAMPAIGN now files) s =
     do {(req, s') \<leftarrow> RequestVote_start now files s;
         Some (case req of Some (_, _, can, ct) \<Rightarrow> Some (ct, can) | None \<Rightarrow> None, s')}"
| "serve cfg (CALL_ELECTED now af t q) s = do {(_, s') \<leftarrow> RequestVote_finish cfg now af t q s; Some (None, s')}"
| "serve cfg (CALL_APPEND now m) s = do {(_, s') \<leftarrow> OnAppendEntries cfg now m s; Some (None, s')}"
| "serve cfg CALL_COMMIT s = do {s' \<leftarrow> advance_commit s; Some (None, s')}"
| "serve cfg (CALL_DRAIN cap sent f) s = do {(_, s') \<leftarrow> drain_step cap sent f s; Some (None, s')}"
| "serve cfg (CALL_REPLY now f t st hb r) s = do {s' \<leftarrow> handle_reply cfg now f t st hb r s; Some (None, s')}"

text \<open>What a call may do to a well-formed server.\<close>

definition steps_well :: "raft_server \<Rightarrow> raft_server \<Rightarrow> bool" where
  "steps_well s s' \<longleftrightarrow> cur_term s \<le> cur_term s' \<and> (raft_ok s \<longrightarrow> raft_ok s')"

lemma steps_well_refl: "log_part s' = log_part s \<Longrightarrow> cur_term s \<le> cur_term s' \<Longrightarrow> steps_well s s'"
  by (simp add: steps_well_def raft_ok_cong [of s' s])

lemma steps_well_trans: "steps_well s t \<Longrightarrow> steps_well t u \<Longrightarrow> steps_well s u"
  by (auto simp: steps_well_def)

lemma steps_well_touch:
  assumes "GetRaftInstance i s = Some (e, s')" "i \<le> top_index s"
  shows "steps_well s s'"
  using assms by (auto simp: GetRaftInstance_Some steps_well_def intro!: raft_ok_touch)

definition same_entries :: "raft_server \<Rightarrow> raft_server \<Rightarrow> bool" where
  "same_entries s s' \<longleftrightarrow> last_log s' = last_log s \<and> commit_index s' = commit_index s \<and>
     exec_index s' = exec_index s \<and> min_active s' = min_active s \<and> applied s' = applied s \<and>
     (\<forall>j. entry j s' = entry j s)"

lemma same_entries_log_part: "log_part s' = log_part t \<Longrightarrow> same_entries s s' = same_entries s t"
  by (simp add: same_entries_def log_part_eq entry_def)

lemma same_entries_refl [simp]: "same_entries s s"
  by (simp add: same_entries_def)

lemma same_entries_touch: "GetRaftInstance i s = Some (e, s') \<Longrightarrow> same_entries s s'"
  by (auto simp: GetRaftInstance_Some same_entries_def entry_def)

lemma term_at_conj:
  assumes "term_at i s = Some (t, s1)"
  shows "t = (if 0 < i \<and> i \<le> last_log s then re_term (entry i s) else 0) \<and> steps_well s s1 \<and>
    same_entries s s1 \<and> cur_term s1 = cur_term s \<and> is_leader s1 = is_leader s"
proof (cases "0 < i \<and> i \<le> last_log s")
  case True
  with assms obtain e where g: "GetRaftInstance i s = Some (e, s1)" and t: "t = re_term e"
    by (auto simp: term_at_def bind_eq_Some_conv)
  have "i \<le> top_index s" using True le_top(1) [of s] by linarith
  with g have "steps_well s s1" by (rule steps_well_touch)
  with g True t same_entries_touch [OF g]
  show ?thesis
    by (simp add: GetRaftInstance_Some)
next
  case False
  with assms
  show ?thesis
    by (auto simp: term_at_def steps_well_def)
qed

lemmas term_at_Some =
  term_at_conj [THEN conjunct1] term_at_conj [THEN conjunct2, THEN conjunct1]
  term_at_conj [THEN conjunct2, THEN conjunct2, THEN conjunct1]
  term_at_conj [THEN conjunct2, THEN conjunct2, THEN conjunct2, THEN conjunct1]
  term_at_conj [THEN conjunct2, THEN conjunct2, THEN conjunct2, THEN conjunct2]

lemma setIsLeader_steps: "setIsLeader cfg now lead s = Some s' \<Longrightarrow> steps_well s s'"
  by (auto dest!: setIsLeader_Some intro: steps_well_refl)

lemma Start_steps:
  assumes "Start cmd s = Some (ok, i, t, s')"
  shows "steps_well s s'"
proof (cases "is_leader s")
  case True
  from assms True have "min_active s \<le> last_log s + 1" and s': "s' = s\<lparr>last_log := last_log s + 1,
      raft_logs := AList.update (last_log s + 1) \<lparr>re_term = cur_term s, re_log = Some cmd\<rparr>
        (AList.update (last_log s + 1) (entry (last_log s + 1) s) (raft_logs s))\<rparr>"
    by (auto simp: Start_def SetLocalAppend_def bind_eq_Some_conv put_entry_Some entry_def Let_def)
  have "raft_ok s'" if ok: "raft_ok s"
  proof (rule raft_okI)
    fix i assume i: "min_active s' \<le> i" "i \<le> top_index s'"
    then have i': "i = last_log s + 1 \<or> min_active s \<le> i \<and> i \<le> top_index s"
      by (auto simp: s' top_index_def)
    then show "map_of (raft_logs s') i \<noteq> None" "re_log (entry i s') \<noteq> None"
      using raft_ok_slot [OF ok, of i] by (auto simp: s' entry_def)
  qed (use ok in \<open>auto simp: s' raft_ok_def\<close>)
  then show ?thesis by (simp add: steps_well_def s')
next
  case False
  with assms show ?thesis by (simp add: Start_def steps_well_def)
qed

lemma doVote_steps:
  assumes "doVote cfg now can ct vote s = Some ((g, t), s')"
  shows "steps_well s s' \<and> g = vote \<and> t = cur_term s \<and> cur_term s' = max ct (cur_term s) \<and>
     (if vote then vote_for s' = can \<and> \<not> is_leader s' else is_leader s' = is_leader s)"
proof -
  let ?s1 = "if cur_term s < ct then s\<lparr>cur_term := ct\<rparr> else s"
  have s1: "steps_well s ?s1" "cur_term ?s1 = max ct (cur_term s)" "is_leader ?s1 = is_leader s"
    by (auto intro: steps_well_refl simp: log_part_def)
  show ?thesis
  proof (cases vote)
    case True
    with assms obtain s2 where s2: "setIsLeader cfg now False ?s1 = Some s2"
      and s': "s' = resetTimer now (s2\<lparr>vote_for := can\<rparr>)" and g: "g = vote" "t = cur_term s"
      by (auto simp: doVote_def bind_eq_Some_conv Let_def)
    have "steps_well s2 s'" by (auto intro: steps_well_refl simp: s' resetTimer_def log_part_def)
    then have "steps_well s s'" using steps_well_trans [OF s1(1) steps_well_trans [OF setIsLeader_steps [OF s2]]] by simp
    with setIsLeader_Some [OF s2] s1(2) g True show ?thesis by (simp add: s' resetTimer_def)
  next
    case False
    with assms s1 show ?thesis by (auto simp: doVote_def Let_def)
  qed
qed

text \<open>A vote is granted in a term above the server's only, which becomes the server's term.\<close>

lemma OnRequestVote_steps:
  assumes "OnRequestVote cfg now i t can ct s = Some ((g, rt), s')"
  shows "steps_well s s' \<and> rt = cur_term s \<and> cur_term s' = max ct (cur_term s) \<and>
     (g \<longrightarrow> cur_term s < ct \<and> vote_for s' = can \<and> \<not> is_leader s' \<and>
        (let lt = if last_log s = 0 then 0 else re_term (entry (last_log s) s)
         in lt < t \<or> t = lt \<and> last_log s \<le> i)) \<and>
     (\<not> g \<longrightarrow> is_leader s' = is_leader s)"
proof (cases "cur_term s < ct")
  case False
  then have "doVote cfg now can ct False s = Some ((g, rt), s')"
    using assms by (auto simp: OnRequestVote_def split: if_splits)
  from doVote_steps [OF this] show ?thesis by simp
next
  case True
  from assms True obtain lt s1 where s1: "term_at (last_log s) s = Some (lt, s1)"
    and v: "doVote cfg now can ct (lt < t \<or> t = lt \<and> last_log s \<le> i) s1 = Some ((g, rt), s')"
    by (auto simp: OnRequestVote_def bind_eq_Some_conv)
  with doVote_steps [OF v] steps_well_trans [OF term_at_Some(2) [OF s1]] True term_at_Some [OF s1]
  show ?thesis by (auto simp: Let_def)
qed

lemma RequestVote_start_steps:
  assumes "RequestVote_start now files s = Some (req, s')"
  shows "steps_well s s' \<and> (case req of None \<Rightarrow> cur_term s' = cur_term s
     | Some (_, _, can, ct) \<Rightarrow> can = r_loc s \<and> ct = cur_term s + 1 \<and> cur_term s' = ct)"
proof -
  obtain a b c where files: "files = (a, b, c)" by (cases files)
  let ?s = "RefreshElectionSignals a b c s"
  let ?s1 = "?s\<lparr>cur_term := cur_term ?s + 1\<rparr>"
  have f: "log_part ?s = log_part s" "cur_term ?s = cur_term s" "r_loc ?s = r_loc s"
    by (simp_all add: RefreshElectionSignals_def log_part_def)
  show ?thesis
  proof (cases "\<not> failure_seen ?s \<and> init_done ?s \<or> failure_seen ?s \<and> post_done ?s")
    case True
    with assms f show ?thesis
      by (auto simp: RequestVote_start_def files resetTimer_def log_part_def intro!: steps_well_refl)
  next
    case False
    have "steps_well s ?s1" using f by (intro steps_well_refl) (simp_all add: log_part_def)
    with assms f False show ?thesis
      by (auto simp: RequestVote_start_def files Let_def bind_eq_Some_conv top_index_def
               dest: steps_well_touch intro: steps_well_trans split: if_splits)
         (auto simp: GetRaftInstance_Some)
  qed
qed

lemma RequestVote_finish_steps:
  assumes "RequestVote_finish cfg now af t q s = Some (won, s')"
  shows "steps_well s s' \<and> (won \<longrightarrow> Yes q \<and> t = cur_term s \<and> cur_term s' = t \<and> is_leader s')"
proof (cases "Yes q \<and> t = cur_term s")
  case True
  with assms obtain s1 where s1: "setIsLeader cfg now True s = Some s1"
    and s': "won" "s' = (TriggerJetpackRecovery cfg (MarkElectionDone af s1))\<lparr>req_voting := False\<rparr>"
    using setIsLeader_Some [of cfg now True s] by (auto simp: RequestVote_finish_def bind_eq_Some_conv)
  have "log_part s' = log_part s1" "cur_term s' = cur_term s1" "is_leader s' = is_leader s1"
    by (simp_all add: s'(2) TriggerJetpackRecovery_def MarkElectionDone_def log_part_def)
  with setIsLeader_Some [OF s1] True show ?thesis by (simp add: steps_well_refl)
next
  case False
  have q: "log_part (u\<lparr>req_voting := False\<rparr>) = log_part u" "log_part (u\<lparr>cur_term := c\<rparr>) = log_part u"
    for u c by (simp_all add: log_part_def)
  from assms False have "\<not> won \<and> (s' = s\<lparr>req_voting := False\<rparr> \<or> (\<exists>s1. setIsLeader cfg now False s = Some s1 \<and>
      s' = (if highest_term q > cur_term s1 then s1\<lparr>cur_term := highest_term q\<rparr> else s1)\<lparr>req_voting := False\<rparr>))"
  proof (cases "Yes q")
    case False
    with assms obtain no where "No q = Some no" by (cases "No q") (auto simp: RequestVote_finish_def)
    with assms False show ?thesis
      by (cases no; cases "setIsLeader cfg now False s") (simp_all add: RequestVote_finish_def Let_def)
  qed (simp add: RequestVote_finish_def)
  then show ?thesis
  proof (elim conjE disjE exE)
    fix s1 assume s1: "setIsLeader cfg now False s = Some s1"
      and s': "s' = (if highest_term q > cur_term s1 then s1\<lparr>cur_term := highest_term q\<rparr> else s1)\<lparr>req_voting := False\<rparr>"
    have "log_part s' = log_part s1" "cur_term s1 \<le> cur_term s'" by (simp_all add: s' q)
    with setIsLeader_Some [OF s1] have "steps_well s s'" by (intro steps_well_refl) simp_all
    moreover assume "\<not> won"
    ultimately show ?thesis by simp
  qed (simp add: steps_well_refl q)
qed

abbreviation ae_entries :: "append_msg \<Rightarrow> (nat \<times> marshallable) list" where
  "ae_entries m \<equiv> (case ae_cmds m of None \<Rightarrow> [] | Some es \<Rightarrow> es)"

definition accepts_append :: "append_msg \<Rightarrow> raft_server \<Rightarrow> bool" where
  "accepts_append m s \<longleftrightarrow> cur_term s \<le> ae_term m \<and> ae_prev_index m \<le> last_log s \<and>
     (ae_prev_index m = 0 \<or> re_term (entry (ae_prev_index m) s) = ae_prev_term m)"

lemma OnAppendEntries_cases:
  assumes "OnAppendEntries cfg now m s = Some ((ok, t, l), s')"
  obtains
    (reject) "\<not> accepts_append m s" "\<not> ok" "t = cur_term s" "l = last_log s" "cur_term s' = cur_term s"
      "same_entries s s'" "steps_well s s'"
  | (accept) s3 s4 where "accepts_append m s" "ok" "same_entries s s3" "steps_well s s3" "cur_term s3 = ae_term m"
      "append_batch (ae_prev_index m) (ae_entries m) s3 = Some s4"
      "(if ae_commit m > commit_index s4
        then applyLogs (s4\<lparr>commit_index := min (ae_commit m) (last_log s4)\<rparr>) else Some s4) = Some s'"
      "t = cur_term s'" "l = last_log s'"
proof -
  from assms obtain pt s1 where s1: "term_at (ae_prev_index m) s = Some (pt, s1)"
    and rest: "(if ae_term m \<ge> cur_term s1 \<and> ae_prev_index m \<le> last_log s1 \<and> (ae_prev_index m = 0 \<or> pt = ae_prev_term m)
         then do {s' \<leftarrow> append_accepted cfg now m s1; Some ((True, cur_term s', last_log s'), s')}
         else Some ((False, cur_term s1, last_log s1), s1)) = Some ((ok, t, l), s')"
    by (cases "term_at (ae_prev_index m) s") (auto simp: OnAppendEntries_def)
  note s1' = term_at_Some(2-4) [OF s1]
  have ll: "last_log s1 = last_log s" using s1'(2) by (simp add: same_entries_def)
  have acc: "accepts_append m s \<longleftrightarrow> ae_term m \<ge> cur_term s1 \<and> ae_prev_index m \<le> last_log s1 \<and>
               (ae_prev_index m = 0 \<or> pt = ae_prev_term m)"
    using s1' ll term_at_Some(1) [OF s1] by (auto simp: accepts_append_def)
  show thesis
  proof (cases "accepts_append m s")
    case False
    with rest acc s1' ll show thesis by (intro reject) auto
  next
    case True
    let ?u = "resetTimer now s1"
    have u: "log_part ?u = log_part s1" "cur_term ?u = cur_term s1" by (simp_all add: resetTimer_def log_part_def)
    from True rest acc have a: "append_accepted cfg now m s1 = Some s'"
      and res: "ok" "t = cur_term s'" "l = last_log s'"
      by (auto simp: bind_eq_Some_conv)
    from a obtain s2 s4 where
      s2: "(if ae_term m > cur_term ?u then setIsLeader cfg now False (?u\<lparr>cur_term := ae_term m\<rparr>) else Some ?u) = Some s2"
      and s4: "append_batch (ae_prev_index m) (ae_entries m) (follow_view cfg now m s2) = Some s4"
      and s5: "(if ae_commit m > commit_index s4
        then applyLogs (s4\<lparr>commit_index := min (ae_commit m) (last_log s4)\<rparr>) else Some s4) = Some s'"
      by (cases "ae_cmds m") (simp_all add: append_accepted_def Let_def bind_eq_Some_conv cong: if_cong, blast+)
    have s2': "log_part s2 = log_part s1" "cur_term s2 = ae_term m"
      using s2 True u s1'(3) by (auto split: if_splits dest!: setIsLeader_Some simp: log_part_def accepts_append_def)
    let ?s3 = "follow_view cfg now m s2"
    have lp: "log_part ?s3 = log_part s1" and ct: "cur_term ?s3 = ae_term m" using s2' by simp_all
    have "steps_well s1 ?s3"
      using lp ct s1'(3) True by (intro steps_well_refl) (simp_all add: accepts_append_def)
    then have "steps_well s ?s3" by (rule steps_well_trans [OF s1'(1)])
    moreover have "same_entries s ?s3" using s1'(2) same_entries_log_part [OF lp] by simp
    ultimately show thesis using accept [OF True res(1) _ _ ct s4 s5 res(2,3)] by blast
  qed
qed

end
