(* ===== verification/RaftReplication.thy ===== *)
theory RaftReplication
  imports RaftLog
begin

text \<open>
  What the remaining calls of a Raft server do to its log (accepting a batch, advancing the
  commit index, draining to a follower, handling a reply), the invariant over every call, and
  replication of a leader's log to a follower end to end.
\<close>

section \<open>The remaining calls\<close>

lemma append_batch_ok:
  assumes ok: "raft_ok s" and b: "append_batch i es s = Some s'" and i: "i \<le> last_log s"
  shows "raft_ok s'"
proof -
  from append_batch_Some [OF b] obtain L where
    s': "s' = s\<lparr>last_log := (if es = [] then last_log s else i + length es), raft_logs := L\<rparr>"
    and sl: "\<And>j. log_slot L j = (if i < j \<and> j \<le> i + length es
                then \<lparr>re_term = fst (es ! (j - i - 1)), re_log = Some (snd (es ! (j - i - 1)))\<rparr>
                else entry j s)"
    and old: "\<And>j. map_of (raft_logs s) j \<noteq> None \<Longrightarrow> map_of L j \<noteq> None"
    and new: "\<And>j. i < j \<and> j \<le> i + length es \<Longrightarrow> map_of L j \<noteq> None"
    by auto
  show ?thesis
  proof (rule raft_okI)
    fix j assume j: "min_active s' \<le> j" "j \<le> top_index s'"
    show "map_of (raft_logs s') j \<noteq> None" "re_log (entry j s') \<noteq> None"
    proof (atomize (full), cases "i < j \<and> j \<le> i + length es")
      case True
      with new sl show "map_of (raft_logs s') j \<noteq> None \<and> re_log (entry j s') \<noteq> None"
        by (simp add: s' entry_def)
    next
      case False
      then have "min_active s \<le> j" "j \<le> top_index s"
        using j i by (auto simp: s' top_index_def split: if_splits)
      from raft_ok_slot [OF ok this] old [of j] sl [of j] False
      show "map_of (raft_logs s') j \<noteq> None \<and> re_log (entry j s') \<noteq> None"
        by (auto simp: s' entry_def)
    qed
  qed (use ok in \<open>simp_all add: s' raft_ok_def\<close>)
qed

lemma commit_ok: "raft_ok s \<Longrightarrow> c \<le> top_index s \<Longrightarrow> raft_ok (s\<lparr>commit_index := c\<rparr>)"
  by (erule raft_ok_lower) (simp_all add: log_part_def)

text \<open>The effect of an accepted message on a well-formed server.\<close>

lemma OnAppendEntries_accept:
  assumes ok: "raft_ok s" and call: "OnAppendEntries cfg now m s = Some ((True, t, l), s')"
  defines "p \<equiv> ae_prev_index m" and "es \<equiv> ae_entries m"
  shows "raft_ok s' \<and> accepts_append m s \<and> t = ae_term m \<and> cur_term s' = ae_term m \<and> l = last_log s' \<and>
     last_log s' = (if es = [] then last_log s else p + length es) \<and>
     commit_index s' = (if commit_index s < ae_commit m then min (ae_commit m) (last_log s') else commit_index s) \<and>
     min_active s \<le> min_active s' \<and>
     (\<forall>j\<ge>min_active s'. entry j s' =
        (if p < j \<and> j \<le> p + length es
         then \<lparr>re_term = fst (es ! (j - p - 1)), re_log = Some (snd (es ! (j - p - 1)))\<rparr> else entry j s))"
  using call
proof (cases rule: OnAppendEntries_cases)
  case (accept s3 s4)
  note same = accept(3) [unfolded same_entries_def]
  have ok3: "raft_ok s3" using accept(4) ok by (simp add: steps_well_def)
  have ok4: "raft_ok s4"
    using append_batch_ok [OF ok3 accept(6)] accept(1) same by (simp add: accepts_append_def)
  from append_batch_Some [OF accept(6)] obtain L where
    s4: "s4 = s3\<lparr>last_log := (if es = [] then last_log s3 else p + length es), raft_logs := L\<rparr>"
    and sl: "\<And>j. log_slot L j = (if p < j \<and> j \<le> p + length es
                then \<lparr>re_term = fst (es ! (j - p - 1)), re_log = Some (snd (es ! (j - p - 1)))\<rparr>
                else entry j s3)"
    unfolding p_def es_def by blast
  have e4: "entry j s4 = (if p < j \<and> j \<le> p + length es
                then \<lparr>re_term = fst (es ! (j - p - 1)), re_log = Some (snd (es ! (j - p - 1)))\<rparr>
                else entry j s)" for j
    using sl [of j] same by (simp add: s4 entry_def)
  have f4: "cur_term s4 = ae_term m" "commit_index s4 = commit_index s" "min_active s4 = min_active s"
    "last_log s4 = (if es = [] then last_log s else p + length es)"
    using same accept(5) by (simp_all add: s4)
  show ?thesis
  proof (cases "commit_index s < ae_commit m")
    case False
    with accept(7) f4(2) have "s' = s4" by simp
    with False ok4 e4 f4 accept(1,8,9) show ?thesis by simp
  next
    case True
    let ?s5 = "s4\<lparr>commit_index := min (ae_commit m) (last_log s4)\<rparr>"
    have ok5: "raft_ok ?s5" by (rule commit_ok [OF ok4]) (simp add: min.coboundedI2)
    from applyLogs_ok [OF ok5] accept(7) True f4(2) obtain L' a' where
      s': "raft_ok s'" "s' = ?s5\<lparr>exec_index := max (exec_index ?s5) (commit_index ?s5), raft_logs := L', min_active := a',
            applied := applied ?s5 @ map (cmd_at ?s5) [exec_index ?s5 + 1 ..< commit_index ?s5 + 1]\<rparr>"
      "min_active ?s5 \<le> a'" "\<And>j. a' \<le> j \<Longrightarrow> log_slot L' j = entry j ?s5"
      by auto
    have frame: "min_active s' = a'" "cur_term s' = ae_term m" "last_log s' = last_log s4"
      "commit_index s' = min (ae_commit m) (last_log s4)" "raft_logs s' = L'"
      using s'(2) f4(1) by simp_all
    have "entry j s' = entry j s4" if "min_active s' \<le> j" for j
      using s'(4) [of j] that frame by (simp add: entry_def)
    with e4 f4 s'(1,3) frame True accept(1,8,9) show ?thesis by auto
  qed
qed simp

lemma applyLogs_term: "applyLogs u = Some u' \<Longrightarrow> cur_term u' = cur_term u"
proof -
  assume "applyLogs u = Some u'"
  then obtain u1 where "apply_steps (commit_index u - exec_index u) u = Some u1"
    "trim_steps (exec_index u1 - 600000 - min_active u1) u1 = Some u'"
    by (auto simp: applyLogs_def bind_eq_Some_conv)
  then show ?thesis by (auto dest!: apply_steps_Some trim_steps_Some)
qed

lemma OnAppendEntries_steps:
  assumes "OnAppendEntries cfg now m s = Some ((ok, t, l), s')"
  shows "steps_well s s'"
  using assms
proof (cases rule: OnAppendEntries_cases)
  case (accept s3 s4)
  have "raft_ok s'" if "raft_ok s"
    using OnAppendEntries_accept [OF that] assms accept(2) by auto
  moreover from append_batch_Some [OF accept(6)] accept(5) have c4: "cur_term s4 = ae_term m" by auto
  have "cur_term s' = ae_term m"
    using accept(7) c4 by (auto split: if_splits dest: applyLogs_term)
  with accept(1) have "cur_term s \<le> cur_term s'" by (simp add: accepts_append_def)
  ultimately show ?thesis by (simp add: steps_well_def)
qed

lemma applyLogs_steps: "applyLogs s = Some s' \<Longrightarrow> steps_well s s'"
  using applyLogs_ok [of s] by (auto simp: steps_well_def applyLogs_term)

text \<open>The commit index moves to the candidate index, when it is ahead and of the current term.\<close>

lemma le_topI: "i \<le> last_log s \<Longrightarrow> i \<le> top_index s"
  by (rule le_trans [OF _ le_top(1)])

lemma commit_candidate_le: "commit_candidate s \<le> last_log s"
  by (simp add: commit_candidate_def)

lemma advance_commit_cases:
  assumes "advance_commit s = Some s'"
  obtains (nothing) "s' = s"
  | (apply_only) s1 where "steps_well s s1" "same_entries s s1" "cur_term s1 = cur_term s" "applyLogs s1 = Some s' \<or> s' = s1"
  | (commit) s1 where "length (match_index s) = r_n s - 1" "commit_index s < commit_candidate s"
      "re_term (entry (commit_candidate s) s) = cur_term s" "steps_well s s1" "same_entries s s1" "cur_term s1 = cur_term s"
      "applyLogs (s1\<lparr>commit_index := commit_candidate s\<rparr>) = Some s' \<or> s' = s1\<lparr>commit_index := commit_candidate s\<rparr>"
proof (cases "length (match_index s) = r_n s - 1")
  case False
  with assms have "s' = s" by (simp add: advance_commit_def)
  then show thesis by (rule nothing)
next
  case True
  let ?c = "commit_candidate s"
  show thesis
  proof (cases "?c > commit_index s")
    case False
    with assms True have "applyLogs s = Some s' \<or> s' = s"
      by (auto simp: advance_commit_def Let_def split: if_splits)
    then show thesis using apply_only [of s] by (simp add: steps_well_def)
  next
    case gt: True
    with assms True obtain e s1 where g: "GetRaftInstance ?c s = Some (e, s1)"
      and res: "(let u = if re_term e = cur_term s1 then s1\<lparr>commit_index := ?c\<rparr> else s1
                 in if commit_index u > exec_index u then applyLogs u else Some u) = Some s'"
      by (auto simp: advance_commit_def Let_def bind_eq_Some_conv)
    have "?c \<le> top_index s" by (rule le_trans [OF commit_candidate_le le_top(1)])
    with g have s1: "steps_well s s1" "same_entries s s1" "cur_term s1 = cur_term s" "e = entry ?c s"
      by (simp_all add: steps_well_touch same_entries_touch, simp_all add: GetRaftInstance_Some)
    show thesis
    proof (cases "re_term e = cur_term s1")
      case True
      with res \<open>length (match_index s) = _\<close> gt s1 show thesis
        by (intro commit [of s1]) (auto simp: Let_def split: if_splits)
    next
      case False
      with res s1 show thesis by (intro apply_only [of s1]) (auto simp: Let_def split: if_splits)
    qed
  qed
qed

lemma advance_commit_steps:
  assumes "advance_commit s = Some s'"
  shows "steps_well s s'"
  using assms
proof (cases rule: advance_commit_cases)
  case nothing
  then show ?thesis by (simp add: steps_well_def)
next
  case (apply_only s1)
  then show ?thesis by (auto dest: applyLogs_steps intro: steps_well_trans)
next
  case (commit s1)
  have "commit_candidate s \<le> top_index s1"
    using commit_candidate_le [of s] commit(5) by (intro le_topI) (simp add: same_entries_def)
  then have "steps_well s1 (s1\<lparr>commit_index := commit_candidate s\<rparr>)"
    by (simp add: steps_well_def commit_ok)
  with commit(4,7) show ?thesis by (auto dest: applyLogs_steps intro: steps_well_trans)
qed

lemma gather_steps:
  assumes "gather is s = Some (es, s')" "\<And>i. i \<in> set is \<Longrightarrow> i \<le> top_index s"
  shows "steps_well s s'"
  using assms
proof (induction "is" arbitrary: s es)
  case (Cons i "is")
  from Cons.prems(1) obtain e s1 es1 where g: "GetRaftInstance i s = Some (e, s1)"
    and r: "gather is s1 = Some (es1, s')" by (auto simp: bind_eq_Some_conv)
  have "top_index s1 = top_index s" using g by (auto simp: GetRaftInstance_Some top_index_def)
  with Cons.IH [OF r] Cons.prems(2) have "steps_well s1 s'" by simp
  moreover have "steps_well s s1" using g Cons.prems(2) by (intro steps_well_touch) auto
  ultimately show ?case by (rule steps_well_trans [rotated])
qed (simp add: steps_well_def)

lemma send_append_Some:
  assumes "send_append f prev cmds hb s = Some (out, s')"
  shows "(prev \<ge> min_active s \<or> prev = 0) \<and> steps_well (s\<lparr>raft_logs := AList.update prev (entry prev s) (raft_logs s)\<rparr>) s' \<and>
     out = Some (\<lparr>ae_term = cur_term s, ae_leader = r_site s, ae_prev_index = prev, ae_prev_term = re_term (entry prev s),
                  ae_commit = commit_index s, ae_cmds = cmds\<rparr>, hb) \<and> same_entries s s' \<and> cur_term s' = cur_term s"
proof -
  let ?u = "s\<lparr>raft_logs := AList.update prev (entry prev s) (raft_logs s)\<rparr>"
  from assms have a: "prev \<ge> min_active s \<or> prev = 0"
    and s': "s' = ?u\<lparr>in_flight_count := AList.update f (at_default 0 (in_flight_count s) f + 1) (in_flight_count s)\<rparr>"
    and out: "out = Some (\<lparr>ae_term = cur_term s, ae_leader = r_site s, ae_prev_index = prev, ae_prev_term = re_term (entry prev s),
                  ae_commit = commit_index s, ae_cmds = cmds\<rparr>, hb)"
    by (auto simp: send_append_def bind_eq_Some_conv GetRaftInstance_Some)
  have "steps_well ?u s'" by (rule steps_well_refl) (simp_all add: s' log_part_def)
  moreover have "same_entries s s'" by (simp add: s' same_entries_def entry_def)
  ultimately show ?thesis using a out by (simp add: s')
qed

lemma send_append_steps:
  assumes "send_append f prev cmds hb s = Some (out, s')" "prev \<le> top_index s"
  shows "steps_well s s'"
  using send_append_Some [OF assms(1)] assms(2) by (auto simp: steps_well_def intro!: raft_ok_touch)

lemma drain_batch_Some:
  assumes "drain_batch f sent s = Some (out, s')" "sent < last_log s"
  shows "steps_well s s' \<and> same_entries s s' \<and> cur_term s' = cur_term s \<and>
     (case out of None \<Rightarrow> True | Some (m, hb) \<Rightarrow> \<not> hb \<and> ae_term m = cur_term s \<and> ae_prev_index m = sent \<and>
     ae_prev_term m = re_term (entry sent s) \<and> ae_commit m = commit_index s \<and>
     ae_cmds m = Some (map (\<lambda>i. (re_term (entry i s), cmd_at s i)) [max (sent + 1) (min_active s) ..< last_log s + 1]) \<and>
     (\<forall>i\<in>{max (sent + 1) (min_active s)..last_log s}. re_log (entry i s) \<noteq> None))"
proof -
  let ?is = "[max (sent + 1) (min_active s) ..< last_log s + 1]"
  from assms(1) obtain es s1 where g: "gather ?is s = Some (es, s1)"
    and r: "(if es = [] then Some (None, s1)
             else send_append f sent (Some es) False (s1\<lparr>sent_index := AList.update f (last_log s1) (sent_index s1)\<rparr>)) = Some (out, s')"
    by (cases "gather ?is s") (auto simp: drain_batch_def)
  have "i \<le> top_index s" if "i \<in> set ?is" for i using that by (intro le_topI) auto
  with g have w1: "steps_well s s1" by (rule gather_steps)
  from gather_Some [OF g] obtain L where es: "es = map (\<lambda>i. (re_term (entry i s), cmd_at s i)) ?is"
    and filled: "\<forall>i\<in>set ?is. \<exists>tx c. re_log (entry i s) = Some (CMD_TPC_COMMIT tx c)"
    and s1: "s1 = s\<lparr>raft_logs := L\<rparr>" "\<And>j. log_slot L j = entry j s" by blast
  have e1: "entry j s1 = entry j s" for j using s1 by (simp add: entry_def)
  have se: "same_entries s s1" "same_entries s1 t = same_entries s t" for t
    using e1 by (simp_all add: same_entries_def s1(1))
  show ?thesis
  proof (cases "es = []")
    case True
    with r w1 se s1(1) show ?thesis by auto
  next
    case False
    let ?u = "s1\<lparr>sent_index := AList.update f (last_log s1) (sent_index s1)\<rparr>"
    have eu: "entry j ?u = entry j s" for j using e1 by (simp add: entry_def)
    from r False have sa: "send_append f sent (Some es) False ?u = Some (out, s')" by simp
    have wu: "steps_well s1 ?u" by (rule steps_well_refl) (simp_all add: log_part_def)
    have "sent \<le> top_index ?u" using assms(2) le_top(1) [of ?u] by (simp add: s1)
    then have "steps_well ?u s'" by (rule send_append_steps [OF sa])
    then have "steps_well s s'" by (rule steps_well_trans [OF w1 steps_well_trans [OF wu]])
    moreover have "re_log (entry i s) \<noteq> None" if "i \<in> {max (sent + 1) (min_active s)..last_log s}" for i
      using filled that by fastforce
    moreover have "cur_term s1 = cur_term s" "commit_index s1 = commit_index s" by (simp_all add: s1(1))
    moreover have "same_entries ?u t = same_entries s t" for t
      using se(2) [of t] by (simp add: same_entries_def entry_def)
    ultimately show ?thesis using send_append_Some [OF sa, unfolded eu] es by (simp del: upt_Suc)
  qed
qed

lemma drain_step_cases:
  assumes "drain_step cap any f s = Some (out, s')"
  obtains (silent) "out = None" "log_part s' = log_part s" "cur_term s' = cur_term s"
  | (batch) sent u where "log_part u = log_part s" "cur_term u = cur_term s" "sent < last_log s"
      "drain_batch f sent u = Some (out, s')"
  | (heartbeat) u where "log_part u = log_part s" "cur_term u = cur_term s"
      "send_append f (last_log s) None True u = Some (out, s')"
proof (cases "is_leader s \<and> map_of (next_index s) f \<noteq> None")
  case False
  with assms have "out = None" "s' = s" by (auto simp: drain_step_def split: option.splits if_splits)
  with silent show thesis by simp
next
  case True
  then obtain ni0 where ni0: "map_of (next_index s) f = Some ni0" by auto
  let ?s1 = "s\<lparr>next_index := AList.update f (min ni0 (last_log s + 1)) (next_index s)\<rparr>"
  let ?sent = "watermark (min ni0 (last_log s + 1)) (at_default 0 (sent_index s) f)"
  let ?s2 = "?s1\<lparr>sent_index := AList.update f ?sent (sent_index s)\<rparr>"
  from assms True ni0 have "out = None \<and> (s' = ?s1 \<or> s' = ?s2) \<or>
      ?sent < last_log s \<and> drain_batch f ?sent ?s2 = Some (out, s') \<or>
      send_append f (last_log s) None True ?s2 = Some (out, s')"
    by (auto simp: drain_step_def Let_def split: if_splits)
  then consider "out = None \<and> (s' = ?s1 \<or> s' = ?s2)"
    | "?sent < last_log s" "drain_batch f ?sent ?s2 = Some (out, s')"
    | "send_append f (last_log s) None True ?s2 = Some (out, s')" by blast
  then show thesis
  proof cases
    case 1
    then show thesis by (intro silent) auto
  next
    case 2
    then show thesis by (intro batch [of ?s2 ?sent]) simp_all
  next
    case 3
    then show thesis by (intro heartbeat [of ?s2]) simp_all
  qed
qed

lemma drain_step_steps:
  assumes "drain_step cap any f s = Some (out, s')"
  shows "steps_well s s'"
  using assms
proof (cases rule: drain_step_cases)
  case silent
  then show ?thesis by (intro steps_well_refl) simp_all
next
  case (batch sent u)
  have "steps_well s u" "sent < last_log u" using batch(1-3) by (simp_all add: steps_well_refl log_part_eq)
  with drain_batch_Some [OF batch(4)] show ?thesis by (blast intro: steps_well_trans)
next
  case (heartbeat u)
  have "steps_well s u" "last_log s \<le> top_index u"
    using heartbeat(1,2) by (simp_all add: steps_well_refl log_part_eq le_topI)
  with send_append_steps [OF heartbeat(3)] show ?thesis by (blast intro: steps_well_trans)
qed

lemma handle_reply_steps:
  assumes "handle_reply cfg now f st sent_at hb reply s = Some s'"
  shows "steps_well s s'"
proof -
  define u where "u = (case map_of (in_flight_count s) f of
      Some n \<Rightarrow> if n > 0 then s\<lparr>in_flight_count := AList.update f (n - 1) (in_flight_count s)\<rparr> else s
    | None \<Rightarrow> s)"
  have u: "log_part u = log_part s" "cur_term u = cur_term s"
    by (auto simp: u_def log_part_def split: option.splits)
  note call = assms [unfolded handle_reply_def Let_def, folded u_def]
  have "log_part s' = log_part u \<and> cur_term u \<le> cur_term s'"
  proof (cases reply)
    case None
    with call show ?thesis by (auto simp: log_part_def)
  next
    case (Some r)
    obtain ok rterm rlast where r: "r = (ok, rterm, rlast)" by (cases r) auto
    show ?thesis
    proof (cases "\<not> ok \<and> rterm > st \<and> cur_term u = st")
      case True
      with call obtain s1 where s1: "setIsLeader cfg now False u = Some s1" and s': "s' = s1\<lparr>cur_term := rterm\<rparr>"
        by (auto simp: Some r bind_eq_Some_conv)
      from setIsLeader_Some [OF s1] True show ?thesis by (simp add: s' log_part_def)
    next
      case False
      with call show ?thesis by (auto simp: Some r split: if_splits)
    qed
  qed
  with u show ?thesis by (intro steps_well_refl) simp_all
qed

text \<open>The vote a call casts is for a term above the server's, which becomes the server's term.\<close>

lemma serve_steps:
  assumes "serve cfg call s = Some (v, s')"
  shows "steps_well s s'" "v = Some (t, can) \<Longrightarrow> cur_term s < t \<and> cur_term s' = t"
proof -
  show "steps_well s s'"
  proof (cases call)
    case (CALL_VOTE now i lt c ct)
    then show ?thesis using assms by (auto simp: bind_eq_Some_conv dest!: OnRequestVote_steps)
  next
    case (CALL_CAMPAIGN now files)
    then show ?thesis using assms by (auto simp: bind_eq_Some_conv dest!: RequestVote_start_steps)
  next
    case (CALL_ELECTED now af ct q)
    then show ?thesis using assms by (auto simp: bind_eq_Some_conv dest!: RequestVote_finish_steps)
  qed (use assms in \<open>auto simp: bind_eq_Some_conv dest: Start_steps OnAppendEntries_steps advance_commit_steps
         drain_step_steps handle_reply_steps\<close>)
  show "cur_term s < t \<and> cur_term s' = t" if "v = Some (t, can)"
    using assms that
    by (cases call)
       (auto simp: bind_eq_Some_conv split: if_splits option.splits
             dest!: OnRequestVote_steps RequestVote_start_steps)
qed

section \<open>Runs of a server\<close>

definition new_raft_server :: "u16 \<Rightarrow> u32 \<Rightarrow> u16 list \<Rightarrow> raft_server" where
  "new_raft_server site par fs =
     \<lparr>r_site = site, r_loc = site, r_par = par, r_n = length fs + 1, r_followers = fs,
      match_index = map (\<lambda>f. (f, 0)) fs, next_index = map (\<lambda>f. (f, 1)) fs,
      sent_index = map (\<lambda>f. (f, 0)) fs, in_flight_count = map (\<lambda>f. (f, 0)) fs,
      is_leader = False, vote_for = - 1, cur_term = 0, last_log = 0, commit_index = 0, exec_index = 0,
      raft_logs = [], min_active = 1, r_old_view = empty_view, r_new_view = empty_view, r_views = [],
      last_heartbeat = 0, last_ae_send = [], lease_expires = 0, leader_warmup = 0, recovery_pending = False,
      req_voting = False, init_done = False, post_done = False, failure_seen = False, applied = []\<rparr>"

fun serve_all :: "raft_cfg \<Rightarrow> raft_call list \<Rightarrow> raft_server \<Rightarrow> raft_server option" where
  "serve_all cfg [] s = Some s"
| "serve_all cfg (c # cs) s = do {(_, s1) \<leftarrow> serve cfg c s; serve_all cfg cs s1}"

lemmas raft_eval = new_raft_server_def RequestVote_start_def RefreshElectionSignals_def resetTimer_def
  GetRaftInstance_def entry_def no_entry_def term_at_def put_entry_def SetLocalAppend_def Start_def
  TriggerJetpackRecovery_def reset_followers_def setIsLeader_def doVote_def OnRequestVote_def
  MarkElectionDone_def new_vote_event_def Vote_FeedResponse_def RequestVote_finish_def Yes_def No_def
  VoteYes_def VoteNo_def quorum_event.defs as_commit_def removeCmd_def applyLogs_def follow_view_def
  append_accepted_def OnAppendEntries_def commit_candidate_def advance_commit_def send_append_def
  drain_batch_def watermark_def drain_step_def RecomputeLease_def handle_reply_def HasReadLease_def
  UpdatePartitionView_def at_default_def Let_def vrfy_def

lemmas raft_congs = bind_weak_cong let_weak_cong

text \<open>Servers and messages for concrete runs.\<close>

abbreviation plain :: raft_cfg where "plain \<equiv> \<lparr>cfg_curp = False, cfg_rule = False\<rparr>"

abbreviation tx :: "u64 \<Rightarrow> marshallable" where "tx k \<equiv> CMD_TPC_COMMIT k None"

abbreviation append_of :: "nat \<Rightarrow> nat \<Rightarrow> nat \<Rightarrow> (nat \<times> marshallable) list \<Rightarrow> append_msg" where
  "append_of t p c es \<equiv> \<lparr>ae_term = t, ae_leader = 1, ae_prev_index = p, ae_prev_term = 0, ae_commit = c, ae_cmds = Some es\<rparr>"

abbreviation leader_of :: "nat \<Rightarrow> nat \<Rightarrow> (nat \<times> raft_entry) list \<Rightarrow> raft_server" where
  "leader_of a n es \<equiv> (new_raft_server 1 0 [2, 3])\<lparr>is_leader := True, cur_term := 1, last_log := n,
     raft_logs := es, min_active := a\<rparr>"

abbreviation tx_entry :: "u64 \<Rightarrow> raft_entry" where
  "tx_entry k \<equiv> \<lparr>re_term = 1, re_log = Some (tx k)\<rparr>"

lemma new_raft_ok: "raft_ok (new_raft_server site par fs)"
  by (simp add: raft_ok_def top_index_def new_raft_server_def)

lemma serve_all_steps: "serve_all cfg cs s = Some s' \<Longrightarrow> steps_well s s'"
proof (induction cs arbitrary: s)
  case (Cons c cs)
  then obtain v s1 where "serve cfg c s = Some (v, s1)" "serve_all cfg cs s1 = Some s'"
    by (auto simp: bind_eq_Some_conv)
  with Cons.IH serve_steps(1) show ?case by (blast intro: steps_well_trans)
qed (simp add: steps_well_def)

text \<open>
  C14. Whatever sequence of calls a fresh server serves without aborting (submissions, votes,
  campaigns, appends in any order and of any content, commits, drains, replies), every slot from
  the first active one to its highest index holds a command and nothing unexecuted is freed;
  so application never stalls: \<^verbatim>\<open>applyLogs\<close> returns, it applies exactly the commands of the
  slots above the executed index up to the commit index, in that order and each once, and the
  executed index reaches the commit index.
\<close>

theorem raft_applies_in_order:
  assumes "serve_all cfg cs (new_raft_server site par fs) = Some s"
  shows "raft_ok s \<and> (\<exists>s'. applyLogs s = Some s' \<and> raft_ok s' \<and>
           applied s' = applied s @ map (\<lambda>i. the (re_log (entry i s))) [exec_index s + 1 ..< commit_index s + 1] \<and>
           exec_index s' = max (exec_index s) (commit_index s))"
proof -
  have ok: "raft_ok s"
    using serve_all_steps [OF assms] new_raft_ok by (simp add: steps_well_def)
  from applyLogs_ok [OF this] obtain s' L a where "applyLogs s = Some s'" "raft_ok s'"
    "s' = s\<lparr>exec_index := max (exec_index s) (commit_index s), raft_logs := L, min_active := a,
            applied := applied s @ map (cmd_at s) [exec_index s + 1 ..< commit_index s + 1]\<rparr>" by blast
  then show ?thesis using ok by (intro conjI exI [of _ s']) simp_all
qed

theorem raft_applies_in_order_witness:
  "\<exists>s s'. serve_all plain [CALL_APPEND 5 (append_of 1 0 1 [(1, tx 7), (1, tx 8)])] (new_raft_server 2 0 [1, 3]) = Some s \<and>
     applied s = [tx 7] \<and> raft_ok s \<and> applyLogs s = Some s' \<and> exec_index s' = 1"
proof -
  let ?run = "serve_all plain [CALL_APPEND 5 (append_of 1 0 1 [(1, tx 7), (1, tx 8)])] (new_raft_server 2 0 [1, 3])"
  have "\<exists>s. ?run = Some s \<and> applied s = [tx 7] \<and> exec_index s = 1 \<and> commit_index s = 1"
    by (simp add: raft_eval cong: raft_congs)
  then obtain s where s: "?run = Some s" "applied s = [tx 7]" "exec_index s = 1" "commit_index s = 1" by blast
  from raft_applies_in_order [OF s(1)] obtain s' where "raft_ok s" "applyLogs s = Some s'" "exec_index s' = 1"
    unfolding s(3,4) by auto
  with s(1,2) show ?thesis by blast
qed

section \<open>The commit rule\<close>

text \<open>The followers known to hold the log up to an index, the leader itself not counted.\<close>

abbreviation matched :: "raft_server \<Rightarrow> nat \<Rightarrow> nat" where
  "matched s i \<equiv> count_vals (\<lambda>k. i \<le> k) (match_index s)"

lemma count_vals_snd: "count_vals P m = length (filter P (map snd m))"
  by (induction m) (auto simp: count_vals_def)

lemma commit_candidate_rank:
  assumes "length (match_index s) = r_n s - 1" "2 \<le> r_n s"
  shows "r_n s div 2 \<le> matched s (commit_candidate s)"
    "i \<le> last_log s \<Longrightarrow> r_n s div 2 \<le> matched s i \<Longrightarrow> i \<le> commit_candidate s"
proof -
  let ?ms = "map snd (match_index s)" and ?k = "(r_n s - 1) div 2"
  have k: "?k < length ?ms" "length ?ms - ?k = r_n s div 2" using assms by auto
  have mono: "length (filter (\<lambda>x. b \<le> x) xs) \<le> length (filter (\<lambda>x. a \<le> x) xs)" if "a \<le> b" for a b :: nat and xs
    using that by (induction xs) auto
  have "r_n s div 2 \<le> length (filter (\<lambda>x. sort ?ms ! ?k \<le> x) ?ms)" using rank_reached [OF k(1)] k(2) by simp
  also have "\<dots> \<le> length (filter (\<lambda>x. commit_candidate s \<le> x) ?ms)" by (rule mono) (simp add: commit_candidate_def)
  finally show "r_n s div 2 \<le> matched s (commit_candidate s)" by (simp add: count_vals_snd)
  assume "i \<le> last_log s" "r_n s div 2 \<le> matched s i"
  then show "i \<le> commit_candidate s"
    using rank_greatest [OF k(1), of i] k(2) by (simp add: commit_candidate_def count_vals_snd)
qed

lemma applyLogs_commit: "applyLogs u = Some u' \<Longrightarrow> commit_index u' = commit_index u"
proof -
  assume "applyLogs u = Some u'"
  then obtain u1 where "apply_steps (commit_index u - exec_index u) u = Some u1"
    "trim_steps (exec_index u1 - 600000 - min_active u1) u1 = Some u'"
    by (auto simp: applyLogs_def bind_eq_Some_conv)
  then show ?thesis by (auto dest!: apply_steps_Some trim_steps_Some)
qed

text \<open>
  C17. The leader's commit step never lowers the commit index. When it raises it, the new index is
  inside the log, its entry is of the leader's current term, at least half of the partition's
  servers besides the leader are known to hold the log up to it (so a majority with the leader),
  and it is the greatest such index: every index of the log that so many followers hold is at
  or below it.
\<close>

theorem commit_needs_majority:
  assumes "advance_commit s = Some s'" "2 \<le> r_n s" "commit_index s' \<noteq> commit_index s"
  shows "commit_index s < commit_index s' \<and> commit_index s' \<le> last_log s \<and>
     re_term (entry (commit_index s') s) = cur_term s \<and>
     r_n s < 2 * (matched s (commit_index s') + 1) \<and>
     (\<forall>i. i \<le> last_log s \<longrightarrow> r_n s div 2 \<le> matched s i \<longrightarrow> i \<le> commit_index s')"
  using assms(1)
proof (cases rule: advance_commit_cases)
  case nothing
  with assms(3) show ?thesis by simp
next
  case (apply_only s1)
  then have "commit_index s' = commit_index s" by (auto dest: applyLogs_commit simp: same_entries_def)
  with assms(3) show ?thesis by simp
next
  case (commit s1)
  from commit(7) have c: "commit_index s' = commit_candidate s" by (auto dest: applyLogs_commit)
  note rank = commit_candidate_rank [OF commit(1) assms(2)]
  from rank(1) have "r_n s < 2 * (matched s (commit_candidate s) + 1)" by presburger
  with rank(2) commit(2,3) commit_candidate_le [of s] show ?thesis unfolding c by blast
qed

theorem commit_needs_majority_witness:
  "\<exists>s'. advance_commit ((leader_of 1 2 [(1, tx_entry 7), (2, tx_entry 8)])\<lparr>match_index := [(2, 2), (3, 0)]\<rparr>) = Some s' \<and>
     commit_index s' = 2 \<and>
     3 < 2 * (matched ((leader_of 1 2 [(1, tx_entry 7), (2, tx_entry 8)])\<lparr>match_index := [(2, 2), (3, 0)]\<rparr>) (commit_index s') + 1)"
proof -
  let ?s = "(leader_of 1 2 [(1, tx_entry 7), (2, tx_entry 8)])\<lparr>match_index := [(2, 2), (3, 0)]\<rparr>"
  have "\<exists>s'. advance_commit ?s = Some s' \<and> commit_index s' = 2"
    by (simp add: raft_eval numeral_2_eq_2 cong: raft_congs)
  then obtain s' where s': "advance_commit ?s = Some s'" "commit_index s' = 2" by blast
  have "2 \<le> r_n ?s" "commit_index s' \<noteq> commit_index ?s" "r_n ?s = 3"
    using s'(2) by (simp_all add: new_raft_server_def)
  with commit_needs_majority [OF s'(1)] s' show ?thesis by metis
qed

section \<open>Read leases\<close>

text \<open>
  C18. When \<^verbatim>\<open>RecomputeLease\<close> extends the lease of a leader in a partition of several servers,
  at least half of the partition's servers besides the leader acknowledged an append that was
  sent no earlier than the lease's end minus the lease duration; the lease is extended no
  further than that many acknowledgements allow.
\<close>

theorem lease_anchored_by_majority:
  assumes "2 \<le> r_n s" "0 \<le> lease_expires s" "lease_expires s < lease_expires (RecomputeLease now s)"
  shows "r_n s div 2 \<le> count_vals (\<lambda>t. lease_expires (RecomputeLease now s) - read_lease_us \<le> t) (last_ae_send s)"
proof -
  let ?q = "r_n s div 2" and ?ts = "map snd (last_ae_send s)"
  have enough: "?q \<le> length ?ts"
    using assms by (auto simp: RecomputeLease_def Let_def split: if_splits)
  have k: "length ?ts - ?q < length ?ts" "length ?ts - (length ?ts - ?q) = ?q" using enough assms(1) by auto
  have "rev (sort ?ts) ! (?q - 1) = sort ?ts ! (length ?ts - ?q)"
    using enough assms(1) by (simp add: rev_nth)
  then have "lease_expires (RecomputeLease now s) - read_lease_us = sort ?ts ! (length ?ts - ?q)"
    using assms by (auto simp: RecomputeLease_def Let_def split: if_splits)
  with rank_reached [OF k(1)] k(2) show ?thesis by (simp add: count_vals_snd)
qed

theorem lease_anchored_by_majority_witness:
  "lease_expires (RecomputeLease 9 ((leader_of 1 0 [])\<lparr>last_ae_send := [(2, 5)]\<rparr>)) = 250005 \<and>
   1 \<le> count_vals (\<lambda>t. 5 \<le> t) (last_ae_send ((leader_of 1 0 [])\<lparr>last_ae_send := [(2, 5)]\<rparr>))"
  using lease_anchored_by_majority [of "(leader_of 1 0 [])\<lparr>last_ae_send := [(2, 5)]\<rparr>" 9]
  by (simp add: RecomputeLease_def new_raft_server_def)

section \<open>Replication\<close>

text \<open>What the leader sends is a contiguous piece of its log, unless part of the piece is freed.\<close>

lemma drain_step_sends:
  assumes "drain_step cap any f l = Some (Some (m, False), l')"
  shows "same_entries l l' \<and> cur_term l' = cur_term l \<and> ae_term m = cur_term l \<and> ae_commit m = commit_index l \<and>
     ae_prev_index m < last_log l \<and> ae_prev_term m = re_term (entry (ae_prev_index m) l) \<and>
     ae_entries m = map (\<lambda>i. (re_term (entry i l), cmd_at l i)) [max (ae_prev_index m + 1) (min_active l) ..< last_log l + 1] \<and>
     (\<forall>i\<in>{max (ae_prev_index m + 1) (min_active l)..last_log l}. re_log (entry i l) \<noteq> None)"
  using assms
proof (cases rule: drain_step_cases)
  case (batch sent u)
  have u: "last_log u = last_log l" "min_active u = min_active l" "commit_index u = commit_index l"
    "entry i u = entry i l" "same_entries u t = same_entries l t" for i t
    using batch(1) by (simp_all add: log_part_eq entry_def same_entries_def)
  have "sent < last_log u" using batch(3) u by simp
  from drain_batch_Some [OF batch(4) this] batch(2,3) show ?thesis
    by (simp add: u del: upt_Suc)
next
  case (heartbeat u)
  from send_append_Some [OF heartbeat(3)] show ?thesis by simp
qed simp

lemma handle_reply_success:
  assumes "handle_reply cfg now f st sent_at False (Some (True, t, k)) l = Some l'" "cur_term l \<le> st"
  shows "at_default 0 (match_index l') f = max (at_default 0 (match_index l) f) (min k (last_log l))"
proof -
  define u where "u = (case map_of (in_flight_count l) f of
      Some n \<Rightarrow> if n > 0 then l\<lparr>in_flight_count := AList.update f (n - 1) (in_flight_count l)\<rparr> else l
    | None \<Rightarrow> l)"
  have u: "match_index u = match_index l" "last_log u = last_log l" "cur_term u = cur_term l"
    by (auto simp: u_def split: option.splits)
  have lease: "match_index (RecomputeLease now v) = match_index v" for v
    by (simp add: RecomputeLease_def Let_def)
  note call = assms(1) [unfolded handle_reply_def Let_def, folded u_def]
  from call assms(2) show ?thesis
    by (cases "is_leader u") (auto simp: u lease)
qed



text \<open>
  A batch that is shorter than the follower's log, accepted late, cuts the log: the follower
  ends up with a log that ends below its own commit index, though it had acknowledged more.
\<close>

theorem stale_append_truncates:
  assumes "raft_ok s" "OnAppendEntries cfg now m s = Some ((True, t, k), s')" "ae_entries m \<noteq> []"
    "ae_prev_index m + length (ae_entries m) < commit_index s" "ae_commit m \<le> commit_index s"
  shows "last_log s' = ae_prev_index m + length (ae_entries m) \<and> last_log s' < commit_index s'"
  using OnAppendEntries_accept [OF assms(1,2)] assms(3-5) by simp

theorem stale_append_truncates_witness:
  "\<exists>s r s' t k.
     OnAppendEntries plain 5 (append_of 1 0 2 [(1, tx 7), (1, tx 8)]) (new_raft_server 2 0 [1, 3]) = Some (r, s) \<and>
     OnAppendEntries plain 6 (append_of 1 0 0 [(1, tx 7)]) s = Some ((True, t, k), s') \<and>
     commit_index s' = 2 \<and> last_log s' = 1 \<and> last_log s' < commit_index s'"
proof -
  let ?m = "append_of 1 0 2 [(1, tx 7), (1, tx 8)]" and ?m' = "append_of 1 0 0 [(1, tx 7)]"
  have "\<exists>s a b s' t k. OnAppendEntries plain 5 ?m (new_raft_server 2 0 [1, 3]) = Some ((True, a, b), s) \<and>
     OnAppendEntries plain 6 ?m' s = Some ((True, t, k), s') \<and> commit_index s = 2 \<and> commit_index s' = 2"
    by (simp add: raft_eval numeral_2_eq_2 cong: raft_congs)
  then obtain s a b s' t k where ev: "OnAppendEntries plain 5 ?m (new_raft_server 2 0 [1, 3]) = Some ((True, a, b), s)"
     "OnAppendEntries plain 6 ?m' s = Some ((True, t, k), s')" "commit_index s = 2" "commit_index s' = 2"
    by blast
  have "raft_ok s" using OnAppendEntries_accept [OF new_raft_ok ev(1)] by blast
  from stale_append_truncates [OF this ev(2)] ev show ?thesis by fastforce
qed

text \<open>
  A leader that has freed the start of its log still attaches the batch for a follower at
  index 0 to index 0: an accepting follower stores the leader's first retained entry in its
  slot 1.
\<close>

theorem trimmed_batch_misplaced:
  assumes "raft_ok s" "min_active s' \<le> 1" "drain_step cap any f l = Some (Some (m, False), l')"
    "ae_prev_index m = 0" "1 < min_active l" "min_active l \<le> last_log l"
    "OnAppendEntries cfg now m s = Some ((True, t, k), s')"
  shows "entry 1 s' = entry (min_active l) l"
proof -
  note sends = drain_step_sends [OF assms(3)]
  have es: "ae_entries m = map (\<lambda>i. (re_term (entry i l), cmd_at l i)) [min_active l ..< last_log l + 1]"
    using sends assms(4,5) by (simp add: max_def)
  have len: "0 < length (ae_entries m)" using assms(6) by (simp add: es)
  have "re_log (entry (min_active l) l) \<noteq> None" using sends assms(4-6) by auto
  then have "\<lparr>re_term = re_term (entry (min_active l) l), re_log = Some (cmd_at l (min_active l))\<rparr> = entry (min_active l) l"
    by auto
  moreover have "ae_entries m ! 0 = (re_term (entry (min_active l) l), cmd_at l (min_active l))"
    using assms(6) by (simp add: es upt_conv_Cons del: upt_Suc)
  ultimately show ?thesis
    using OnAppendEntries_accept [OF assms(1,7)] assms(2,4) len by (simp add: Suc_le_eq)
qed

theorem trimmed_batch_misplaced_witness:
  "\<exists>m l' t k s'. drain_step 8 False 2 (leader_of 2 2 [(2, tx_entry 8)]) = Some (Some (m, False), l') \<and>
     OnAppendEntries plain 5 m (new_raft_server 2 0 [1, 3]) = Some ((True, t, k), s') \<and> entry 1 s' = tx_entry 8"
proof -
  let ?l = "leader_of 2 2 [(2, tx_entry 8)]"
  have l: "last_log ?l = 2" "min_active ?l = 2" "entry 2 ?l = tx_entry 8" by (simp_all add: entry_def at_default_def)
  have "\<exists>m l' t k s'. drain_step 8 False 2 ?l = Some (Some (m, False), l') \<and>
     OnAppendEntries plain 5 m (new_raft_server 2 0 [1, 3]) = Some ((True, t, k), s') \<and> ae_prev_index m = 0 \<and> min_active s' = 1"
    by (simp add: raft_eval numeral_2_eq_2 cong: raft_congs)
  then obtain m l' t k s' where ev: "drain_step 8 False 2 ?l = Some (Some (m, False), l')"
     "OnAppendEntries plain 5 m (new_raft_server 2 0 [1, 3]) = Some ((True, t, k), s')" "ae_prev_index m = 0" "min_active s' = 1"
    by blast
  have "min_active s' \<le> 1" "1 < min_active ?l" "min_active ?l \<le> last_log ?l" using ev(4) l by simp_all
  from trimmed_batch_misplaced [OF new_raft_ok this(1) ev(1,3) this(2,3) ev(2)] ev l show ?thesis by fastforce
qed

end
