(* ===== verification/RaftElection.thy ===== *)
theory RaftElection
  imports RaftReplication
begin

text \<open>
  Elections and leases across the servers of a partition. The votes cast are a history variable
  beside the servers; messages may be lost, repeated, reordered or made up, so a step is any
  call served by any server. One candidate at most collects a quorum of votes in a term. Being
  leader is more than having won: a leader that refuses a vote adopts the candidate's term and
  keeps leading, and a read lease does not keep its followers from electing another leader;
  both are shown on runs of three servers.
\<close>

section \<open>The partition as a step relation\<close>

type_synonym raft_cluster = "u16 \<Rightarrow> raft_server"
type_synonym cast_votes = "(u16 \<times> nat \<times> u16) set"

inductive raft_step :: "raft_cfg \<Rightarrow> raft_cluster \<times> cast_votes \<Rightarrow> raft_cluster \<times> cast_votes \<Rightarrow> bool"
  for cfg where
  silent: "serve cfg call (c i) = Some (None, s') \<Longrightarrow> raft_step cfg (c, V) (c(i := s'), V)"
| vote: "serve cfg call (c i) = Some (Some (t, can), s') \<Longrightarrow>
         raft_step cfg (c, V) (c(i := s'), insert (i, t, can) V)"

inductive raft_reach :: "raft_cfg \<Rightarrow> raft_cluster \<Rightarrow> raft_cluster \<times> cast_votes \<Rightarrow> bool" for cfg c0 where
  start: "raft_reach cfg c0 (c0, {})"
| step: "raft_reach cfg c0 x \<Longrightarrow> raft_step cfg x y \<Longrightarrow> raft_reach cfg c0 y"

text \<open>A vote is never above its voter's term, and a voter casts one vote per term.\<close>

definition votes_inv :: "raft_cluster \<times> cast_votes \<Rightarrow> bool" where
  "votes_inv x \<longleftrightarrow> (\<forall>i t a. (i, t, a) \<in> snd x \<longrightarrow> t \<le> cur_term (fst x i)) \<and>
     (\<forall>i t a b. (i, t, a) \<in> snd x \<longrightarrow> (i, t, b) \<in> snd x \<longrightarrow> a = b)"

lemma votes_inv_step:
  assumes "votes_inv x" "raft_step cfg x y"
  shows "votes_inv y"
  using assms(2)
proof (cases rule: raft_step.cases)
  case (silent call c i s' V)
  have "cur_term (c i) \<le> cur_term s'" using serve_steps(1) [OF silent(3)] by (simp add: steps_well_def)
  then have "t \<le> cur_term ((c(i := s')) j)" if "t \<le> cur_term (c j)" for t j using that by auto
  then show ?thesis using assms(1) unfolding silent(1,2) votes_inv_def fst_conv snd_conv by blast
next
  case (vote call c i t can s' V)
  have gt: "cur_term (c i) < t" "cur_term s' = t" using serve_steps(2) [OF vote(3)] by auto
  have old: "u \<le> cur_term (c j)" "a = b" if "(j, u, a) \<in> V" "(j, u, b) \<in> V" for j u a b
    using assms(1) that unfolding vote(1) votes_inv_def fst_conv snd_conv by blast+
  have fresh: "(i, t, b) \<notin> V" for b using old(1) [of i t b b] gt by auto
  have "u \<le> cur_term ((c(i := s')) j)" if "(j, u, a) \<in> insert (i, t, can) V" for j u a
    using that old(1) [of j u a a] gt by auto
  moreover have "a = b" if "(j, u, a) \<in> insert (i, t, can) V" "(j, u, b) \<in> insert (i, t, can) V" for j u a b
    using that fresh old(2) [of j u a b] by auto
  ultimately show ?thesis unfolding vote(2) votes_inv_def fst_conv snd_conv by blast
qed

lemma votes_inv_reach: "raft_reach cfg c0 x \<Longrightarrow> votes_inv x"
  by (induction rule: raft_reach.induct) (auto simp: votes_inv_def [of "(_, {})"] dest: votes_inv_step)

section \<open>Winning\<close>

text \<open>
  Candidate \<open>x\<close> at site \<open>i\<close> has campaigned in term \<open>t\<close> and the replies of the sites \<open>js\<close>
  complete its quorum event.
\<close>

definition tally :: "cast_votes \<Rightarrow> nat \<Rightarrow> u16 \<Rightarrow> u16 list \<Rightarrow> vote_event \<Rightarrow> vote_event" where
  "tally V t x js e = fold (\<lambda>j. Vote_FeedResponse ((j, t, x) \<in> V) t) js e"

definition won :: "u16 list \<Rightarrow> cast_votes \<Rightarrow> nat \<Rightarrow> u16 \<Rightarrow> u16 list \<Rightarrow> u16 \<Rightarrow> bool" where
  "won R V t i js x \<longleftrightarrow> i \<in> set R \<and> (i, t, x) \<in> V \<and> distinct js \<and> set js \<subseteq> set R - {i} \<and>
     Yes (tally V t x js (new_vote_event (int (length R))))"

lemma tally_yes:
  "n_voted_yes (tally V t x js e) = n_voted_yes e + int (length (filter (\<lambda>j. (j, t, x) \<in> V) js)) \<and>
   quorum (tally V t x js e) = quorum e"
  by (induction js arbitrary: e)
     (auto simp: tally_def Vote_FeedResponse_def VoteYes_def VoteNo_def Let_def)

lemma won_quorum:
  assumes "won R V t i js x" "distinct R"
  shows "length R < 2 * card {j \<in> set R. (j, t, x) \<in> V}"
proof -
  let ?A = "{j \<in> set js. (j, t, x) \<in> V}"
  from assms have js: "distinct js" "set js \<subseteq> set R - {i}" "i \<in> set R" "(i, t, x) \<in> V"
    by (auto simp: won_def)
  have "length (filter (\<lambda>j. (j, t, x) \<in> V) js) = card ?A"
    using js(1) by (simp add: distinct_card [symmetric] distinct_filter)
  moreover have "Yes (tally V t x js (new_vote_event (int (length R))))" using assms(1) by (simp add: won_def)
  ultimately have "int (length R) div 2 \<le> int (card ?A)"
    using tally_yes [of V t x js "new_vote_event (int (length R))"]
    by (simp add: Yes_def new_vote_event_def quorum_event.defs)
  then have "length R < 2 * (card ?A + 1)" by presburger
  also have "card ?A + 1 = card (insert i ?A)" using js(2) by (subst card_insert_disjoint) auto
  also have "\<dots> \<le> card {j \<in> set R. (j, t, x) \<in> V}" using js by (intro card_mono) auto
  finally show ?thesis by simp
qed

text \<open>
  C15. In any reachable state of a partition, whatever messages its servers were served, two
  candidates whose quorum events are satisfied by votes cast in the same term are the same
  candidate.
\<close>

theorem one_winner_per_term:
  assumes "raft_reach cfg c0 (c, V)" "distinct R" "won R V t i is x" "won R V t j js y"
  shows "x = y"
proof -
  let ?A = "{k \<in> set R. (k, t, x) \<in> V}" and ?B = "{k \<in> set R. (k, t, y) \<in> V}"
  have "card (set R) < card ?A + card ?B"
    using won_quorum [OF assms(3,2)] won_quorum [OF assms(4,2)] distinct_card [OF assms(2)] by linarith
  then obtain k where "k \<in> ?A" "k \<in> ?B"
    by (rule quorums_intersect [of "set R" ?A ?B, rotated 3]) auto
  then show ?thesis using votes_inv_reach [OF assms(1)] unfolding votes_inv_def snd_conv by blast
qed

text \<open>Site 1 campaigns in term 1 and site 2 votes for it: nobody else can win term 1.\<close>

theorem one_winner_per_term_witness:
  "\<exists>c V. raft_reach plain (\<lambda>i. new_raft_server i 0 (remove1 i [1, 2, 3])) (c, V) \<and> won [1, 2, 3] V 1 1 [2] 1 \<and>
     (\<forall>j js y. won [1, 2, 3] V 1 j js y \<longrightarrow> y = 1)"
proof -
  let ?init = "\<lambda>i. new_raft_server i 0 (remove1 i [1, 2, 3])" and ?no = "(False, False, False)"
  have "\<exists>s1. serve plain (CALL_CAMPAIGN 0 ?no) (?init 1) = Some (Some (1, 1), s1)"
    by (simp add: raft_eval cong: raft_congs)
  then obtain s1 where s1: "serve plain (CALL_CAMPAIGN 0 ?no) (?init 1) = Some (Some (1, 1), s1)" by blast
  have "\<exists>s2. serve plain (CALL_VOTE 0 0 0 1 1) (?init 2) = Some (Some (1, 1), s2)"
    by (simp add: raft_eval cong: raft_congs)
  then obtain s2 where s2: "serve plain (CALL_VOTE 0 0 0 1 1) ((?init(1 := s1)) 2) = Some (Some (1, 1), s2)" by auto
  let ?c = "?init(1 := s1, 2 := s2)" and ?V = "{(2, 1, 1), (1, 1, 1)}"
  have "raft_step plain (?init, {}) (?init(1 := s1), {(1, 1, 1)})"
    using raft_step.vote [of plain "CALL_CAMPAIGN 0 ?no" ?init 1 1 1 s1 "{}"] s1 by simp
  moreover have "raft_step plain (?init(1 := s1), {(1, 1, 1)}) (?c, ?V)"
    using raft_step.vote [of plain "CALL_VOTE 0 0 0 1 1" "?init(1 := s1)" 2 1 1 s2 "{(1, 1, 1)}", OF s2] by simp
  ultimately have reach: "raft_reach plain ?init (?c, ?V)"
    by (blast intro: raft_reach.intros)
  have w: "won [1, 2, 3] ?V 1 1 [2] 1"
    by (simp add: won_def tally_def raft_eval)
  from one_winner_per_term [OF reach _ w] have "\<forall>j js y. won [1, 2, 3] ?V 1 j js y \<longrightarrow> y = 1" by auto
  with reach w show ?thesis by blast
qed

section \<open>Leading without having won\<close>

text \<open>
  An election decided by one voter, and one round of replication to a follower, composed of the
  handlers of both sides: what a handler answers is what the other side is served.
\<close>

definition elect ::
  "raft_cfg \<Rightarrow> int \<Rightarrow> bool \<times> bool \<times> bool \<Rightarrow> raft_server \<Rightarrow> raft_server \<Rightarrow> (raft_server \<times> raft_server) option" where
  "elect cfg now files c v =
     do {(req, c1) \<leftarrow> RequestVote_start now files c;
         (i, t, can, ct) \<leftarrow> req;
         ((g, rt), v1) \<leftarrow> OnRequestVote cfg now i t can ct v;
         (ok, c2) \<leftarrow> RequestVote_finish cfg now (failure_seen c1) ct
                     (Vote_FeedResponse g rt (new_vote_event (int (r_n c1)))) c1;
         vrfy ok;
         Some (c2, v1)}"

definition replicate_to ::
  "raft_cfg \<Rightarrow> int \<Rightarrow> int \<Rightarrow> raft_server \<Rightarrow> raft_server \<Rightarrow> (raft_server \<times> raft_server) option" where
  "replicate_to cfg sent_at now l f =
     do {(out, l1) \<leftarrow> drain_step 8000 False (r_site f) l;
         (m, hb) \<leftarrow> out;
         (reply, f1) \<leftarrow> OnAppendEntries cfg now m f;
         l2 \<leftarrow> handle_reply cfg now (r_site f) (ae_term m) sent_at hb (Some reply) l1;
         l3 \<leftarrow> advance_commit l2;
         Some (l3, f1)}"

text \<open>
  Site 1 leads term 1 and has an entry nobody else holds; site 3 campaigns in term 2, site 1
  refuses and site 2 votes. Then both submit and replicate to site 2.
\<close>

definition split_brain :: "(raft_server \<times> raft_server) option" where
  "split_brain =
     do {let s1 = new_raft_server 1 0 [2, 3];
         let s2 = new_raft_server 2 0 [1, 3];
         let s3 = new_raft_server 3 0 [1, 2];
         (s1, s2) \<leftarrow> elect plain 0 (False, False, False) s1 s2;
         (s1, s3) \<leftarrow> replicate_to plain 1 1 s1 s3;
         (_, _, _, s1) \<leftarrow> Start (tx 7) s1;
         (req, _) \<leftarrow> RequestVote_start 2 (True, True, False) s3;
         (i, t, can, ct) \<leftarrow> req;
         (_, s1) \<leftarrow> OnRequestVote plain 2 i t can ct s1;
         (s3, s2) \<leftarrow> elect plain 2 (True, True, False) s3 s2;
         (_, _, _, s1) \<leftarrow> Start (tx 8) s1;
         (s1, s2) \<leftarrow> replicate_to plain 3 3 s1 s2;
         (_, _, _, s3) \<leftarrow> Start (tx 9) s3;
         (s3, s2) \<leftarrow> replicate_to plain 4 4 s3 s2;
         Some (s1, s3)}"


text \<open>
  Site 1 leads; site 2 acknowledges an append sent at 300 ms, so site 1 holds a lease up to
  550 ms. Site 3, which did not hear from site 1, campaigns at 400 ms and site 2 votes for it.
\<close>

definition lease_overlap :: "(raft_server \<times> raft_server) option" where
  "lease_overlap =
     do {let s1 = new_raft_server 1 0 [2, 3];
         let s2 = new_raft_server 2 0 [1, 3];
         let s3 = new_raft_server 3 0 [1, 2];
         (s1, s2) \<leftarrow> elect plain 0 (False, False, False) s1 s2;
         (s1, s3) \<leftarrow> replicate_to plain 1 1 s1 s3;
         (s1, s2) \<leftarrow> replicate_to plain 300000 310000 s1 s2;
         (s3, s2) \<leftarrow> elect plain 400000 (True, True, False) s3 s2;
         (_, _, _, s3) \<leftarrow> Start (tx 9) s3;
         (s3, s2) \<leftarrow> replicate_to plain 420000 420000 s3 s2;
         Some (s1, s3)}"

text \<open>
  A follower that acknowledged the append a lease is anchored at may vote for another
  candidate before the lease ends: at 450 ms the first leader still holds its read lease while
  the second leads a newer term and has applied a command the first has not.
\<close>

theorem lease_outlives_leadership:
  "\<exists>s1 s3. lease_overlap = Some (s1, s3) \<and> HasReadLease 450000 s1 \<and> is_leader s3 \<and>
     cur_term s1 < cur_term s3 \<and> applied s1 = [] \<and> applied s3 = [tx 9]"
  by (simp add: lease_overlap_def elect_def replicate_to_def raft_eval cong: raft_congs)

end
