(* ===== verification/RuleServer.thy ===== *)
theory RuleServer
  imports CommandPool Witness
begin

text \<open>
  The server side of the fast path (\<^verbatim>\<open>scheduler.cc\<close>, with the conflict check of
  \<^verbatim>\<open>raft/server.cc\<close>): the vote on a speculative command, the commands that take the original
  path only and wait to be applied, their removal when they are applied, and the key-value
  table and checksum of the application. Load figures sent along with a vote are left out.
\<close>

section \<open>State\<close>

record rule_cfg =
  cfg_is_curp :: bool
  cfg_mode_rule :: bool
  cfg_skip_pool :: bool

record rule_server =
  rs_paused :: bool
  rs_is_leader :: bool
  rs_recovering :: bool
  rs_pool :: command_pool
  rs_witness :: curp_witness
  inflight_original_path :: "(key_t \<times> (u64 \<times> bool) list) list"
  kv_table :: "(key_t \<times> value_t) list"
  database :: "(key_t \<times> value_t) list"
  database_operation_count :: int

section \<open>The vote\<close>

definition ConflictWithOriginalUnexecutedLog :: "marshallable \<Rightarrow> rule_server \<Rightarrow> bool option" where
  "ConflictWithOriginalUnexecutedLog cmd s =
     (if \<not> rs_is_leader s then Some False
      else if inflight_original_path s = [] then Some False
      else do {ks \<leftarrow> ExtractPoolKeys (Some cmd);
               case ks of
                 None \<Rightarrow> Some False
               | Some (k, cid, w) \<Rightarrow>
                   (case map_of (inflight_original_path s) k of
                      None \<Rightarrow> Some False
                    | Some es \<Rightarrow> Some (list_ex (\<lambda>(c, w'). c \<noteq> cid \<and> (w' \<or> w)) es))})"

text \<open>The answer is whether the command is accepted, the result, and whether the server leads.\<close>

definition OnRuleSpeculativeExecute ::
  "rule_cfg \<Rightarrow> marshallable \<Rightarrow> rule_server \<Rightarrow> ((bool \<times> value_t \<times> bool) \<times> rule_server) option" where
  "OnRuleSpeculativeExecute cfg cmd s =
     (if rs_paused s then Some ((False, 0, False), s)
      else if cfg_is_curp cfg
      then do {(ok, w) \<leftarrow> record_attempt cmd (rs_witness s);
               Some ((ok, 0, rs_is_leader s), s\<lparr>rs_witness := w\<rparr>)}
      else do {skip_pool_conflict \<leftarrow> (if cfg_skip_pool cfg \<and> rs_is_leader s
                                      then ConflictWithOriginalUnexecutedLog cmd s else Some False);
               if skip_pool_conflict then Some ((False, 0, rs_is_leader s), s)
               else do {(ok, p) \<leftarrow> pool_push_back (rs_recovering s) cmd (rs_pool s);
                        Some ((ok, 0, rs_is_leader s), s\<lparr>rs_pool := p\<rparr>)}})"

section \<open>Commands on the original path\<close>

definition OriginalPathPlaceHolder :: "rule_cfg \<Rightarrow> marshallable \<Rightarrow> rule_server \<Rightarrow> rule_server option" where
  "OriginalPathPlaceHolder cfg cmd s =
     (if \<not> cfg_mode_rule cfg then Some s
      else do {need \<leftarrow> NeedRecordConflictInOriginalPath cmd;
               if \<not> need then Some s
               else if cfg_skip_pool cfg
               then do {ks \<leftarrow> ExtractPoolKeys (Some cmd);
                        Some (case ks of
                                None \<Rightarrow> s
                              | Some (k, cid, w) \<Rightarrow>
                                  s\<lparr>inflight_original_path :=
                                      AList.update k (at_default [] (inflight_original_path s) k @ [(cid, w)])
                                        (inflight_original_path s)\<rparr>)}
               else do {(_, p) \<leftarrow> pool_push_back (rs_recovering s) cmd (rs_pool s); Some (s\<lparr>rs_pool := p\<rparr>)}})"

text \<open>The first entry with the identifier is erased, and the bucket with its last entry.\<close>

fun erase_first :: "u64 \<Rightarrow> (u64 \<times> bool) list \<Rightarrow> (u64 \<times> bool) list" where
  "erase_first c [] = []"
| "erase_first c ((d, w) # es) = (if d = c then es else (d, w) # erase_first c es)"

definition erase_original ::
  "key_t \<Rightarrow> u64 \<Rightarrow> (key_t \<times> (u64 \<times> bool) list) list \<Rightarrow> (key_t \<times> (u64 \<times> bool) list) list" where
  "erase_original k c m =
     (case map_of m k of
        None \<Rightarrow> m
      | Some es \<Rightarrow> let es' = erase_first c es
                   in if es' = [] then AList.delete k m else AList.update k es' m)"

definition RuleCommandPoolGC :: "rule_cfg \<Rightarrow> marshallable \<Rightarrow> rule_server \<Rightarrow> rule_server option" where
  "RuleCommandPoolGC cfg cmd s =
     (if \<not> cfg_mode_rule cfg then Some s
      else if cfg_is_curp cfg
      then do {(_, w) \<leftarrow> clear_attempt cmd (rs_witness s); Some (s\<lparr>rs_witness := w\<rparr>)}
      else do {orig \<leftarrow> (if cfg_skip_pool cfg then NeedRecordConflictInOriginalPath cmd else Some False);
               if orig
               then do {ks \<leftarrow> ExtractPoolKeys (Some cmd);
                        Some (case ks of
                                None \<Rightarrow> s
                              | Some (k, cid, w) \<Rightarrow>
                                  s\<lparr>inflight_original_path := erase_original k cid (inflight_original_path s)\<rparr>)}
               else do {(_, p) \<leftarrow> pool_remove cmd (rs_pool s); Some (s\<lparr>rs_pool := p\<rparr>)}})"

section \<open>The application\<close>

text \<open>\<^verbatim>\<open>kv_table_[key]\<close> creates a missing entry with value 0.\<close>

definition DBGet :: "marshallable \<Rightarrow> rule_server \<Rightarrow> (value_t \<times> rule_server) option" where
  "DBGet cmd s =
     do {c \<leftarrow> SimpleRWCommand (Some cmd);
         let v = at_default 0 (kv_table s) (rw_key c);
         Some (v, s\<lparr>kv_table := AList.update (rw_key c) v (kv_table s)\<rparr>)}"

definition DBPut :: "marshallable \<Rightarrow> rule_server \<Rightarrow> (value_t \<times> rule_server) option" where
  "DBPut cmd s =
     do {c \<leftarrow> SimpleRWCommand (Some cmd);
         Some (1, s\<lparr>kv_table := AList.update (rw_key c) (rw_value c) (kv_table s)\<rparr>)}"

definition ApplyToDatabase :: "marshallable \<Rightarrow> rule_server \<Rightarrow> rule_server option" where
  "ApplyToDatabase cmd s =
     do {c \<leftarrow> SimpleRWCommand (Some cmd);
         Some (if IsWrite c
               then s\<lparr>database := AList.update (rw_key c) (rw_value c) (database s),
                      database_operation_count := database_operation_count s + 1\<rparr>
               else s)}"

definition ChecksumXor :: "rule_server \<Rightarrow> u32" where
  "ChecksumXor s = foldl (\<lambda>c (k, v). c XOR word_of_int k XOR word_of_int v) 0 (database s)"

section \<open>The original-path table\<close>

abbreviation original_bucket :: "rule_server \<Rightarrow> key_t \<Rightarrow> (u64 \<times> bool) list" where
  "original_bucket s k \<equiv> at_default [] (inflight_original_path s) k"

text \<open>Every bucket holds something: the table is empty exactly when nothing is in flight.\<close>

definition original_inv :: "rule_server \<Rightarrow> bool" where
  "original_inv s \<longleftrightarrow> distinct (keys_of (inflight_original_path s)) \<and> [] \<notin> snd ` set (inflight_original_path s)"

lemma original_empty:
  assumes "original_inv s"
  shows "inflight_original_path s = [] \<longleftrightarrow> (\<forall>k. original_bucket s k = [])"
proof
  assume empty: "\<forall>k. original_bucket s k = []"
  show "inflight_original_path s = []"
  proof (cases "inflight_original_path s")
    case (Cons e m)
    then have "original_bucket s (fst e) = snd e" by (cases e) (simp add: at_default_def)
    with empty assms Cons show ?thesis by (force simp: original_inv_def)
  qed simp
qed simp

lemma bucket_erase_original:
  "at_default [] (erase_original k c m) k' = (if k' = k then erase_first c (at_default [] m k) else at_default [] m k')"
  by (auto simp: erase_original_def Let_def at_default_def split: option.splits)

lemma original_inv_erase:
  assumes "original_inv s"
  shows "original_inv (s\<lparr>inflight_original_path := erase_original k c (inflight_original_path s)\<rparr>)"
  using assms
  by (auto simp: original_inv_def erase_original_def Let_def in_set_update in_set_delete image_iff split: option.splits)
     (metis in_set_update snd_conv)+

lemma original_inv_add:
  assumes "original_inv s"
  shows "original_inv (s\<lparr>inflight_original_path :=
           AList.update k (at_default [] (inflight_original_path s) k @ [e]) (inflight_original_path s)\<rparr>)"
  using assms by (fastforce simp: original_inv_def image_iff in_set_update split: if_splits)

lemma mset_erase_first: "image_mset fst (mset (erase_first c es)) = image_mset fst (mset es) - {#c#}"
  by (induction c es rule: erase_first.induct) auto

text \<open>
  A replica's history on the original path: commands that arrive, and commands that are
  applied. The specification is the multiset of what is pending.
\<close>

datatype original_op = Arrive marshallable | Applied marshallable

fun original_step :: "rule_cfg \<Rightarrow> original_op \<Rightarrow> rule_server \<Rightarrow> rule_server option" where
  "original_step cfg (Arrive cmd) s = OriginalPathPlaceHolder cfg cmd s"
| "original_step cfg (Applied cmd) s = RuleCommandPoolGC cfg cmd s"

fun original_run :: "rule_cfg \<Rightarrow> original_op list \<Rightarrow> rule_server \<Rightarrow> rule_server option" where
  "original_run cfg [] s = Some s"
| "original_run cfg (op # ops) s = do {s1 \<leftarrow> original_step cfg op s; original_run cfg ops s1}"

definition original_target :: "marshallable \<Rightarrow> (key_t \<times> u64) option" where
  "original_target cmd =
     (case (NeedRecordConflictInOriginalPath cmd, ExtractPoolKeys (Some cmd)) of
        (Some True, Some (Some (k, c, w))) \<Rightarrow> Some (k, c)
      | _ \<Rightarrow> None)"

fun pending :: "original_op list \<Rightarrow> (key_t \<times> u64) multiset \<Rightarrow> (key_t \<times> u64) multiset" where
  "pending [] P = P"
| "pending (Arrive cmd # ops) P =
     pending ops (case original_target cmd of None \<Rightarrow> P | Some t \<Rightarrow> add_mset t P)"
| "pending (Applied cmd # ops) P =
     pending ops (case original_target cmd of None \<Rightarrow> P | Some t \<Rightarrow> P - {#t#})"

definition tracks :: "rule_server \<Rightarrow> (key_t \<times> u64) multiset \<Rightarrow> bool" where
  "tracks s P \<longleftrightarrow> original_inv s \<and>
     (\<forall>k c. count P (k, c) = count (mset (map fst (original_bucket s k))) c)"

abbreviation skip_cfg :: rule_cfg where
  "skip_cfg \<equiv> \<lparr>cfg_is_curp = False, cfg_mode_rule = True, cfg_skip_pool = True\<rparr>"

lemma tracks_cong: "inflight_original_path s' = inflight_original_path s \<Longrightarrow> tracks s' P = tracks s P"
  by (simp add: tracks_def original_inv_def)

lemma tracks_arrive:
  assumes "tracks s P" "OriginalPathPlaceHolder skip_cfg cmd s = Some s'"
  shows "tracks s' (case original_target cmd of None \<Rightarrow> P | Some t \<Rightarrow> add_mset t P)"
proof (cases "original_target cmd")
  case None
  with assms show ?thesis
    by (auto simp: OriginalPathPlaceHolder_def original_target_def bind_eq_Some_conv split: if_splits option.splits bool.splits)
next
  case (Some t)
  then obtain k c w where t: "t = (k, c)" "NeedRecordConflictInOriginalPath cmd = Some True"
    "ExtractPoolKeys (Some cmd) = Some (Some (k, c, w))"
    by (auto simp: original_target_def split: option.splits bool.splits)
  with assms(2) have s': "s' = s\<lparr>inflight_original_path :=
      AList.update k (original_bucket s k @ [(c, w)]) (inflight_original_path s)\<rparr>"
    by (simp add: OriginalPathPlaceHolder_def)
  have "original_inv s'" using assms(1) unfolding s' tracks_def by (blast intro: original_inv_add)
  with assms(1) show ?thesis unfolding Some t(1) by (auto simp: tracks_def s')
qed

lemma tracks_applied:
  assumes "tracks s P" "RuleCommandPoolGC skip_cfg cmd s = Some s'"
  shows "tracks s' (case original_target cmd of None \<Rightarrow> P | Some t \<Rightarrow> P - {#t#})"
proof (cases "original_target cmd")
  case None
  with assms(2) have "inflight_original_path s' = inflight_original_path s"
    by (auto simp: RuleCommandPoolGC_def original_target_def bind_eq_Some_conv split: if_splits option.splits bool.splits)
  with assms(1) None show ?thesis using tracks_cong [of s' s P] by simp
next
  case (Some t)
  then obtain k c w where t: "t = (k, c)" "NeedRecordConflictInOriginalPath cmd = Some True"
    "ExtractPoolKeys (Some cmd) = Some (Some (k, c, w))"
    by (auto simp: original_target_def split: option.splits bool.splits)
  with assms(2) have s': "s' = s\<lparr>inflight_original_path := erase_original k c (inflight_original_path s)\<rparr>"
    by (simp add: RuleCommandPoolGC_def)
  have "original_inv s'" using assms(1) unfolding s' tracks_def by (blast intro: original_inv_erase)
  with assms(1) show ?thesis unfolding Some t(1)
    by (auto simp: tracks_def s' bucket_erase_original mset_erase_first)
qed

lemma tracks_run: "original_run skip_cfg ops s = Some s' \<Longrightarrow> tracks s P \<Longrightarrow> tracks s' (pending ops P)"
proof (induction ops arbitrary: s P)
  case (Cons op ops)
  then obtain s1 where "original_step skip_cfg op s = Some s1" "original_run skip_cfg ops s1 = Some s'"
    by (auto simp: bind_eq_Some_conv)
  with Cons show ?case by (cases op) (auto dest: tracks_arrive tracks_applied)
qed simp

text \<open>
  C20. With the pool reserved to the fast path, the table of original-path commands implements the
  multiset of pending commands: after any interleaving of arrivals and applications it holds,
  for every key, each command identifier as many times as it is pending, and it is empty
  exactly when nothing is pending, so no entry is leaked.
\<close>

theorem original_path_refines_pending:
  assumes "original_run skip_cfg ops s = Some s'" "inflight_original_path s = []"
  shows "(\<forall>k c. count (pending ops {#}) (k, c) = count (mset (map fst (original_bucket s' k))) c) \<and>
         (inflight_original_path s' = [] \<longleftrightarrow> pending ops {#} = {#})"
proof -
  have "tracks s {#}" using assms(2) by (simp add: tracks_def original_inv_def)
  with assms(1) have t: "tracks s' (pending ops {#})" by (rule tracks_run)
  have "inflight_original_path s' = [] \<longleftrightarrow> (\<forall>k. original_bucket s' k = [])"
    using t by (intro original_empty) (simp add: tracks_def)
  also have "\<dots> \<longleftrightarrow> (\<forall>k c. count (mset (map fst (original_bucket s' k))) c = 0)"
    by (simp add: count_eq_zero_iff)
  also have "\<dots> \<longleftrightarrow> (\<forall>k c. count (pending ops {#}) (k, c) = 0)" using t by (simp add: tracks_def)
  also have "\<dots> \<longleftrightarrow> pending ops {#} = {#}" by (auto simp: multiset_eq_iff)
  finally show ?thesis using t by (simp add: tracks_def)
qed

text \<open>A command that takes the original path, and its identifier.\<close>

definition original_write :: "u32 \<Rightarrow> u32 \<Rightarrow> int \<Rightarrow> marshallable" where
  "original_write cl n k = CMD_VEC_PIECE
     \<lparr>sp_vec_piece_data = [\<lparr>piece_type = 101, root_id = 0, client_id = cl, cmd_id_in_client = n,
        rule_mode_on_and_is_original_path_only_command = True,
        input_values = [(0, I32 k), (1, I32 1)], piece_partition_id = 0\<rparr>],
      is_recovery_command = False\<rparr>"

lemma original_write_simps [simp]:
  "ExtractPoolKeys (Some (original_write cl n k)) = Some (Some (k, CombineInt32 cl n, True))"
  "NeedRecordConflictInOriginalPath (original_write cl n k) = Some True"
  by (simp_all add: ExtractPoolKeys_def original_write_def NeedRecordConflictInOriginalPath_def)

definition new_rule_server :: "bool \<Rightarrow> rule_server" where
  "new_rule_server lead = \<lparr>rs_paused = False, rs_is_leader = lead, rs_recovering = False, rs_pool = empty_pool False,
     rs_witness = empty_witness, inflight_original_path = [], kv_table = [], database = [], database_operation_count = 0\<rparr>"

theorem original_path_refines_pending_witness:
  "\<exists>s'. original_run skip_cfg [Arrive (original_write 1 1 7), Arrive (original_write 1 2 7), Applied (original_write 1 1 7)]
          (new_rule_server True) = Some s' \<and> inflight_original_path s' \<noteq> [] \<and>
        count (mset (map fst (original_bucket s' 7))) (CombineInt32 1 2) = 1"
proof -
  let ?ops = "[Arrive (original_write 1 1 7), Arrive (original_write 1 2 7), Applied (original_write 1 1 7)]"
  have "CombineInt32 1 1 \<noteq> CombineInt32 1 2" by (simp add: CombineInt32_def)
  then have p: "pending ?ops {#} = {#(7, CombineInt32 1 2)#}" by (simp add: original_target_def)
  have "\<exists>s'. original_run skip_cfg ?ops (new_rule_server True) = Some s'"
    by (simp add: OriginalPathPlaceHolder_def RuleCommandPoolGC_def new_rule_server_def)
  then obtain s' where s': "original_run skip_cfg ?ops (new_rule_server True) = Some s'" by blast
  have "inflight_original_path (new_rule_server True) = []" by (simp add: new_rule_server_def)
  note ref = original_path_refines_pending [OF s' this, unfolded p]
  then have "count {#(7 :: key_t, CombineInt32 1 2)#} (7, CombineInt32 1 2) =
      count (mset (map fst (original_bucket s' 7))) (CombineInt32 1 2)" by blast
  with ref s' show ?thesis by auto
qed

section \<open>The leader's vote\<close>

text \<open>
  C21. The vote of a leader that keeps the pool to the fast path is exact. On a server that is not
  paused, whose pool was reached with fresh identifiers, the command is accepted if and only
  if the server is not recovering, no other command of the original path on the same key is
  pending such that one of the two writes, and no write of the fast path is in flight on the
  key. A command refused because of the original path leaves no trace: the server is unchanged.
\<close>

theorem leader_vote_exact:
  assumes "OnRuleSpeculativeExecute skip_cfg cmd s = Some ((ok, res, lead), s')" "rs_is_leader s" "\<not> rs_paused s"
    "original_inv s" "fresh_pool (rs_pool s)" "ExtractPoolKeys (Some cmd) = Some (Some (k, cid, w))"
  shows "(ok \<longleftrightarrow> \<not> rs_recovering s \<and> (\<forall>(c, w')\<in>set (original_bucket s k). c = cid \<or> \<not> w' \<and> \<not> w) \<and>
             (\<forall>c. pool_flight (rs_pool s) k c \<noteq> Some True)) \<and>
         lead \<and> ((\<exists>(c, w')\<in>set (original_bucket s k). c \<noteq> cid \<and> (w' \<or> w)) \<longrightarrow> s' = s)"
proof -
  let ?clash = "list_ex (\<lambda>(c, w'). c \<noteq> cid \<and> (w' \<or> w)) (original_bucket s k)"
  have conf: "ConflictWithOriginalUnexecutedLog cmd s = Some ?clash"
    using assms(2,6) by (auto simp: ConflictWithOriginalUnexecutedLog_def at_default_def split: option.splits)
  show ?thesis
  proof (cases ?clash)
    case True
    with assms(1-3) conf have "\<not> ok \<and> lead \<and> s' = s" by (auto simp: OnRuleSpeculativeExecute_def)
    with True show ?thesis by (force simp: list_ex_iff)
  next
    case False
    with assms(1-3) conf obtain p where p: "pool_push_back (rs_recovering s) cmd (rs_pool s) = Some (ok, p)" and l: "lead"
      by (auto simp: OnRuleSpeculativeExecute_def bind_eq_Some_conv)
    have "ok \<longleftrightarrow> \<not> rs_recovering s \<and> (\<forall>c. pool_flight (rs_pool s) k c \<noteq> Some True)"
      using fresh_pool_inv [OF assms(5)] p assms(6)
      by (auto simp: pool_push_back_def pool.attempt_iff split: if_splits)
    with False l show ?thesis by (auto simp: list_ex_iff)
  qed
qed

theorem leader_vote_exact_witness:
  "\<exists>s s' res. original_run skip_cfg [Arrive (original_write 1 1 7)] (new_rule_server True) = Some s \<and>
     OnRuleSpeculativeExecute skip_cfg (example_write 2 1 7 70) s = Some ((False, res, True), s') \<and> s' = s"
proof -
  let ?s = "(new_rule_server True)\<lparr>inflight_original_path := [(7, [(CombineInt32 1 1, True)])]\<rparr>"
  have ne: "CombineInt32 1 1 \<noteq> CombineInt32 2 1" by (simp add: CombineInt32_def)
  have run: "original_run skip_cfg [Arrive (original_write 1 1 7)] (new_rule_server True) = Some ?s"
    by (simp add: OriginalPathPlaceHolder_def new_rule_server_def)
  have vote: "OnRuleSpeculativeExecute skip_cfg (example_write 2 1 7 70) ?s = Some ((False, 0, True), ?s)"
    using ne by (simp add: OnRuleSpeculativeExecute_def ConflictWithOriginalUnexecutedLog_def new_rule_server_def)
  have pre: "rs_is_leader ?s" "\<not> rs_paused ?s" "original_inv ?s" "fresh_pool (rs_pool ?s)"
    by (simp_all add: new_rule_server_def original_inv_def fresh_init)
  have "\<exists>(c, w')\<in>set (original_bucket ?s 7). c \<noteq> CombineInt32 2 1 \<and> (w' \<or> True)"
    using ne by (simp add: at_default_def)
  with leader_vote_exact [OF vote pre example_write_extract] run vote show ?thesis by blast
qed

section \<open>The checksum\<close>

text \<open>
  The checksum does not depend on the order in which the hash map is walked: two replicas whose
  tables hold the same values have the same checksum.
\<close>

lemma checksum_order:
  assumes "distinct (keys_of (database s))" "distinct (keys_of (database t))"
    "map_of (database s) = map_of (database t)"
  shows "ChecksumXor s = ChecksumXor t"
proof -
  define h :: "key_t \<times> value_t \<Rightarrow> u32 \<Rightarrow> u32" where "h = (\<lambda>(k, v) c. c XOR word_of_int k XOR word_of_int v)"
  have comm: "h x \<circ> h y = h y \<circ> h x" for x y
    by (cases x; cases y) (simp add: h_def fun_eq_iff ac_simps)
  have "x \<in> set (database s) \<longleftrightarrow> x \<in> set (database t)" for x
    using map_of_Some_in_set [OF assms(1), of "fst x" "snd x"] map_of_Some_in_set [OF assms(2), of "fst x" "snd x"] assms(3)
    by simp
  then have "mset (database s) = mset (database t)"
    using assms(1,2) by (intro set_eq_iff_mset_eq_distinct [THEN iffD1]) (auto simp: distinct_map)
  then have "fold h (database s) = fold h (database t)" by (intro fold_multiset_equiv comm)
  moreover have "ChecksumXor u = fold h (database u) 0" for u
    by (simp add: ChecksumXor_def foldl_conv_fold h_def case_prod_unfold)
  ultimately show ?thesis by simp
qed

end
