(* ===== verification/RuleCoordinator.thy ===== *)
theory RuleCoordinator
  imports Quorum
begin

text \<open>
  The client side of the fast path: \<^verbatim>\<open>CoordinatorRule\<close> (\<^verbatim>\<open>rule/coordinator.cc\<close>) over the parts of
  \<^verbatim>\<open>CoordinatorClassic\<close> (\<^verbatim>\<open>classic/coordinator.cc\<close>) it uses, the pieces of a transaction
  (\<^verbatim>\<open>procedure.cc\<close>) and the read/write procedure (\<^verbatim>\<open>bench/rw/procedure.cc\<close>).

  A coordinator runs one transaction after another. The code between two waits runs without
  interruption, so an event is one of: a new transaction, the acknowledgement of a dispatch,
  the end of the wait for the speculative votes. What the coordinator sends and replies is
  appended to \<open>co_sent\<close>. Latency statistics are left out, as are the prepare and finish counters,
  which this coordinator does not use.
\<close>

section \<open>Transactions and their pieces\<close>

datatype command_status = WAITING | DISPATCHABLE | DISPATCHED | OUTPUT_READY | INIT

record tx_data =
  tx_id :: u64
  tx_sharding :: "(int \<times> u32) list"
  tx_status :: "(int \<times> command_status) list"
  n_pieces_all :: int
  n_pieces_dispatchable :: int
  n_pieces_dispatched :: int
  n_pieces_dispatch_acked :: int
  tx_outputs :: "int list"
  tx_commit :: bool
  reply_res :: int

abbreviation (input) SUCCESS :: int where "SUCCESS \<equiv> 0"
abbreviation (input) REJECT :: int where "REJECT \<equiv> -10"
abbreviation (input) WRONG_LEADER_RES :: int where "WRONG_LEADER_RES \<equiv> -20"

text \<open>
  The transaction of a read or write request: one piece, on the partition of its key. The reply
  code is not initialised: \<open>junk\<close> is the value found in memory.
\<close>

definition rw_piece_of :: "bool \<Rightarrow> int" where
  "rw_piece_of w = (if w then RW_BENCHMARK_W_TXN_0 else RW_BENCHMARK_R_TXN_0)"

definition RWChopper_Init :: "int \<Rightarrow> bool \<Rightarrow> u32 \<Rightarrow> tx_data" where
  "RWChopper_Init junk w par =
     \<lparr>tx_id = 0, tx_sharding = [(rw_piece_of w, par)], tx_status = [(rw_piece_of w, DISPATCHABLE)],
      n_pieces_all = 1, n_pieces_dispatchable = 1, n_pieces_dispatched = 0, n_pieces_dispatch_acked = 0,
      tx_outputs = [], tx_commit = True, reply_res = junk\<rparr>"

text \<open>The loop of \<^verbatim>\<open>GetReadyPiecesData\<close>: at most \<open>m\<close> dispatchable pieces, with their partitions.\<close>

fun ready_pieces ::
  "(int \<times> u32) list \<Rightarrow> int \<Rightarrow> (int \<times> command_status) list \<Rightarrow> ((u32 \<times> int) list \<times> (int \<times> command_status) list) option" where
  "ready_pieces sh m [] = Some ([], [])"
| "ready_pieces sh m ((inn, st) # rest) =
     (if st = DISPATCHABLE
      then do {par \<leftarrow> map_of sh inn;
               (rd, rest') \<leftarrow> (if m - 1 = 0 then Some ([], rest) else ready_pieces sh (m - 1) rest);
               Some ((par, inn) # rd, (inn, DISPATCHED) # rest')}
      else do {(rd, rest') \<leftarrow> ready_pieces sh m rest; Some (rd, (inn, st) # rest')})"

definition by_partition :: "(u32 \<times> int) list \<Rightarrow> (u32 \<times> int list) list" where
  "by_partition rd = map (\<lambda>p. (p, map snd (filter (\<lambda>(q, _). q = p) rd))) (sort (remdups (map fst rd)))"

definition GetReadyPiecesData :: "int \<Rightarrow> tx_data \<Rightarrow> ((u32 \<times> int list) list \<times> tx_data) option" where
  "GetReadyPiecesData m tx =
     do {vrfy (n_pieces_dispatched tx \<le> n_pieces_dispatchable tx);
         vrfy (n_pieces_dispatched tx \<le> n_pieces_all tx);
         if n_pieces_dispatched tx = n_pieces_dispatchable tx \<or> n_pieces_dispatched tx = n_pieces_all tx
         then Some ([], tx)
         else do {(rd, st) \<leftarrow> ready_pieces (tx_sharding tx) m (tx_status tx);
                  Some (by_partition rd, tx\<lparr>tx_status := st, n_pieces_dispatched := n_pieces_dispatched tx + int (length rd)\<rparr>)}}"

definition pieces_ordered :: "tx_data \<Rightarrow> bool" where
  "pieces_ordered tx \<longleftrightarrow> n_pieces_all tx \<ge> n_pieces_dispatchable tx \<and>
     n_pieces_dispatchable tx \<ge> n_pieces_dispatched tx \<and> n_pieces_dispatched tx \<ge> n_pieces_dispatch_acked tx"

definition Merge :: "int \<Rightarrow> tx_data \<Rightarrow> tx_data option" where
  "Merge inn tx =
     do {vrfy (inn \<notin> set (tx_outputs tx));
         let tx1 = tx\<lparr>n_pieces_dispatch_acked := n_pieces_dispatch_acked tx + 1\<rparr>;
         vrfy (pieces_ordered tx1);
         Some (tx1\<lparr>tx_outputs := tx_outputs tx1 @ [inn]\<rparr>)}"

definition HasMoreUnsentPiece :: "tx_data \<Rightarrow> bool option" where
  "HasMoreUnsentPiece tx =
     do {vrfy (pieces_ordered tx);
         if n_pieces_dispatchable tx = n_pieces_dispatched tx
         then do {vrfy (n_pieces_all tx = n_pieces_dispatched tx \<or> n_pieces_dispatch_acked tx < n_pieces_dispatched tx);
                  Some False}
         else Some True}"

section \<open>The coordinator\<close>

datatype replica_proto = MODE_RAFT | MODE_COPILOT | MODE_MENCIUS | MODE_MONGODB | MODE_ETCD | MODE_ZOOKEEPER | MODE_OTHER

record coo_cfg =
  coo_is_curp :: bool
  attempt_rate :: int
  coo_proto :: replica_proto
  merge_leader_rpc :: bool

text \<open>What a decision draws at random and the averages it looks at.\<close>

record attempt_env =
  rate_draw :: int
  bandit_draw :: nat
  cpu_draw :: int
  depth_draw :: int
  fp_count :: nat
  fp_ave :: rat
  sp_ave :: rat
  max_leader_avg :: rat
  queue_depth_ave :: rat

datatype coo_effect =
    DISPATCH u64 u32 u32 "int list" bool bool
  | SPECULATE u64 u32
  | FUSED u64 u32 "int list"
  | REPLY u64 int

record coordinator =
  co_phase :: u32
  co_committed :: bool
  commit_reported :: bool
  co_aborted :: bool
  n_dispatch :: u32
  n_dispatch_ack :: u32
  dispatch_acks :: "(int \<times> bool) list"
  next_txn_id :: u64
  next_pie_id :: u64
  ongoing_tx_id :: u64
  co_cmd :: "tx_data option"
  fast_path_success :: bool
  dispatch_ack :: bool
  go_to_fastpath :: bool
  cmds_by_par :: "(u32 \<times> int list) list"
  rule_outstanding_dispatches :: int
  go_to_jetpack_fastpath_cnt :: int
  one_armed_bandit :: bandit
  commit_times :: nat
  co_sent :: "coo_effect list"

definition Reset :: "coordinator \<Rightarrow> coordinator" where
  "Reset c = c\<lparr>co_committed := False, commit_reported := False, co_aborted := False, n_dispatch := 0, n_dispatch_ack := 0,
     dispatch_acks := []\<rparr>"

text \<open>\<^verbatim>\<open>End\<close> replies to the client and deletes the transaction: a later access is undefined.\<close>

definition End :: "coordinator \<Rightarrow> coordinator option" where
  "End c =
     do {tx \<leftarrow> co_cmd c;
         res \<leftarrow> (if co_committed c then Some (if commit_reported c then reply_res tx else SUCCESS)
                 else if co_aborted c then Some (if reply_res tx = WRONG_LEADER_RES then WRONG_LEADER_RES else REJECT)
                 else None);
         Some (c\<lparr>ongoing_tx_id := 0, co_cmd := None, co_sent := co_sent c @ [REPLY (ongoing_tx_id c) res]\<rparr>)}"

section \<open>Whether to attempt the fast path\<close>

definition attempt_wanted :: "coo_cfg \<Rightarrow> attempt_env \<Rightarrow> coordinator \<Rightarrow> bool option" where
  "attempt_wanted cfg env c =
     (if coo_is_curp cfg then Some True
      else if 0 \<le> attempt_rate cfg \<and> attempt_rate cfg \<le> 100 then Some (rate_draw env < attempt_rate cfg)
      else if attempt_rate cfg = 101
      then Some ((if coo_proto cfg = MODE_RAFT then True
                  else go_to_jetpack_fastpath_cnt c < 10 \<or> (fp_count env > 0 \<and> fp_ave env < sp_ave env) \<or>
                       ConsultAttempt (bandit_draw env) (one_armed_bandit c)) \<and>
                 \<not> (coo_proto cfg = MODE_MENCIUS \<and> max_leader_avg env - 60 > of_int (cpu_draw env)))
      else None)"

definition throttled :: "coo_cfg \<Rightarrow> attempt_env \<Rightarrow> coordinator \<Rightarrow> bool" where
  "throttled cfg env c \<longleftrightarrow>
     (if coo_proto cfg \<in> {MODE_MONGODB, MODE_ETCD, MODE_ZOOKEEPER}
      then rule_outstanding_dispatches c > 25 \<and> (rule_outstanding_dispatches c - 25) * 10 > depth_draw env
      else coo_proto cfg = MODE_COPILOT \<and> queue_depth_ave env - 300 > of_int (depth_draw env))"

section \<open>Dispatching\<close>

text \<open>
  Every piece gets a number and an open acknowledgement. A dispatch says whether its pieces take
  the original path only, and whether it goes to every leader of the partition.
\<close>

definition number_pieces :: "(u32 \<times> int list) list \<Rightarrow> coordinator \<Rightarrow> coordinator" where
  "number_pieces ready c =
     (let inns = concat (map snd ready)
      in c\<lparr>n_dispatch := n_dispatch c + word_of_nat (length inns),
           dispatch_acks := fold (\<lambda>i. AList.update i False) inns (dispatch_acks c),
           next_pie_id := next_pie_id c + word_of_nat (length inns)\<rparr>)"

definition DispatchAsync :: "bool \<Rightarrow> bool \<Rightarrow> u64 \<Rightarrow> (u32 \<times> int list) list \<Rightarrow> coordinator \<Rightarrow> coordinator" where
  "DispatchAsync broadcast orig t ready c =
     c\<lparr>co_sent := co_sent c @ map (\<lambda>(par, inns). DISPATCH t (co_phase c) par inns orig broadcast) ready\<rparr>"

text \<open>The fast path supports one partition and one piece.\<close>

definition single_piece :: "(u32 \<times> int list) list \<Rightarrow> bool" where
  "single_piece ready \<longleftrightarrow> length ready = 1 \<and> (\<forall>(par, inns)\<in>set ready. length inns = 1)"

definition BroadcastRuleSpeculativeExecute :: "u64 \<Rightarrow> coordinator \<Rightarrow> coordinator option" where
  "BroadcastRuleSpeculativeExecute t c =
     do {vrfy (single_piece (cmds_by_par c)); Some (c\<lparr>co_sent := co_sent c @ [SPECULATE t (co_phase c)]\<rparr>)}"

definition DispatchAndSpeculativeExecuteFused :: "u64 \<Rightarrow> coordinator \<Rightarrow> coordinator option" where
  "DispatchAndSpeculativeExecuteFused t c =
     do {vrfy (single_piece (cmds_by_par c));
         Some (c\<lparr>co_sent := co_sent c @ [SPECULATE t (co_phase c), FUSED t (co_phase c) (concat (map snd (cmds_by_par c)))]\<rparr>)}"

text \<open>The classic dispatch of pieces that became ready later.\<close>

definition ClassicDispatchAsync :: "coordinator \<Rightarrow> coordinator option" where
  "ClassicDispatchAsync c =
     do {tx \<leftarrow> co_cmd c;
         (ready, tx') \<leftarrow> GetReadyPiecesData 100 tx;
         Some (DispatchAsync False False (tx_id tx') ready (number_pieces ready (c\<lparr>co_cmd := Some tx'\<rparr>)))}"

section \<open>Phases\<close>

text \<open>\<^verbatim>\<open>case INIT_END\<close>: the phase has been advanced already.\<close>

definition start_phase :: "coo_cfg \<Rightarrow> attempt_env \<Rightarrow> coordinator \<Rightarrow> coordinator option" where
  "start_phase cfg env c0 =
     do {vrfy (co_phase c0 mod 3 = 1);
         let c = c0\<lparr>fast_path_success := False, dispatch_ack := False,
                    rule_outstanding_dispatches := rule_outstanding_dispatches c0 + 1\<rparr>;
         tx \<leftarrow> co_cmd c;
         (ready, tx') \<leftarrow> GetReadyPiecesData 100 tx;
         wanted \<leftarrow> attempt_wanted cfg env c;
         let go = (wanted \<and> \<not> throttled cfg env c);
         let c1 = c\<lparr>co_cmd := Some tx', go_to_fastpath := go, cmds_by_par := ready,
                    go_to_jetpack_fastpath_cnt := go_to_jetpack_fastpath_cnt c + of_bool go\<rparr>;
         let c2 = number_pieces ready c1;
         if go \<and> merge_leader_rpc cfg \<and> coo_is_curp cfg
         then DispatchAndSpeculativeExecuteFused (tx_id tx') c2
         else let c3 = DispatchAsync (go \<or> coo_proto cfg = MODE_COPILOT) (\<not> go) (tx_id tx') ready c2
              in if go then BroadcastRuleSpeculativeExecute (tx_id tx') c3 else Some c3}"

text \<open>\<^verbatim>\<open>case DISPATCHED\<close>: the two conditionals follow each other.\<close>

definition dispatched_phase :: "coordinator \<Rightarrow> coordinator option" where
  "dispatched_phase c0 =
     do {c \<leftarrow> (if co_aborted c0
               then End (c0\<lparr>rule_outstanding_dispatches := rule_outstanding_dispatches c0 - 1\<rparr>) else Some c0);
         if fast_path_success c \<or> dispatch_ack c
         then do {let c1 = c\<lparr>co_phase := co_phase c + 1, co_committed := True\<rparr>;
                  vrfy (co_phase c1 mod 3 = 0);
                  End (c1\<lparr>rule_outstanding_dispatches := rule_outstanding_dispatches c1 - 1,
                          one_armed_bandit := (if go_to_fastpath c1 then Record (fast_path_success c1) (one_armed_bandit c1)
                                               else one_armed_bandit c1),
                          commit_times := commit_times c1 + 1\<rparr>)}
         else do {vrfy (co_phase c mod 3 = 2);
                  Some (c\<lparr>one_armed_bandit := Record False (one_armed_bandit c)\<rparr>)}}"

definition waiting_origin_phase :: "coordinator \<Rightarrow> coordinator option" where
  "waiting_origin_phase c =
     do {vrfy (co_phase c mod 3 = 0);
         tx \<leftarrow> co_cmd c;
         End (c\<lparr>co_committed := True, rule_outstanding_dispatches := rule_outstanding_dispatches c - 1,
                commit_times := commit_times c + of_bool (\<not> (reply_res tx = WRONG_LEADER_RES \<or> co_aborted c))\<rparr>)}"

definition GotoNextPhase :: "coo_cfg \<Rightarrow> attempt_env \<Rightarrow> coordinator \<Rightarrow> coordinator option" where
  "GotoNextPhase cfg env c0 =
     (let c = c0\<lparr>co_phase := co_phase c0 + 1\<rparr>
      in if co_phase c0 mod 3 = 0 then start_phase cfg env c
         else if co_phase c0 mod 3 = 1 then dispatched_phase c
         else waiting_origin_phase c)"

section \<open>Events\<close>

definition DoTxAsync :: "coo_cfg \<Rightarrow> attempt_env \<Rightarrow> tx_data \<Rightarrow> coordinator \<Rightarrow> coordinator option" where
  "DoTxAsync cfg env tx c =
     GotoNextPhase cfg env
       (Reset (c\<lparr>next_txn_id := next_txn_id c + 1, ongoing_tx_id := next_txn_id c, co_cmd := Some (tx\<lparr>tx_id := next_txn_id c\<rparr>)\<rparr>))"

definition AllDispatchAcked :: "coordinator \<Rightarrow> bool option" where
  "AllDispatchAcked c =
     (if list_all snd (dispatch_acks c) then do {vrfy (n_dispatch_ack c = n_dispatch c); Some True} else Some False)"

fun merge_outputs :: "int list \<Rightarrow> tx_data \<Rightarrow> (int \<times> bool) list \<Rightarrow> (tx_data \<times> (int \<times> bool) list) option" where
  "merge_outputs [] tx acks = Some (tx, acks)"
| "merge_outputs (inn # inns) tx acks =
     do {acked \<leftarrow> map_of acks inn;
         vrfy (\<not> acked);
         tx' \<leftarrow> Merge inn tx;
         merge_outputs inns tx' (AList.update inn True acks)}"

definition DispatchAck :: "coo_cfg \<Rightarrow> attempt_env \<Rightarrow> u32 \<Rightarrow> int \<Rightarrow> int list \<Rightarrow> coordinator \<Rightarrow> coordinator option" where
  "DispatchAck cfg env phase res outs c =
     (if phase \<noteq> co_phase c then Some c
      else do {tx \<leftarrow> co_cmd c;
               if res = REJECT
               then GotoNextPhase cfg env (c\<lparr>co_aborted := True, co_cmd := Some (tx\<lparr>tx_commit := False\<rparr>)\<rparr>)
               else if res = WRONG_LEADER_RES
               then GotoNextPhase cfg env
                      (c\<lparr>co_aborted := True, co_cmd := Some (tx\<lparr>tx_commit := False, reply_res := WRONG_LEADER_RES\<rparr>)\<rparr>)
               else do {(tx', acks) \<leftarrow> merge_outputs outs tx (dispatch_acks c);
                        let c1 = c\<lparr>n_dispatch_ack := n_dispatch_ack c + word_of_nat (length outs), dispatch_acks := acks,
                                   co_cmd := Some tx'\<rparr>;
                        more \<leftarrow> HasMoreUnsentPiece tx';
                        if more then ClassicDispatchAsync c1
                        else do {all \<leftarrow> AllDispatchAcked c1;
                                 if all then GotoNextPhase cfg env (c1\<lparr>dispatch_ack := True\<rparr>) else Some c1}}})"

text \<open>
  The rest of \<^verbatim>\<open>BroadcastRuleSpeculativeExecute\<close>, and of the fused variant, after the wait on the
  event of the votes. The result is stored before the phase is compared.
\<close>

definition SpeculativeDone :: "coo_cfg \<Rightarrow> attempt_env \<Rightarrow> u32 \<Rightarrow> rule_event \<Rightarrow> coordinator \<Rightarrow> coordinator option" where
  "SpeculativeDone cfg env phase e c =
     do {success \<leftarrow> (if Rule_Yes e then Some True else if Rule_No e \<or> timeouted e then Some False else None);
         let c1 = c\<lparr>fast_path_success := success\<rparr>;
         if phase \<noteq> co_phase c1 then Some c1
         else if success then GotoNextPhase cfg env c1 else Some c1}"

datatype coo_event =
    Begin attempt_env int bool u32
  | Ack attempt_env u32 int "int list"
  | Speculated attempt_env u32 rule_event

fun coo_handle :: "coo_cfg \<Rightarrow> coo_event \<Rightarrow> coordinator \<Rightarrow> coordinator option" where
  "coo_handle cfg (Begin env junk w par) c = DoTxAsync cfg env (RWChopper_Init junk w par) c"
| "coo_handle cfg (Ack env phase res outs) c = DispatchAck cfg env phase res outs c"
| "coo_handle cfg (Speculated env phase e) c = SpeculativeDone cfg env phase e c"

definition new_coordinator :: "u64 \<Rightarrow> bool list \<Rightarrow> coordinator" where
  "new_coordinator k junk =
     \<lparr>co_phase = 0, co_committed = False, commit_reported = False, co_aborted = False, n_dispatch = 0, n_dispatch_ack = 0,
      dispatch_acks = [], next_txn_id = k, next_pie_id = k, ongoing_tx_id = 0, co_cmd = None, fast_path_success = False,
      dispatch_ack = False, go_to_fastpath = False, cmds_by_par = [], rule_outstanding_dispatches = 0,
      go_to_jetpack_fastpath_cnt = 0, one_armed_bandit = fresh_bandit junk, commit_times = 0, co_sent = []\<rparr>"

section \<open>Runs\<close>

text \<open>
  What can happen to a coordinator: a client takes it for a new transaction only when it is free;
  an acknowledgement answers a dispatch, at any later time and any number of times, and a
  positive one names its pieces; a wait for votes that was begun ends with a decision or a timeout.
\<close>

fun enabled :: "coordinator \<Rightarrow> coo_event \<Rightarrow> bool" where
  "enabled c (Begin env junk w par) \<longleftrightarrow> co_cmd c = None"
| "enabled c (Ack env phase res outs) \<longleftrightarrow>
     (\<exists>t par orig bc. DISPATCH t phase par outs orig bc \<in> set (co_sent c)) \<or> (\<exists>t. FUSED t phase outs \<in> set (co_sent c))"
| "enabled c (Speculated env phase e) \<longleftrightarrow>
     (\<exists>t. SPECULATE t phase \<in> set (co_sent c)) \<and> (Rule_Yes e \<or> Rule_No e \<or> timeouted e)"

fun refusal :: "coo_event \<Rightarrow> bool" where
  "refusal (Ack env phase res outs) \<longleftrightarrow> res = REJECT \<or> res = WRONG_LEADER_RES"
| "refusal _ \<longleftrightarrow> False"

inductive coo_reach :: "coo_cfg \<Rightarrow> coordinator \<Rightarrow> coo_event list \<Rightarrow> coordinator \<Rightarrow> bool" for cfg c0 where
  coo_init: "coo_reach cfg c0 [] c0"
| coo_step: "coo_reach cfg c0 evs c \<Longrightarrow> enabled c ev \<Longrightarrow> coo_handle cfg ev c = Some c' \<Longrightarrow> coo_reach cfg c0 (evs @ [ev]) c'"

fun reply_of :: "coo_effect \<Rightarrow> (u64 \<times> int) list" where
  "reply_of (REPLY t res) = [(t, res)]"
| "reply_of _ = []"

fun dispatch_of :: "coo_effect \<Rightarrow> (u64 \<times> u32) list" where
  "dispatch_of (DISPATCH t ph par inns orig bc) = [(t, ph)]"
| "dispatch_of (FUSED t ph inns) = [(t, ph)]"
| "dispatch_of _ = []"

abbreviation replies :: "coordinator \<Rightarrow> (u64 \<times> int) list" where
  "replies c \<equiv> concat (map reply_of (co_sent c))"

abbreviation dispatches :: "coordinator \<Rightarrow> (u64 \<times> u32) list" where
  "dispatches c \<equiv> concat (map dispatch_of (co_sent c))"

abbreviation busy :: "coordinator \<Rightarrow> bool" where
  "busy c \<equiv> co_cmd c \<noteq> None"

text \<open>Transaction number \<open>j\<close> runs in phase \<open>3 * j + 1\<close>.\<close>

definition phase_of :: "nat \<Rightarrow> u32" where
  "phase_of j = word_of_nat (3 * j + 1)"

definition max_tx :: nat where
  "max_tx = 1431655765"

text \<open>What the events say in favour of a transaction: an acknowledgement or a fast quorum.\<close>

definition vouched :: "coo_event list \<Rightarrow> nat \<Rightarrow> bool" where
  "vouched evs j \<longleftrightarrow> (\<exists>env res outs. Ack env (phase_of j) res outs \<in> set evs \<and> \<not> refusal (Ack env (phase_of j) res outs)) \<or>
     (\<exists>env e. Speculated env (phase_of j) e \<in> set evs \<and> Rule_Yes e)"

section \<open>The invariant of runs without refusals\<close>

fun message_ok :: "nat \<Rightarrow> int \<Rightarrow> nat \<Rightarrow> coo_effect \<Rightarrow> bool" where
  "message_ok k inn n (DISPATCH t ph par inns orig bc) \<longleftrightarrow> (\<exists>j<n. ph = phase_of j \<and> (j = k \<longrightarrow> inns = [inn]))"
| "message_ok k inn n (FUSED t ph inns) \<longleftrightarrow> (\<exists>j<n. ph = phase_of j \<and> (j = k \<longrightarrow> inns = [inn]))"
| "message_ok k inn n (SPECULATE t ph) \<longleftrightarrow> (\<exists>j<n. ph = phase_of j)"
| "message_ok k inn n (REPLY t res) \<longleftrightarrow> True"

definition running :: "u64 \<Rightarrow> nat \<Rightarrow> int \<Rightarrow> coordinator \<Rightarrow> bool" where
  "running base k inn c \<longleftrightarrow>
     (\<exists>tx. co_cmd c = Some tx \<and> n_pieces_all tx = 1 \<and> n_pieces_dispatchable tx = 1 \<and> n_pieces_dispatched tx = 1 \<and>
           n_pieces_dispatch_acked tx = 0 \<and> tx_outputs tx = []) \<and>
     \<not> co_committed c \<and> \<not> co_aborted c \<and> \<not> commit_reported c \<and> \<not> dispatch_ack c \<and> dispatch_acks c = [(inn, False)] \<and>
     n_dispatch c = 1 \<and> n_dispatch_ack c = 0 \<and> ongoing_tx_id c = base + word_of_nat k"

definition coo_inv :: "u64 \<Rightarrow> coo_event list \<Rightarrow> nat \<Rightarrow> int \<Rightarrow> coordinator \<Rightarrow> bool" where
  "coo_inv base evs k inn c \<longleftrightarrow>
     k + of_bool (busy c) \<le> max_tx \<and>
     co_phase c = word_of_nat (3 * k + of_bool (busy c)) \<and>
     next_txn_id c = base + word_of_nat (k + of_bool (busy c)) \<and>
     rule_outstanding_dispatches c = of_bool (busy c) \<and>
     replies c = map (\<lambda>j. (base + word_of_nat j, SUCCESS)) [0..<k] \<and>
     dispatches c = map (\<lambda>j. (base + word_of_nat j, phase_of j)) [0..<k + of_bool (busy c)] \<and>
     list_all (message_ok k inn (k + of_bool (busy c))) (co_sent c) \<and>
     (\<forall>j<k. vouched evs j) \<and>
     (busy c \<longrightarrow> running base k inn c)"

lemma unat_u32: "n < 2 ^ 32 \<Longrightarrow> unat (word_of_nat n :: u32) = n"
  by (simp add: unsigned_of_nat take_bit_nat_eq_self)

lemma u32_mod_3: "n < 2 ^ 32 \<Longrightarrow> (word_of_nat n :: u32) mod 3 = word_of_nat (n mod 3)"
  by (simp add: word_arith_nat_mod unat_u32)

lemma u32_inject: "m < 2 ^ 32 \<Longrightarrow> n < 2 ^ 32 \<Longrightarrow> (word_of_nat m :: u32) = word_of_nat n \<longleftrightarrow> m = n"
  by (metis unat_u32)

lemma phase_of_mod: "j < max_tx \<Longrightarrow> phase_of j mod 3 = 1"
  using u32_mod_3 [of "3 * j + 1"] by (simp add: phase_of_def max_tx_def)

lemma phase_of_next_mod: "j < max_tx \<Longrightarrow> (phase_of j + 1) mod 3 = 2"
proof -
  assume "j < max_tx"
  then have "(word_of_nat (3 * j + 2) :: u32) mod 3 = word_of_nat ((3 * j + 2) mod 3)"
    by (intro u32_mod_3) (simp add: max_tx_def)
  also have "(3 * j + 2) mod 3 = 2" by presburger
  finally show ?thesis by (simp add: phase_of_def)
qed

lemma phase_of_inject: "i < max_tx \<Longrightarrow> j < max_tx \<Longrightarrow> phase_of i = phase_of j \<longleftrightarrow> i = j"
  using u32_inject [of "3 * i + 1" "3 * j + 1"] by (simp add: phase_of_def max_tx_def)

lemma phase_of_not_idle: "j < max_tx \<Longrightarrow> k \<le> max_tx \<Longrightarrow> phase_of j \<noteq> word_of_nat (3 * k)"
  using u32_inject [of "3 * j + 1" "3 * k"] by (simp add: phase_of_def max_tx_def del: of_nat_mult of_nat_Suc of_nat_add) presburger

lemma idle_mod: "k \<le> max_tx \<Longrightarrow> (word_of_nat (3 * k) :: u32) mod 3 = 0"
  using u32_mod_3 [of "3 * k"] by (simp add: max_tx_def)

lemma vouched_mono: "vouched evs j \<Longrightarrow> vouched (evs @ evs') j"
  unfolding vouched_def set_append by blast

lemma message_ok_mono:
  assumes "message_ok k inn n m" "n \<le> k'" "n \<le> n'" shows "message_ok k' inn' n' m"
proof -
  have late: "j < n' \<and> j \<noteq> k'" if "j < n" for j using that assms(2,3) by auto
  show ?thesis using assms(1) by (cases m) (simp_all only: message_ok.simps; blast dest: late)+
qed

lemma messages_ok_mono:
  "list_all (message_ok k inn n) ms \<Longrightarrow> n \<le> k' \<Longrightarrow> n \<le> n' \<Longrightarrow> list_all (message_ok k' inn' n') ms"
  by (auto simp: list_all_iff intro: message_ok_mono)

lemma GetReadyPiecesData_rw:
  "GetReadyPiecesData 100 ((RWChopper_Init junk w par)\<lparr>tx_id := t\<rparr>) =
     Some ([(par, [rw_piece_of w])],
       (RWChopper_Init junk w par)\<lparr>tx_id := t, tx_status := [(rw_piece_of w, DISPATCHED)], n_pieces_dispatched := 1\<rparr>)"
  by (simp add: GetReadyPiecesData_def RWChopper_Init_def by_partition_def)

lemma RWChopper_sel [simp]:
  "n_pieces_all (RWChopper_Init junk w par) = 1" "n_pieces_dispatchable (RWChopper_Init junk w par) = 1"
  "n_pieces_dispatch_acked (RWChopper_Init junk w par) = 0" "tx_outputs (RWChopper_Init junk w par) = []"
  by (simp_all add: RWChopper_Init_def)

definition cfg_valid :: "coo_cfg \<Rightarrow> bool" where
  "cfg_valid cfg \<longleftrightarrow> coo_is_curp cfg \<or> 0 \<le> attempt_rate cfg \<and> attempt_rate cfg \<le> 101"

lemma attempt_wanted_valid: "cfg_valid cfg \<Longrightarrow> \<exists>b. attempt_wanted cfg env c = Some b"
  by (auto simp: cfg_valid_def attempt_wanted_def)

lemma start_phase_rw:
  assumes "cfg_valid cfg" "co_phase c mod 3 = 1" "co_cmd c = Some ((RWChopper_Init junk w par)\<lparr>tx_id := t\<rparr>)"
    "n_dispatch c = 0" "dispatch_acks c = []"
  shows "\<exists>c' ms. start_phase cfg env c = Some c' \<and> co_sent c' = co_sent c @ ms \<and>
     (\<exists>orig bc. ms \<in> {[DISPATCH t (co_phase c) par [rw_piece_of w] orig bc], [DISPATCH t (co_phase c) par [rw_piece_of w] orig bc, SPECULATE t (co_phase c)],
        [SPECULATE t (co_phase c), FUSED t (co_phase c) [rw_piece_of w]]}) \<and>
     co_phase c' = co_phase c \<and> next_txn_id c' = next_txn_id c \<and>
     rule_outstanding_dispatches c' = rule_outstanding_dispatches c + 1 \<and> busy c' \<and>
     (\<not> co_committed c \<longrightarrow> \<not> co_aborted c \<longrightarrow> \<not> commit_reported c \<longrightarrow> n_dispatch_ack c = 0 \<longrightarrow> ongoing_tx_id c = base + word_of_nat k \<longrightarrow>
        running base k (rw_piece_of w) c')"
proof -
  obtain b where b: "attempt_wanted cfg env (c\<lparr>fast_path_success := False, dispatch_ack := False,
      rule_outstanding_dispatches := rule_outstanding_dispatches c + 1\<rparr>) = Some b"
    using attempt_wanted_valid [OF assms(1)] by blast
  show ?thesis
    using assms(2-) b by (auto simp: start_phase_def GetReadyPiecesData_rw number_pieces_def Let_def DispatchAsync_def
      DispatchAndSpeculativeExecuteFused_def BroadcastRuleSpeculativeExecute_def single_piece_def running_def)
qed


lemma coo_inv_append: "coo_inv base evs k inn c \<Longrightarrow> coo_inv base (evs @ [ev]) k inn c"
  by (auto simp: coo_inv_def intro: vouched_mono)

lemma begin_step:
  assumes inv: "coo_inv base evs k inn c" and idle: "co_cmd c = None" and "k < max_tx" "cfg_valid cfg"
  shows "\<exists>c'. DoTxAsync cfg env (RWChopper_Init junk w par) c = Some c' \<and> coo_inv base evs k (rw_piece_of w) c'"
proof -
  define d where "d = (Reset (c\<lparr>next_txn_id := next_txn_id c + 1, ongoing_tx_id := next_txn_id c,
     co_cmd := Some ((RWChopper_Init junk w par)\<lparr>tx_id := next_txn_id c\<rparr>)\<rparr>))\<lparr>co_phase := co_phase c + 1\<rparr>"
  have ph: "co_phase c mod 3 = 0" "co_phase c + 1 = phase_of k" and id: "next_txn_id c = base + word_of_nat k"
    using inv idle idle_mod [of k] \<open>k < max_tx\<close> by (simp_all add: coo_inv_def phase_of_def)
  have d: "co_phase d = phase_of k" "co_cmd d = Some ((RWChopper_Init junk w par)\<lparr>tx_id := base + word_of_nat k\<rparr>)"
      "n_dispatch d = 0" "dispatch_acks d = []" "\<not> co_committed d" "\<not> co_aborted d" "\<not> commit_reported d" "n_dispatch_ack d = 0"
      "ongoing_tx_id d = base + word_of_nat k" "co_sent d = co_sent c" "next_txn_id d = base + word_of_nat (Suc k)"
      "rule_outstanding_dispatches d = rule_outstanding_dispatches c"
    using ph id by (simp_all add: d_def Reset_def)
  from start_phase_rw [where c = d and env = env and base = base and k = k, OF \<open>cfg_valid cfg\<close> _ d(2,3,4)] d phase_of_mod [OF \<open>k < max_tx\<close>]
  obtain c' ms orig bc where c': "start_phase cfg env d = Some c'" "co_sent c' = co_sent c @ ms"
     "ms \<in> {[DISPATCH (base + word_of_nat k) (phase_of k) par [rw_piece_of w] orig bc],
        [DISPATCH (base + word_of_nat k) (phase_of k) par [rw_piece_of w] orig bc, SPECULATE (base + word_of_nat k) (phase_of k)],
        [SPECULATE (base + word_of_nat k) (phase_of k), FUSED (base + word_of_nat k) (phase_of k) [rw_piece_of w]]}"
     "co_phase c' = phase_of k" "next_txn_id c' = base + word_of_nat (Suc k)"
     "rule_outstanding_dispatches c' = rule_outstanding_dispatches c + 1" "busy c'" "running base k (rw_piece_of w) c'"
    by auto
  have "DoTxAsync cfg env (RWChopper_Init junk w par) c = Some c'"
    using c'(1) ph(1) by (simp add: DoTxAsync_def GotoNextPhase_def Let_def d_def Reset_def)
  moreover have "list_all (message_ok k (rw_piece_of w) (Suc k)) (co_sent c)"
    using inv idle by (auto simp: coo_inv_def intro: messages_ok_mono)
  ultimately show ?thesis
    using inv idle c'(2-) \<open>k < max_tx\<close> by (auto simp: coo_inv_def phase_of_def)
qed


lemma coo_inv_busy:
  assumes "coo_inv base evs k inn c" "busy c"
  shows "k < max_tx" "co_phase c = phase_of k" "running base k inn c" "rule_outstanding_dispatches c = 1"
  using assms by (simp_all add: coo_inv_def phase_of_def)

lemma coo_inv_message:
  "coo_inv base evs k inn c \<Longrightarrow> m \<in> set (co_sent c) \<Longrightarrow> message_ok k inn (k + of_bool (busy c)) m"
  by (simp add: coo_inv_def list_all_iff)

lemma finish_step:
  assumes inv: "coo_inv base evs k inn c" "busy c"
    and same: "co_phase c1 = co_phase c" "next_txn_id c1 = next_txn_id c"
      "rule_outstanding_dispatches c1 = rule_outstanding_dispatches c" "co_sent c1 = co_sent c" "ongoing_tx_id c1 = ongoing_tx_id c"
      "co_aborted c1 = co_aborted c" "commit_reported c1 = commit_reported c"
    and won: "busy c1" "fast_path_success c1 \<or> dispatch_ack c1" "vouched evs' k" "\<And>j. vouched evs j \<Longrightarrow> vouched evs' j"
  shows "\<exists>c'. GotoNextPhase cfg env c1 = Some c' \<and> coo_inv base evs' (Suc k) inn c' \<and> co_cmd c' = None"
proof -
  note b = coo_inv_busy [OF inv]
  have nxt: "phase_of k + 1 + 1 = word_of_nat (3 * Suc k)" by (simp add: phase_of_def)
  have m: "phase_of k mod 3 = 1" "(phase_of k + 1 + 1) mod 3 = 0"
    using phase_of_mod [OF b(1)] idle_mod [of "Suc k"] b(1) unfolding nxt by auto
  obtain c' where c': "GotoNextPhase cfg env c1 = Some c'" "co_cmd c' = None" "co_phase c' = word_of_nat (3 * Suc k)"
      "next_txn_id c' = next_txn_id c" "rule_outstanding_dispatches c' = 0"
      "co_sent c' = co_sent c @ [REPLY (base + word_of_nat k) SUCCESS]"
    using b(2-4) same won m nxt by (auto simp: GotoNextPhase_def dispatched_phase_def End_def running_def Let_def)
  have "list_all (message_ok (Suc k) inn (Suc k)) (co_sent c)"
    using inv by (auto simp: coo_inv_def intro: messages_ok_mono)
  then have "coo_inv base evs' (Suc k) inn c'"
    using inv b(1) c'(2-) won(3,4) unfolding coo_inv_def by (auto simp: less_Suc_eq)
  with c' show ?thesis by blast
qed

lemma ack_step:
  assumes inv: "coo_inv base evs k inn c" and en: "enabled c (Ack env phase res outs)" and ok: "\<not> refusal (Ack env phase res outs)"
  shows "\<exists>c'. DispatchAck cfg env phase res outs c = Some c' \<and>
    (if busy c \<and> phase = co_phase c then coo_inv base (evs @ [Ack env phase res outs]) (Suc k) inn c' \<and> co_cmd c' = None
     else c' = c)"
proof -
  obtain j where j: "j < k + of_bool (busy c)" "phase = phase_of j" "j = k \<Longrightarrow> outs = [inn]"
    using en by (auto dest!: coo_inv_message [OF inv])
  show ?thesis
  proof (cases "phase = co_phase c")
    case True
    have "busy c" using True j phase_of_not_idle [of j k] inv by (auto simp: coo_inv_def)
    note b = coo_inv_busy [OF inv this]
    have outs: "outs = [inn]"
      using j True b(1,2) phase_of_inject [of j k] \<open>busy c\<close> by (auto simp: less_Suc_eq_le)
    obtain tx where tx: "co_cmd c = Some tx" "n_pieces_all tx = 1" "n_pieces_dispatchable tx = 1" "n_pieces_dispatched tx = 1"
        "n_pieces_dispatch_acked tx = 0" "tx_outputs tx = []" using b(3) by (auto simp: running_def)
    define c1 where "c1 = c\<lparr>n_dispatch_ack := 1, dispatch_acks := [(inn, True)],
        co_cmd := Some (tx\<lparr>n_pieces_dispatch_acked := 1, tx_outputs := [inn]\<rparr>), dispatch_ack := True\<rparr>"
    have "DispatchAck cfg env phase res outs c = GotoNextPhase cfg env c1"
      using True ok outs tx b(3) by (simp add: DispatchAck_def running_def Merge_def pieces_ordered_def HasMoreUnsentPiece_def
        AllDispatchAcked_def Let_def c1_def)
    moreover have "vouched (evs @ [Ack env phase res outs]) k"
      unfolding vouched_def using True b(2) ok by auto
    ultimately show ?thesis
      using finish_step [OF inv \<open>busy c\<close>, of c1 "evs @ [Ack env phase res outs]" cfg env] True \<open>busy c\<close> vouched_mono
      by (simp add: c1_def)
  next
    case False
    then show ?thesis by (simp add: DispatchAck_def)
  qed
qed

lemma speculative_step:
  assumes inv: "coo_inv base evs k inn c" and en: "enabled c (Speculated env phase e)"
  shows "\<exists>c'. SpeculativeDone cfg env phase e c = Some c' \<and>
    (\<exists>k'. coo_inv base (evs @ [Speculated env phase e]) k' inn c')"
proof -
  have idem: "coo_inv base (evs @ [Speculated env phase e]) k inn (c\<lparr>fast_path_success := b\<rparr>)" for b
    using coo_inv_append [OF inv, of "Speculated env phase e"] by (simp add: coo_inv_def running_def)
  obtain j where j: "j < k + of_bool (busy c)" "phase = phase_of j"
    using en by (auto dest!: coo_inv_message [OF inv])
  show ?thesis
  proof (cases "phase = co_phase c \<and> Rule_Yes e")
    case True
    have "busy c" using True j phase_of_not_idle [of j k] inv by (auto simp: coo_inv_def)
    note b = coo_inv_busy [OF inv this]
    have "vouched (evs @ [Speculated env phase e]) k" unfolding vouched_def using True b(2) by auto
    then obtain c' where "GotoNextPhase cfg env (c\<lparr>fast_path_success := True\<rparr>) = Some c'"
        "coo_inv base (evs @ [Speculated env phase e]) (Suc k) inn c'"
      using finish_step [OF inv \<open>busy c\<close>, of "c\<lparr>fast_path_success := True\<rparr>" "evs @ [Speculated env phase e]" cfg env]
        \<open>busy c\<close> vouched_mono by auto
    with True show ?thesis by (auto simp: SpeculativeDone_def Let_def)
  next
    case False
    with en idem show ?thesis by (auto simp: SpeculativeDone_def Let_def)
  qed
qed


section \<open>Every transaction is sent once and answered once\<close>

fun begins :: "coo_event \<Rightarrow> bool" where
  "begins (Begin env junk w par) \<longleftrightarrow> True"
| "begins _ \<longleftrightarrow> False"

lemma coo_handle_inv:
  assumes inv: "coo_inv base evs k inn c" and cfg: "cfg_valid cfg" and en: "enabled c ev" "\<not> refusal ev" "begins ev \<longrightarrow> k < max_tx"
  shows "\<exists>c' k' inn'. coo_handle cfg ev c = Some c' \<and> coo_inv base (evs @ [ev]) k' inn' c'"
proof (cases ev)
  case (Begin env junk w par)
  with cfg en show ?thesis using begin_step [OF coo_inv_append [OF inv, of ev], of cfg env junk w par] by auto
next
  case (Ack env phase res outs)
  with en obtain c' where c': "coo_handle cfg ev c = Some c'"
      "if busy c \<and> phase = co_phase c then coo_inv base (evs @ [ev]) (Suc k) inn c' \<and> co_cmd c' = None else c' = c"
    using ack_step [OF inv, of env phase res outs cfg] by auto
  show ?thesis
  proof (cases "busy c \<and> phase = co_phase c")
    case True
    with c' show ?thesis by auto
  next
    case False
    with c' coo_inv_append [OF inv, of ev] show ?thesis by (auto simp del: coo_handle.simps)
  qed
next
  case (Speculated env phase e)
  with en show ?thesis using speculative_step [OF inv, of env phase e cfg] by auto
qed

lemma last_transaction:
  assumes "coo_inv base evs k inn c" "enabled c ev" "begins ev" "coo_handle cfg ev c = Some c'"
  shows "k < max_tx"
proof (rule ccontr)
  assume k: "\<not> k < max_tx"
  obtain env junk w par where ev: "ev = Begin env junk w par" using assms(3) by (cases ev) auto
  have "co_phase c = word_of_nat (3 * max_tx)" using assms(1,2) k ev by (simp add: coo_inv_def)
  then have "co_phase c = -1" by (simp add: max_tx_def)
  then show False using assms(4) ev by (simp add: DoTxAsync_def GotoNextPhase_def start_phase_def Reset_def Let_def)
qed

lemma coo_reach_inv:
  assumes "coo_reach cfg (new_coordinator base junk) evs c" "\<forall>ev\<in>set evs. \<not> refusal ev" "cfg_valid cfg"
  shows "\<exists>k inn. coo_inv base evs k inn c"
  using assms
proof (induction rule: coo_reach.induct)
  case coo_init
  show ?case by (rule exI [of _ 0]) (simp add: coo_inv_def new_coordinator_def)
next
  case (coo_step evs c ev c')
  then obtain k inn where inv: "coo_inv base evs k inn c" by auto
  from coo_handle_inv [OF inv \<open>cfg_valid cfg\<close> coo_step(2)] coo_step(3,5) last_transaction [OF inv coo_step(2) _ coo_step(3)]
  show ?case by (auto simp del: coo_handle.simps)
qed


text \<open>A client that attempts the fast path on the read/write workload over Raft.\<close>

definition raft_cfg :: coo_cfg where
  "raft_cfg = \<lparr>coo_is_curp = False, attempt_rate = 101, coo_proto = MODE_RAFT, merge_leader_rpc = False\<rparr>"

definition calm :: attempt_env where
  "calm = \<lparr>rate_draw = 0, bandit_draw = 0, cpu_draw = 0, depth_draw = 0, fp_count = 0, fp_ave = 0, sp_ave = 0,
     max_leader_avg = 0, queue_depth_ave = 0\<rparr>"

lemma raft_attempts [simp]:
  "attempt_wanted raft_cfg env c = Some True" "throttled raft_cfg env c = False" "cfg_valid raft_cfg"
  "merge_leader_rpc raft_cfg = False" "coo_proto raft_cfg = MODE_RAFT"
  by (simp_all add: attempt_wanted_def throttled_def raft_cfg_def cfg_valid_def)

lemmas coo_eval = DoTxAsync_def GotoNextPhase_def start_phase_def Reset_def Let_def GetReadyPiecesData_rw number_pieces_def
  DispatchAsync_def BroadcastRuleSpeculativeExecute_def single_piece_def

text \<open>The state of a fresh client with one write under way.\<close>

lemma first_write:
  obtains c where "coo_reach raft_cfg (new_coordinator 0 []) [Begin calm 0 True 0] c" "busy c" "\<not> fast_path_success c"
    "co_sent c = [DISPATCH 0 1 0 [101] False True, SPECULATE 0 1]" "co_phase c = 1"
proof -
  have "\<exists>c. DoTxAsync raft_cfg calm (RWChopper_Init 0 True 0) (new_coordinator 0 []) = Some c \<and> busy c \<and> \<not> fast_path_success c \<and>
      co_sent c = [DISPATCH 0 1 0 [101] False True, SPECULATE 0 1] \<and> co_phase c = 1"
    by (simp add: coo_eval new_coordinator_def rw_piece_of_def)
  then obtain c where c: "DoTxAsync raft_cfg calm (RWChopper_Init 0 True 0) (new_coordinator 0 []) = Some c" "busy c"
      "\<not> fast_path_success c" "co_sent c = [DISPATCH 0 1 0 [101] False True, SPECULATE 0 1]" "co_phase c = 1" by blast
  have "enabled (new_coordinator 0 []) (Begin calm 0 True 0)" by (simp add: new_coordinator_def)
  then have "coo_reach raft_cfg (new_coordinator 0 []) ([] @ [Begin calm 0 True 0]) c"
    using c(1) by (intro coo_step [OF coo_init]) auto
  with c(2-) that show thesis by simp
qed


text \<open>
  C23. A refused transaction spoils the next one of its coordinator. When a dispatch of the running
  transaction is answered with \<^verbatim>\<open>WRONG_LEADER\<close>, the coordinator ends the transaction but stays in
  the phase that waits for the original path. The next transaction begins there: it is
  reported as \<^verbatim>\<open>SUCCESS\<close> although nothing of it was sent, and the counter of outstanding dispatches
  falls below zero. When an earlier transaction's fast quorum was reached in the meantime, its
  success is taken for the running one's, the transaction is ended twice and the process
  fails.
\<close>

theorem refused_spoils_next:
  assumes "coo_reach cfg (new_coordinator base junk) evs c" "\<forall>ev\<in>set evs. \<not> refusal ev" "cfg_valid cfg" "busy c"
  shows "if fast_path_success c then DispatchAck cfg env (co_phase c) WRONG_LEADER_RES outs c = None
     else \<exists>c1 c2. DispatchAck cfg env (co_phase c) WRONG_LEADER_RES outs c = Some c1 \<and> \<not> busy c1 \<and>
       DoTxAsync cfg env' (RWChopper_Init junk' w par) c1 = Some c2 \<and> \<not> busy c2 \<and>
       replies c2 = replies c @ [(ongoing_tx_id c, WRONG_LEADER_RES), (next_txn_id c, SUCCESS)] \<and>
       dispatches c2 = dispatches c \<and> rule_outstanding_dispatches c2 = -1"
proof -
  obtain k inn where inv: "coo_inv base evs k inn c" using coo_reach_inv [OF assms(1-3)] by blast
  note b = coo_inv_busy [OF inv assms(4)]
  have nxt: "phase_of k + 1 + 1 = word_of_nat (3 * Suc k)" by (simp add: phase_of_def)
  have m: "phase_of k mod 3 = 1" "(phase_of k + 1 + 1) mod 3 = 0" "(phase_of k + 1) mod 3 = 2"
    using phase_of_mod [OF b(1)] phase_of_next_mod [OF b(1)] idle_mod [of "Suc k"] b(1) unfolding nxt by auto
  let ?ack = "DispatchAck cfg env (co_phase c) WRONG_LEADER_RES outs c"
  show ?thesis
  proof (cases "fast_path_success c")
    case True
    with b(2-4) m(1) show ?thesis
      by (auto simp: DispatchAck_def GotoNextPhase_def dispatched_phase_def End_def running_def Let_def)
  next
    case False
    with b(2-4) m(1,3) obtain c1 where c1: "?ack = Some c1" "co_cmd c1 = None" "co_phase c1 = phase_of k + 1"
        "co_sent c1 = co_sent c @ [REPLY (ongoing_tx_id c) WRONG_LEADER_RES]" "next_txn_id c1 = next_txn_id c"
        "rule_outstanding_dispatches c1 = 0"
      by (auto simp: DispatchAck_def GotoNextPhase_def dispatched_phase_def End_def running_def Let_def)
    with m(2,3) obtain c2 where "DoTxAsync cfg env' (RWChopper_Init junk' w par) c1 = Some c2" "co_cmd c2 = None"
        "co_sent c2 = co_sent c1 @ [REPLY (next_txn_id c) SUCCESS]" "rule_outstanding_dispatches c2 = -1"
      by (auto simp: DoTxAsync_def GotoNextPhase_def Reset_def waiting_origin_phase_def End_def Let_def)
    with c1 False show ?thesis by simp
  qed
qed

theorem refused_spoils_next_witness:
  "\<exists>c c1 c2. coo_reach raft_cfg (new_coordinator 0 []) [Begin calm 0 True 0] c \<and>
     DispatchAck raft_cfg calm 1 WRONG_LEADER_RES [101] c = Some c1 \<and>
     DoTxAsync raft_cfg calm (RWChopper_Init 0 True 0) c1 = Some c2 \<and> length (dispatches c2) = 1 \<and> length (replies c2) = 2"
proof -
  obtain c where c: "coo_reach raft_cfg (new_coordinator 0 []) [Begin calm 0 True 0] c" "busy c" "\<not> fast_path_success c"
      "co_sent c = [DISPATCH 0 1 0 [101] False True, SPECULATE 0 1]" "co_phase c = 1" by (rule first_write)
  have "\<forall>ev\<in>set [Begin calm 0 True 0]. \<not> refusal ev" by simp
  from refused_spoils_next [OF c(1) this _ c(2), of calm "[101]" calm 0 True 0] c(3-5)
  obtain c1 c2 where "DispatchAck raft_cfg calm 1 WRONG_LEADER_RES [101] c = Some c1"
      "DoTxAsync raft_cfg calm (RWChopper_Init 0 True 0) c1 = Some c2" "length (dispatches c2) = 1" "length (replies c2) = 2"
    by auto
  with c(1) show ?thesis by blast
qed

text \<open>
  The other case of the refusal occurs: the votes of a transaction that was answered through the
  original path arrive during the next one.
\<close>

lemma stale_success_reachable:
  assumes e: "Rule_Yes e"
  shows "\<exists>evs c. coo_reach raft_cfg (new_coordinator 0 []) evs c \<and> (\<forall>ev\<in>set evs. \<not> refusal ev) \<and> busy c \<and> fast_path_success c"
proof -
  let ?c0 = "new_coordinator 0 []" and ?tx = "RWChopper_Init 0 True 0"
  let ?start = "Begin calm 0 True 0" and ?ack = "Ack calm 1 SUCCESS [101]" and ?votes = "Speculated calm 1 e"
  have "\<exists>c1 c2 c3 c4. coo_handle raft_cfg ?start ?c0 = Some c1 \<and> coo_handle raft_cfg ?ack c1 = Some c2 \<and>
      coo_handle raft_cfg ?start c2 = Some c3 \<and> coo_handle raft_cfg ?votes c3 = Some c4 \<and>
      enabled ?c0 ?start \<and> enabled c1 ?ack \<and> enabled c2 ?start \<and> enabled c3 ?votes \<and> busy c4 \<and> fast_path_success c4"
    using e by (simp add: coo_eval new_coordinator_def rw_piece_of_def DispatchAck_def Merge_def pieces_ordered_def
      HasMoreUnsentPiece_def AllDispatchAcked_def dispatched_phase_def End_def SpeculativeDone_def
      cong: bind_weak_cong let_weak_cong) blast
  then obtain c1 c2 c3 c4 where run: "coo_handle raft_cfg ?start ?c0 = Some c1" "coo_handle raft_cfg ?ack c1 = Some c2"
      "coo_handle raft_cfg ?start c2 = Some c3" "coo_handle raft_cfg ?votes c3 = Some c4"
    and en: "enabled ?c0 ?start" "enabled c1 ?ack" "enabled c2 ?start" "enabled c3 ?votes"
    and c4: "busy c4" "fast_path_success c4" by blast
  note r = coo_step [OF coo_step [OF coo_step [OF coo_step [OF coo_init en(1) run(1)] en(2) run(2)] en(3) run(3)] en(4) run(4)]
  show ?thesis by (rule exI, rule exI, rule conjI [OF r]) (simp add: c4 del: not_None_eq)
qed

end
