(* ===== verification/MarshalBuffer.thy ===== *)
theory MarshalBuffer
  imports Prelude
begin

text \<open>
  \<^verbatim>\<open>Marshal\<close> of \<^verbatim>\<open>rrr/misc/marshal.hpp\<close> and \<^verbatim>\<open>marshal.cpp\<close>: the buffer every message is written to
  and read from. It is a list of chunks, each a block of memory with a read and a write index.
  The theory shows that it behaves as a queue of bytes.

  The bytes of a chunk are the ones below its write index. The \<^verbatim>\<open>assert\<close>s that compare counters are kept,
  and abort like \<^verbatim>\<open>verify\<close>. A file descriptor is the list of bytes it has to offer, and \<open>grants\<close> says
  how many bytes the kernel lets each system call transfer. \<^verbatim>\<open>read_from_marshal\<close> shares blocks of
  memory; the code relies on only one owner writing to a shared block, so a block is copied here.
\<close>

type_synonym byte = "8 word"

section \<open>Chunks\<close>

record chunk =
  ck_data :: "byte list"
  ck_size :: nat
  ck_read :: nat

definition min_size :: nat where
  "min_size = 8192"

definition new_chunk :: "byte list \<Rightarrow> chunk" where
  "new_chunk p = \<lparr>ck_data = p, ck_size = max (length p) min_size, ck_read = 0\<rparr>"

definition chunk_content_size :: "chunk \<Rightarrow> nat" where
  "chunk_content_size c = length (ck_data c) - ck_read c"

definition chunk_write :: "byte list \<Rightarrow> chunk \<Rightarrow> nat \<times> chunk" where
  "chunk_write p c =
     (let n_write = min (length p) (ck_size c - length (ck_data c))
      in (n_write, c\<lparr>ck_data := ck_data c @ take n_write p\<rparr>))"

definition chunk_peek :: "nat \<Rightarrow> chunk \<Rightarrow> byte list" where
  "chunk_peek n c = take (min n (length (ck_data c) - ck_read c)) (drop (ck_read c) (ck_data c))"

definition chunk_discard :: "nat \<Rightarrow> chunk \<Rightarrow> nat \<times> chunk" where
  "chunk_discard n c =
     (let n_discard = min n (length (ck_data c) - ck_read c) in (n_discard, c\<lparr>ck_read := ck_read c + n_discard\<rparr>))"

definition chunk_read :: "nat \<Rightarrow> chunk \<Rightarrow> byte list \<times> chunk" where
  "chunk_read n c =
     (let n_read = min n (length (ck_data c) - ck_read c)
      in (take n_read (drop (ck_read c) (ck_data c)), c\<lparr>ck_read := ck_read c + n_read\<rparr>))"

definition fully_written :: "chunk \<Rightarrow> bool" where
  "fully_written c \<longleftrightarrow> length (ck_data c) = ck_size c"

definition fully_read :: "chunk \<Rightarrow> bool" where
  "fully_read c \<longleftrightarrow> ck_read c = ck_size c"

section \<open>The buffer\<close>

record marshal =
  m_chunks :: "chunk list"
  write_cnt :: u32
  content_size :: nat

definition new_marshal :: marshal where
  "new_marshal = \<lparr>m_chunks = [], write_cnt = 0, content_size = 0\<rparr>"

definition content_size_slow :: "chunk list \<Rightarrow> nat" where
  "content_size_slow cs = sum_list (map chunk_content_size cs)"

definition Marshal_write :: "byte list \<Rightarrow> marshal \<Rightarrow> (nat \<times> marshal) option" where
  "Marshal_write p m =
     do {cs \<leftarrow> (if m_chunks m = [] then Some [new_chunk p]
                else if fully_written (last (m_chunks m)) then Some (m_chunks m @ [new_chunk p])
                else let (n_write, c) = chunk_write p (last (m_chunks m))
                     in do {vrfy (n_write > 0);
                            Some (butlast (m_chunks m) @ [c] @ (if n_write < length p then [new_chunk (drop n_write p)] else []))});
         Some (length p, m\<lparr>m_chunks := cs, write_cnt := write_cnt m + word_of_nat (length p),
                            content_size := content_size m + length p\<rparr>)}"

lemma chunk_read_shrinks:
  "chunk_read n c = (bs, c') \<Longrightarrow> n > 0 \<Longrightarrow> chunk_content_size c > 0 \<Longrightarrow> chunk_content_size c' < chunk_content_size c"
  by (auto simp: chunk_read_def chunk_content_size_def Let_def min_def)

text \<open>The loop of \<^verbatim>\<open>read\<close>: it goes on with the same chunk until that has nothing left.\<close>

function read_loop :: "nat \<Rightarrow> chunk list \<Rightarrow> byte list \<times> chunk list" where
  "read_loop n [] = ([], [])"
| "read_loop n (c # cs) =
     (if n > 0 \<and> chunk_content_size c > 0
      then let (bs, c') = chunk_read n c;
               (bs', cs') = read_loop (n - length bs) (if fully_read c' then cs else c' # cs)
           in (bs @ bs', cs')
      else ([], c # cs))"
  by pat_completeness auto

termination
proof (relation "measure (\<lambda>(n, cs). content_size_slow cs)")
  fix n c cs x bs c'
  assume "n > 0 \<and> chunk_content_size c > 0" "x = chunk_read n c" "(bs, c') = x"
  with chunk_read_shrinks [of n c bs c']
  show "((n - length bs, if fully_read c' then cs else c' # cs), (n, c # cs)) \<in> measure (\<lambda>(n, cs). content_size_slow cs)"
    by (simp add: content_size_slow_def)
qed simp

definition Marshal_read :: "nat \<Rightarrow> marshal \<Rightarrow> (byte list \<times> marshal) option" where
  "Marshal_read n m =
     (let (bs, cs) = read_loop n (m_chunks m)
      in do {vrfy (content_size m \<ge> length bs);
             vrfy (content_size m - length bs = content_size_slow cs);
             Some (bs, m\<lparr>m_chunks := cs, content_size := content_size m - length bs\<rparr>)})"

fun peek_loop :: "nat \<Rightarrow> chunk list \<Rightarrow> byte list" where
  "peek_loop n [] = []"
| "peek_loop n (c # cs) =
     (if n > 0
      then let bs = chunk_peek n c in if bs = [] then [] else bs @ peek_loop (n - length bs) cs
      else [])"

definition Marshal_peek :: "nat \<Rightarrow> marshal \<Rightarrow> byte list" where
  "Marshal_peek n m = peek_loop n (m_chunks m)"

text \<open>A chunk with room at the end of the list.\<close>

definition with_room :: "chunk list \<Rightarrow> chunk list" where
  "with_room cs = (if cs = [] then [new_chunk []] else if fully_written (last cs) then cs @ [new_chunk []] else cs)"

text \<open>Each call of \<^verbatim>\<open>::read\<close> fills at most the room of the last chunk; the loop ends when nothing comes.\<close>

fun read_fd_loop :: "nat list \<Rightarrow> byte list \<Rightarrow> chunk list \<Rightarrow> nat \<times> byte list \<times> chunk list" where
  "read_fd_loop [] fd cs = (0, fd, with_room cs)"
| "read_fd_loop (g # grants) fd cs =
     (let cs1 = with_room cs; c = last cs1;
          r = min g (min (ck_size c - length (ck_data c)) (length fd))
      in if r = 0 then (0, fd, cs1)
         else let (n, fd', cs') = read_fd_loop grants (drop r fd)
                                    (butlast cs1 @ [c\<lparr>ck_data := ck_data c @ take r fd\<rparr>])
              in (r + n, fd', cs'))"

definition read_from_fd :: "nat list \<Rightarrow> byte list \<Rightarrow> marshal \<Rightarrow> (nat \<times> byte list \<times> marshal) option" where
  "read_from_fd grants fd m =
     (let (n, fd', cs) = read_fd_loop grants fd (m_chunks m)
      in do {vrfy (content_size m + n = content_size_slow cs);
             Some (n, fd', m\<lparr>m_chunks := cs, write_cnt := write_cnt m + word_of_nat n, content_size := content_size m + n\<rparr>)})"

fun write_fd_loop :: "nat list \<Rightarrow> nat \<Rightarrow> chunk list \<Rightarrow> byte list \<times> nat \<times> chunk list" where
  "write_fd_loop (g # grants) sz (c # cs) =
     (if sz = 0 then ([], sz, c # cs)
      else let (bs, c') = chunk_read g c; cs1 = (if fully_read c' then cs else c' # cs)
           in if bs = [] then ([], sz, cs1)
              else let (out, sz', cs') = write_fd_loop grants (sz - length bs) cs1 in (bs @ out, sz', cs'))"
| "write_fd_loop grants sz cs = ([], sz, cs)"

definition write_to_fd :: "nat list \<Rightarrow> marshal \<Rightarrow> (byte list \<times> marshal) option" where
  "write_to_fd grants m =
     (let (out, sz, cs) = write_fd_loop grants (content_size m) (m_chunks m)
      in do {vrfy (sz = content_size_slow cs); Some (out, m\<lparr>m_chunks := cs, content_size := sz\<rparr>)})"

text \<open>Moving whole chunks from the head of one buffer, the last one shortened.\<close>

function fetch_loop :: "nat \<Rightarrow> chunk list \<Rightarrow> (chunk list \<times> chunk list) option" where
  "fetch_loop n cs =
     (if n = 0 then Some ([], cs)
      else case cs of
        [] \<Rightarrow> None
      | c # rest \<Rightarrow>
          let chnk = (if chunk_content_size c > n then c\<lparr>ck_data := take (ck_read c + n) (ck_data c)\<rparr> else c);
              cnt = chunk_content_size chnk
          in if cnt = 0 then None
             else let (d, c') = chunk_discard cnt c
                  in do {vrfy (d = cnt);
                         (fetched, left) \<leftarrow> fetch_loop (n - cnt) (if fully_read c' then rest else c' # rest);
                         Some (chnk # fetched, left)})"
  by pat_completeness auto

termination
  by (relation "measure fst") auto

text \<open>
  \<^verbatim>\<open>read_from_marshal\<close>: when the receiver's last chunk has room, that is filled by copying first; then whole
  chunks are moved.
\<close>

definition move_chunks :: "nat \<Rightarrow> marshal \<Rightarrow> marshal \<Rightarrow> (marshal \<times> marshal) option" where
  "move_chunks n from to =
     do {(fetched, left) \<leftarrow> fetch_loop n (m_chunks from);
         vrfy (content_size from \<ge> n);
         Some (from\<lparr>m_chunks := left, content_size := content_size from - n\<rparr>,
               to\<lparr>m_chunks := m_chunks to @ fetched, write_cnt := write_cnt to + word_of_nat n,
                   content_size := content_size to + n\<rparr>)}"

definition read_from_marshal :: "nat \<Rightarrow> marshal \<Rightarrow> marshal \<Rightarrow> (marshal \<times> marshal) option" where
  "read_from_marshal n from to =
     do {vrfy (content_size from \<ge> n);
         if m_chunks to = [] \<or> fully_written (last (m_chunks to)) then move_chunks n from to
         else do {let copy_n = min (ck_size (last (m_chunks to)) - length (ck_data (last (m_chunks to)))) n;
                  (buf, from1) \<leftarrow> Marshal_read copy_n from;
                  vrfy (length buf = copy_n);
                  (n_written, to1) \<leftarrow> Marshal_write buf to;
                  if n - copy_n > 0
                  then do {vrfy (fully_written (last (m_chunks to1))); move_chunks (n - copy_n) from1 to1}
                  else Some (from1, to1)}}"

section \<open>The buffer as a queue of bytes\<close>

definition unread :: "chunk \<Rightarrow> byte list" where
  "unread c = drop (ck_read c) (ck_data c)"

definition queue_of :: "chunk list \<Rightarrow> byte list" where
  "queue_of cs = concat (map unread cs)"

abbreviation contents :: "marshal \<Rightarrow> byte list" where
  "contents m \<equiv> queue_of (m_chunks m)"

definition chunk_ok :: "chunk \<Rightarrow> bool" where
  "chunk_ok c \<longleftrightarrow> ck_read c \<le> length (ck_data c) \<and> length (ck_data c) \<le> ck_size c \<and> ck_read c < ck_size c"

text \<open>Only the last chunk has room.\<close>

fun chunks_ok :: "chunk list \<Rightarrow> bool" where
  "chunks_ok [] \<longleftrightarrow> True"
| "chunks_ok (c # cs) \<longleftrightarrow> chunk_ok c \<and> (cs \<noteq> [] \<longrightarrow> fully_written c) \<and> chunks_ok cs"

definition marshal_ok :: "marshal \<Rightarrow> bool" where
  "marshal_ok m \<longleftrightarrow> chunks_ok (m_chunks m) \<and> content_size m = length (contents m)"

lemma queue_of_simps [simp]:
  "queue_of [] = []" "queue_of (c # cs) = unread c @ queue_of cs" "queue_of (cs @ ds) = queue_of cs @ queue_of ds"
  by (simp_all add: queue_of_def)

lemma chunks_ok_append:
  "chunks_ok (cs @ ds) \<longleftrightarrow> chunks_ok cs \<and> chunks_ok ds \<and> (ds \<noteq> [] \<and> cs \<noteq> [] \<longrightarrow> fully_written (last cs))"
  by (induction cs) auto

lemma content_size_slow_queue: "content_size_slow cs = length (queue_of cs)"
  by (induction cs) (simp_all add: content_size_slow_def chunk_content_size_def unread_def)

lemma chunk_content_unread: "chunk_content_size c = length (unread c)"
  by (simp add: chunk_content_size_def unread_def)

lemma new_chunk_ok [simp]: "chunk_ok (new_chunk p)" "unread (new_chunk p) = p"
  by (simp_all add: new_chunk_def chunk_ok_def unread_def min_size_def less_max_iff_disj)

lemma chunk_write_ok:
  assumes "chunk_ok c" "chunk_write p c = (n, c')"
  shows "chunk_ok c'" "unread c' = unread c @ take n p" "n < length p \<Longrightarrow> fully_written c'" "n \<le> length p"
    "\<not> fully_written c \<Longrightarrow> p \<noteq> [] \<Longrightarrow> n > 0"
  using assms by (auto simp: chunk_write_def chunk_ok_def unread_def fully_written_def Let_def min_def split: if_splits)

lemma Marshal_write_ok:
  assumes "marshal_ok m" "p \<noteq> []"
  shows "\<exists>m'. Marshal_write p m = Some (length p, m') \<and> marshal_ok m' \<and> contents m' = contents m @ p"
proof (cases "m_chunks m = [] \<or> fully_written (last (m_chunks m))")
  case True
  with assms(1) show ?thesis
    by (auto simp: Marshal_write_def marshal_ok_def chunks_ok_append)
next
  case False
  define cs c where "cs = butlast (m_chunks m)" and "c = last (m_chunks m)"
  then have m: "m_chunks m = cs @ [c]" using False by simp
  obtain n c' where w: "chunk_write p c = (n, c')" by (cases "chunk_write p c")
  have ok: "chunk_ok c" "chunks_ok cs" "cs \<noteq> [] \<longrightarrow> fully_written (last cs)"
    using assms(1) by (auto simp: marshal_ok_def m chunks_ok_append)
  note cw = chunk_write_ok [OF ok(1) w]
  have "n > 0" using cw(5) False assms(2) by (simp add: m)
  with w cw(1-4) ok assms(1) False show ?thesis
    by (auto simp: Marshal_write_def marshal_ok_def m chunks_ok_append)
qed

lemma chunk_read_ok:
  assumes "chunk_ok c" "chunk_read n c = (bs, c')"
  shows "bs = take n (unread c)" "unread c' = drop n (unread c)" "ck_size c' = ck_size c" "ck_data c' = ck_data c"
    "\<not> fully_read c' \<Longrightarrow> chunk_ok c'" "fully_read c' \<Longrightarrow> unread c' = []"
  using assms by (auto simp: chunk_read_def chunk_ok_def unread_def fully_read_def Let_def min_def add.commute)

lemma queue_split:
  "take n u @ take (n - length u) (drop n u @ q) = take n (u @ q)" "drop (n - length u) (drop n u @ q) = drop n (u @ q)"
  by (cases "n \<le> length u"; simp)+

lemma drained_chunk:
  "chunks_ok (c # cs) \<Longrightarrow> unread c = [] \<Longrightarrow> cs = []"
  by (auto simp: chunk_ok_def unread_def fully_written_def)

lemma read_loop_ok:
  assumes "chunks_ok cs"
  shows "fst (read_loop n cs) = take n (queue_of cs) \<and> queue_of (snd (read_loop n cs)) = drop n (queue_of cs) \<and>
     chunks_ok (snd (read_loop n cs))"
  using assms
proof (induction n cs rule: read_loop.induct)
  case (2 n c cs)
  show ?case
  proof (cases "n > 0 \<and> chunk_content_size c > 0")
    case True
    obtain bs c' where r: "chunk_read n c = (bs, c')" by (cases "chunk_read n c")
    let ?rest = "if fully_read c' then cs else c' # cs"
    have ok: "chunk_ok c" using 2(2) by simp
    note cr = chunk_read_ok [OF ok r]
    have rest: "chunks_ok ?rest" "queue_of ?rest = unread c' @ queue_of cs"
      using 2(2) cr by (auto simp: fully_written_def)
    have len: "n - length bs = n - length (unread c)" by (simp add: cr(1))
    have "read_loop n (c # cs) = (bs @ fst (read_loop (n - length bs) ?rest), snd (read_loop (n - length bs) ?rest))"
      using True r by (simp add: case_prod_unfold Let_def)
    with 2(1) [OF True refl r [symmetric] rest(1)] show ?thesis
      unfolding rest(2) len cr(2) using cr(1) by (simp add: queue_split del: read_loop.simps take_append drop_append)
  next
    case False
    then have "n = 0 \<or> unread c = []" by (simp add: chunk_content_unread)
    with False 2(2) drained_chunk [OF 2(2)] show ?thesis by auto
  qed
qed simp

lemma Marshal_read_ok:
  assumes "marshal_ok m"
  shows "\<exists>m'. Marshal_read n m = Some (take n (contents m), m') \<and> marshal_ok m' \<and> contents m' = drop n (contents m)"
  using assms read_loop_ok [of "m_chunks m" n]
  by (auto simp: Marshal_read_def marshal_ok_def content_size_slow_queue case_prod_unfold Let_def min_def)

lemma peek_loop_ok: "chunks_ok cs \<Longrightarrow> peek_loop n cs = take n (queue_of cs)"
proof (induction cs arbitrary: n)
  case (Cons c cs)
  have peek: "chunk_peek n c = take n (unread c)" by (simp add: chunk_peek_def unread_def min_def)
  show ?case
  proof (cases "n > 0 \<and> unread c \<noteq> []")
    case True
    with Cons peek show ?thesis by (auto simp: Let_def min_def)
  next
    case False
    with Cons.prems drained_chunk [of c cs] peek show ?thesis by auto
  qed
qed simp

lemma Marshal_peek_ok: "marshal_ok m \<Longrightarrow> Marshal_peek n m = take n (contents m)"
  by (simp add: Marshal_peek_def marshal_ok_def peek_loop_ok)

lemma with_room_ok:
  assumes "chunks_ok cs"
  shows "chunks_ok (with_room cs)" "queue_of (with_room cs) = queue_of cs" "with_room cs \<noteq> []"
  using assms by (auto simp: with_room_def chunks_ok_append)

lemma fill_last_ok:
  assumes "chunks_ok cs" "cs \<noteq> []" "r \<le> ck_size (last cs) - length (ck_data (last cs))"
  shows "chunks_ok (butlast cs @ [last cs\<lparr>ck_data := ck_data (last cs) @ take r fd\<rparr>])"
    "queue_of (butlast cs @ [last cs\<lparr>ck_data := ck_data (last cs) @ take r fd\<rparr>]) = queue_of cs @ take r fd"
proof -
  obtain ds c where cs: "cs = ds @ [c]" using assms(2) by (cases cs rule: rev_cases) auto
  show "chunks_ok (butlast cs @ [last cs\<lparr>ck_data := ck_data (last cs) @ take r fd\<rparr>])"
    "queue_of (butlast cs @ [last cs\<lparr>ck_data := ck_data (last cs) @ take r fd\<rparr>]) = queue_of cs @ take r fd"
    using assms(1,3) by (auto simp: cs chunks_ok_append chunk_ok_def unread_def min_def)
qed

lemma read_fd_loop_ok:
  assumes "chunks_ok cs" "read_fd_loop grants fd cs = (n, fd', cs')"
  shows "chunks_ok cs' \<and> queue_of cs' @ fd' = queue_of cs @ fd \<and> length (queue_of cs') = length (queue_of cs) + n"
  using assms
proof (induction grants fd cs arbitrary: n rule: read_fd_loop.induct)
  case (1 fd cs)
  then show ?case using with_room_ok [of cs] by auto
next
  case (2 g grants fd cs)
  define c r where "c = last (with_room cs)" and "r = min g (min (ck_size c - length (ck_data c)) (length fd))"
  note room = with_room_ok [OF 2(2)]
  show ?case
  proof (cases "r = 0")
    case True
    then show ?thesis using 2(3) room by (auto simp: Let_def c_def r_def)
  next
    case False
    have "r \<le> ck_size c - length (ck_data c)" "r \<le> length fd" by (simp_all add: r_def)
    note fill = fill_last_ok [OF room(1,3), folded c_def, OF this(1), of fd]
    let ?cs = "butlast (with_room cs) @ [c\<lparr>ck_data := ck_data c @ take r fd\<rparr>]"
    have "read_fd_loop (g # grants) fd cs = (let (n, fd', cs') = read_fd_loop grants (drop r fd) ?cs in (r + n, fd', cs'))"
      using False by (simp only: read_fd_loop.simps Let_def flip: c_def r_def) simp
    then obtain k where k: "read_fd_loop grants (drop r fd) ?cs = (k, fd', cs')" "n = r + k"
      using 2(3) by (auto split: prod.splits)
    from 2(1) [OF refl c_def r_def False, OF fill(1) k(1), unfolded fill(2) room(2)] \<open>r \<le> length fd\<close> k(2)
    show ?thesis by simp
  qed
qed

lemma write_fd_loop_ok:
  assumes "chunks_ok cs" "sz0 = length (queue_of cs)" "write_fd_loop grants sz0 cs = (out, sz, cs')"
  shows "chunks_ok cs' \<and> out @ queue_of cs' = queue_of cs \<and> sz = length (queue_of cs')"
  using assms
proof (induction grants sz0 cs arbitrary: out rule: write_fd_loop.induct)
  case (1 g grants sz0 c cs)
  obtain bs c' where r: "chunk_read g c = (bs, c')" by (cases "chunk_read g c")
  have ok: "chunk_ok c" using 1(2) by simp
  note cr = chunk_read_ok [OF ok r]
  define rest where "rest = (if fully_read c' then cs else c' # cs)"
  have rest: "chunks_ok rest" "bs @ queue_of rest = queue_of (c # cs)"
    using 1(2) cr by (auto simp: fully_written_def rest_def)
  have eq: "write_fd_loop (g # grants) sz0 (c # cs) =
      (if sz0 = 0 then ([], sz0, c # cs) else if bs = [] then ([], sz0, rest)
       else let (out, sz', cs') = write_fd_loop grants (sz0 - length bs) rest in (bs @ out, sz', cs'))"
    by (simp add: r rest_def)
  show ?case
  proof (cases "sz0 = 0 \<or> bs = []")
    case True
    then have "(out, sz, cs') = ([], sz0, c # cs) \<or> (out, sz, cs') = ([], sz0, rest) \<and> bs = []"
      using 1(4) unfolding eq by (auto split: if_splits)
    with 1(2,3) rest show ?thesis by auto
  next
    case False
    then obtain out' where o: "write_fd_loop grants (sz0 - length bs) rest = (out', sz, cs')" "out = bs @ out'"
      using 1(4) unfolding eq by (auto split: prod.splits)
    have "sz0 - length bs = length (queue_of rest)" using 1(3) arg_cong [OF rest(2), of length] by simp
    from 1(1) [OF _ r [symmetric] refl rest_def _ rest(1) this o(1)] False rest(2) o(2) show ?thesis by auto
  qed
qed auto


declare fetch_loop.simps [simp del]

lemma fetch_loop_ok:
  assumes "chunks_ok cs" "n \<le> length (queue_of cs)"
  shows "\<exists>fetched left. fetch_loop n cs = Some (fetched, left) \<and> queue_of fetched = take n (queue_of cs) \<and>
     queue_of left = drop n (queue_of cs) \<and> chunks_ok fetched \<and> chunks_ok left"
  using assms
proof (induction n cs rule: fetch_loop.induct)
  case (1 n cs)
  show ?case
  proof (cases "n = 0")
    case True
    with 1(2) show ?thesis by (simp add: fetch_loop.simps)
  next
    case False
    with 1(3) obtain c rest where cs: "cs = c # rest" by (cases cs) auto
    have ok: "chunk_ok c" "chunks_ok rest" "rest \<noteq> [] \<longrightarrow> fully_written c" using 1(2) cs by auto
    have "unread c \<noteq> []" using drained_chunk [of c rest] 1(2,3) False cs by auto
    define chnk where "chnk = (if chunk_content_size c > n then c\<lparr>ck_data := take (ck_read c + n) (ck_data c)\<rparr> else c)"
    define cnt where "cnt = chunk_content_size chnk"
    define c' where "c' = c\<lparr>ck_read := ck_read c + cnt\<rparr>"
    define left where "left = (if fully_read c' then rest else c' # rest)"
    have cnt: "cnt = min n (length (unread c))" "cnt > 0"
      using ok(1) False \<open>unread c \<noteq> []\<close> by (auto simp: cnt_def chnk_def chunk_content_size_def unread_def chunk_ok_def min_def)
    have chnk: "chunk_ok chnk" "unread chnk = take n (unread c)" "cnt < n \<Longrightarrow> chnk = c"
      using ok(1) cnt by (auto simp: chnk_def cnt_def chunk_content_size_def unread_def chunk_ok_def drop_take min_def)
    have disc: "chunk_discard cnt c = (cnt, c')"
      using cnt by (auto simp: chunk_discard_def c'_def unread_def Let_def)
    have left: "chunks_ok left" "queue_of left = drop n (unread c) @ queue_of rest"
      using ok cnt by (auto simp: left_def c'_def fully_read_def fully_written_def chunk_ok_def unread_def min_def add.commute)
    have "n - cnt \<le> length (queue_of left)" "n - cnt = n - length (unread c)" using 1(3) cs left(2) cnt(1) by auto
    with 1(1) [OF False cs chnk_def cnt_def _ disc [symmetric] refl, folded left_def] left cnt(2)
    obtain f l where ih: "fetch_loop (n - cnt) left = Some (f, l)" "queue_of f = take (n - cnt) (queue_of left)"
        "queue_of l = drop (n - cnt) (queue_of left)" "chunks_ok f" "chunks_ok l" by auto
    have "f \<noteq> [] \<longrightarrow> cnt < n" using ih(1) by (cases "n - cnt") (auto simp: fetch_loop.simps [of 0])
    then have "f \<noteq> [] \<longrightarrow> fully_written chnk"
      using chnk(3) ok(3) cnt(1) 1(3) cs by auto
    moreover have "fetch_loop n cs = Some (chnk # f, l)"
      using False cnt(2) disc ih(1) unfolding cs by (subst fetch_loop.simps) (simp add: Let_def flip: chnk_def cnt_def left_def)
    ultimately show ?thesis
      using chnk ih left(2) \<open>n - cnt = n - length (unread c)\<close> by (simp add: cs queue_split del: take_append drop_append)
  qed
qed

lemma move_chunks_ok:
  assumes "marshal_ok from" "marshal_ok to" "n \<le> content_size from" "m_chunks to = [] \<or> fully_written (last (m_chunks to))"
  shows "\<exists>from' to'. move_chunks n from to = Some (from', to') \<and> marshal_ok from' \<and> marshal_ok to' \<and>
     contents from' = drop n (contents from) \<and> contents to' = contents to @ take n (contents from)"
  using fetch_loop_ok [of "m_chunks from" n] assms by (auto simp: move_chunks_def marshal_ok_def chunks_ok_append)

lemma read_from_marshal_ok:
  assumes "marshal_ok from" "marshal_ok to" "n \<le> content_size from" "n > 0"
  shows "\<exists>from' to'. read_from_marshal n from to = Some (from', to') \<and> marshal_ok from' \<and> marshal_ok to' \<and>
     contents from' = drop n (contents from) \<and> contents to' = contents to @ take n (contents from)"
proof (cases "m_chunks to = [] \<or> fully_written (last (m_chunks to))")
  case True
  with move_chunks_ok [OF assms(1-3)] assms(3) show ?thesis by (simp add: read_from_marshal_def)
next
  case False
  define room k where "room = ck_size (last (m_chunks to)) - length (ck_data (last (m_chunks to)))" and "k = min room n"
  have ok: "chunk_ok (last (m_chunks to))"
    using assms(2) False by (cases "m_chunks to" rule: rev_cases) (auto simp: marshal_ok_def chunks_ok_append)
  then have "room > 0" using False by (auto simp: room_def chunk_ok_def fully_written_def)
  have size: "length (contents from) = content_size from" using assms(1) by (simp add: marshal_ok_def)
  obtain from1 where f1: "Marshal_read k from = Some (take k (contents from), from1)" "marshal_ok from1"
      "contents from1 = drop k (contents from)" using Marshal_read_ok [OF assms(1)] by blast
  have buf: "take k (contents from) \<noteq> []" "length (take k (contents from)) = k"
    using \<open>room > 0\<close> assms(3,4) size by (auto simp: k_def)
  obtain to1 where t1: "Marshal_write (take k (contents from)) to = Some (k, to1)" "marshal_ok to1"
      "contents to1 = contents to @ take k (contents from)" using Marshal_write_ok [OF assms(2) buf(1)] buf(2) by auto
  have full: "fully_written (last (m_chunks to1))" if "k < n"
    using t1(1) False that ok buf(2)
    by (auto simp: Marshal_write_def chunk_write_def fully_written_def k_def room_def chunk_ok_def bind_eq_Some_conv Let_def)
  have "read_from_marshal n from to =
      (if k < n then move_chunks (n - k) from1 to1 else Some (from1, to1))"
    using False f1(1) t1(1) buf(2) assms(3) full
    by (auto simp: read_from_marshal_def k_def room_def Let_def)
  moreover have "n - k \<le> content_size from1" if "k < n"
    using f1(2,3) size assms(3) that by (simp add: marshal_ok_def)
  moreover have "k \<le> n" by (simp add: k_def)
  ultimately show ?thesis
    using move_chunks_ok [OF f1(2) t1(2), of "n - k"] full f1 t1 by (auto simp: take_add [symmetric] min_def)
qed

lemma read_from_fd_ok:
  assumes "marshal_ok m"
  shows "\<exists>n m'. read_from_fd grants fd m = Some (n, drop n fd, m') \<and> n \<le> length fd \<and> marshal_ok m' \<and>
     contents m' = contents m @ take n fd"
proof -
  obtain n fd' cs where r: "read_fd_loop grants fd (m_chunks m) = (n, fd', cs)" by (cases "read_fd_loop grants fd (m_chunks m)")
  from assms read_fd_loop_ok [OF _ r] have ok: "chunks_ok cs" "queue_of cs @ fd' = contents m @ fd"
      "length (queue_of cs) = length (contents m) + n" by (simp_all add: marshal_ok_def)
  define us where "us = drop (length (contents m)) (queue_of cs)"
  have "take (length (contents m)) (queue_of cs @ fd') = contents m" by (simp add: ok(2))
  then have "queue_of cs = contents m @ us"
    using ok(3) append_take_drop_id [of "length (contents m)" "queue_of cs"] by (simp add: us_def)
  with ok(2,3) have "fd = us @ fd'" "queue_of cs = contents m @ us" "n = length us" by simp_all
  then have "fd' = drop n fd" "queue_of cs = contents m @ take n fd" "n \<le> length fd" by simp_all
  with ok assms r show ?thesis by (auto simp: read_from_fd_def marshal_ok_def content_size_slow_queue)
qed

lemma write_to_fd_ok:
  assumes "marshal_ok m"
  shows "\<exists>out m'. write_to_fd grants m = Some (out, m') \<and> marshal_ok m' \<and> out @ contents m' = contents m"
proof -
  obtain out sz cs where w: "write_fd_loop grants (content_size m) (m_chunks m) = (out, sz, cs)"
    by (cases "write_fd_loop grants (content_size m) (m_chunks m)")
  with assms write_fd_loop_ok [OF _ _ w] show ?thesis by (auto simp: write_to_fd_def marshal_ok_def content_size_slow_queue)
qed

section \<open>The interface of a byte queue\<close>

text \<open>What the operators on messages rely on.\<close>

locale byte_queue =
  fixes ok :: "'m \<Rightarrow> bool" and bytes :: "'m \<Rightarrow> byte list"
    and wr :: "byte list \<Rightarrow> 'm \<Rightarrow> (nat \<times> 'm) option"
    and rd :: "nat \<Rightarrow> 'm \<Rightarrow> (byte list \<times> 'm) option"
    and pk :: "nat \<Rightarrow> 'm \<Rightarrow> byte list"
  assumes write_law: "ok m \<Longrightarrow> p \<noteq> [] \<Longrightarrow> \<exists>m'. wr p m = Some (length p, m') \<and> ok m' \<and> bytes m' = bytes m @ p"
    and read_law: "ok m \<Longrightarrow> \<exists>m'. rd n m = Some (take n (bytes m), m') \<and> ok m' \<and> bytes m' = drop n (bytes m)"
    and peek_law: "ok m \<Longrightarrow> pk n m = take n (bytes m)"
begin

lemma read_front:
  assumes "ok m" "bytes m = p @ rest"
  shows "\<exists>m'. rd (length p) m = Some (p, m') \<and> ok m' \<and> bytes m' = rest"
  using read_law [OF assms(1), of "length p"] assms(2) by simp

lemma write_then_read:
  assumes "ok m" "bytes m = []" "p \<noteq> []"
  shows "\<exists>m1 m2. wr p m = Some (length p, m1) \<and> rd (length p) m1 = Some (p, m2) \<and> bytes m2 = []"
  using write_law [OF assms(1,3)] read_front [of _ p "[]"] assms(2) by fastforce

end

interpretation mq: byte_queue marshal_ok contents Marshal_write Marshal_read Marshal_peek
  by unfold_locales (simp_all add: Marshal_write_ok Marshal_read_ok Marshal_peek_ok)

section \<open>Every reachable buffer is a queue\<close>

inductive marshal_reach :: "marshal \<Rightarrow> bool" where
  reach_new: "marshal_reach new_marshal"
| reach_write: "marshal_reach m \<Longrightarrow> p \<noteq> [] \<Longrightarrow> Marshal_write p m = Some (n, m') \<Longrightarrow> marshal_reach m'"
| reach_read: "marshal_reach m \<Longrightarrow> Marshal_read n m = Some (bs, m') \<Longrightarrow> marshal_reach m'"
| reach_from_fd: "marshal_reach m \<Longrightarrow> read_from_fd grants fd m = Some (n, fd', m') \<Longrightarrow> marshal_reach m'"
| reach_to_fd: "marshal_reach m \<Longrightarrow> write_to_fd grants m = Some (out, m') \<Longrightarrow> marshal_reach m'"
| reach_source: "marshal_reach m \<Longrightarrow> marshal_reach to \<Longrightarrow> 0 < n \<Longrightarrow> read_from_marshal n m to = Some (m', to') \<Longrightarrow> marshal_reach m'"
| reach_target: "marshal_reach m \<Longrightarrow> marshal_reach to \<Longrightarrow> 0 < n \<Longrightarrow> read_from_marshal n m to = Some (m', to') \<Longrightarrow> marshal_reach to'"

lemma read_from_marshal_size: "read_from_marshal n m to = Some r \<Longrightarrow> n \<le> content_size m"
  by (auto simp: read_from_marshal_def)

lemma marshal_reach_ok: "marshal_reach m \<Longrightarrow> marshal_ok m"
proof (induction rule: marshal_reach.induct)
  case reach_new
  show ?case by (simp add: marshal_ok_def new_marshal_def)
next
  case (reach_write m p n m')
  then show ?case using Marshal_write_ok [of m p] by auto
next
  case (reach_read m n bs m')
  then show ?case using Marshal_read_ok [of m n] by auto
next
  case (reach_from_fd m grants fd n fd' m')
  then show ?case using read_from_fd_ok [of m grants fd] by auto
next
  case (reach_to_fd m grants out m')
  then show ?case using write_to_fd_ok [of m grants] by auto
next
  case (reach_source m to n m' to')
  then show ?case using read_from_marshal_ok [of m to n] read_from_marshal_size by fastforce
next
  case (reach_target m to n m' to')
  then show ?case using read_from_marshal_ok [of m to n] read_from_marshal_size by fastforce
qed



end
