(* ===== verification/Codec.thy ===== *)
theory Codec
  imports MarshalBuffer
begin

text \<open>
  The wire format (\<^verbatim>\<open>rrr/base/basetypes.cpp\<close>, the operators of \<^verbatim>\<open>rrr/misc/marshal.hpp\<close>): fixed-width
  integers in little-endian order, \<^verbatim>\<open>SparseInt\<close>, strings, pairs, vectors. An operator is a function on the
  buffer of \<^verbatim>\<open>MarshalBuffer\<close>; \<open>None\<close> is a failed \<^verbatim>\<open>verify\<close>, an exception or a buffer overrun.

  The operators that read sparse integers use a local array that is not initialised:
  \<open>stack\<close> is what it holds. The marks \<^verbatim>\<open>found_dep\<close> and \<^verbatim>\<open>valid_id\<close> that writing sets on the buffer are not
  part of the format and are left out.
\<close>

section \<open>Bytes of machine words\<close>

definition byte_of :: "nat \<Rightarrow> 'a::len word \<Rightarrow> byte" where
  "byte_of i v = ucast (drop_bit (8 * i) v)"

definition le_bytes :: "nat \<Rightarrow> 'a::len word \<Rightarrow> byte list" where
  "le_bytes n v = map (\<lambda>i. byte_of i v) [0..<n]"

fun from_le :: "byte list \<Rightarrow> 'a::len word" where
  "from_le [] = 0"
| "from_le (b # bs) = ucast b OR push_bit 8 (from_le bs)"

section \<open>Sparse integers\<close>

definition buf_size :: "byte \<Rightarrow> nat" where
  "buf_size byte0 =
     (if byte0 AND 0x80 = 0 then 1
      else if byte0 AND 0xC0 = 0x80 then 2
      else if byte0 AND 0xE0 = 0xC0 then 3
      else if byte0 AND 0xF0 = 0xE0 then 4
      else if byte0 AND 0xF8 = 0xF0 then 5
      else if byte0 AND 0xFC = 0xF8 then 6
      else if byte0 AND 0xFE = 0xFC then 7
      else if byte0 AND 0xFF = 0xFE then 8
      else 9)"

definition val_size :: "int \<Rightarrow> nat" where
  "val_size v =
     (if -64 \<le> v \<and> v \<le> 63 then 1
      else if -8192 \<le> v \<and> v \<le> 8191 then 2
      else if -1048576 \<le> v \<and> v \<le> 1048575 then 3
      else if -134217728 \<le> v \<and> v \<le> 134217727 then 4
      else if -17179869184 \<le> v \<and> v \<le> 17179869183 then 5
      else if -2199023255552 \<le> v \<and> v \<le> 2199023255551 then 6
      else if -281474976710656 \<le> v \<and> v \<le> 281474976710655 then 7
      else if -36028797018963968 \<le> v \<and> v \<le> 36028797018963967 then 8
      else 9)"

text \<open>The size returned and the bytes stored, from \<^verbatim>\<open>buf[0]\<close> on.\<close>

definition dump_i32 :: "u32 \<Rightarrow> nat \<times> byte list" where
  "dump_i32 v =
     (let val = sint v; pv = (\<lambda>i. byte_of i v) in
      if -64 \<le> val \<and> val \<le> 63 then (1, [pv 0 AND 0x7F])
      else if -8192 \<le> val \<and> val \<le> 8191 then (2, [pv 1 AND 0x3F OR 0x80, pv 0])
      else if -1048576 \<le> val \<and> val \<le> 1048575 then (3, [pv 2 AND 0x1F OR 0xC0, pv 1, pv 0])
      else if -134217728 \<le> val \<and> val \<le> 134217727 then (4, [pv 3 AND 0x0F OR 0xE0, pv 2, pv 1, pv 0])
      else (5, [if val < 0 then 0xF7 else 0xF0, pv 3, pv 2, pv 1, pv 0]))"

definition dump_i64 :: "u64 \<Rightarrow> nat \<times> byte list" where
  "dump_i64 v =
     (let val = sint v; pv = (\<lambda>i. byte_of i v) in
      if -64 \<le> val \<and> val \<le> 63 then (1, [pv 0 AND 0x7F])
      else if -8192 \<le> val \<and> val \<le> 8191 then (2, [pv 1 AND 0x3F OR 0x80, pv 0])
      else if -1048576 \<le> val \<and> val \<le> 1048575 then (3, [pv 2 AND 0x1F OR 0xC0, pv 1, pv 0])
      else if -134217728 \<le> val \<and> val \<le> 134217727 then (4, [pv 3 AND 0x0F OR 0xE0, pv 2, pv 1, pv 0])
      else if -17179869184 \<le> val \<and> val \<le> 17179869183 then (5, [pv 4 AND 0x07 OR 0xF0, pv 3, pv 2, pv 1, pv 0])
      else if -2199023255552 \<le> val \<and> val \<le> 2199023255551 then (6, [pv 5 AND 0x03 OR 0xF8, pv 4, pv 3, pv 2, pv 1, pv 0])
      else if -281474976710656 \<le> val \<and> val \<le> 281474976710655
        then (7, [pv 6 AND 0x01 OR 0xFC, pv 5, pv 4, pv 3, pv 2, pv 1, pv 0])
      else if -36028797018963968 \<le> val \<and> val \<le> 36028797018963967
        then (8, [0xFE, pv 7, pv 6, pv 5, pv 4, pv 3, pv 2, pv 1, pv 0])
      else (9, [0xFF, pv 7, pv 6, pv 5, pv 4, pv 3, pv 2, pv 1, pv 0]))"

text \<open>
  The first branch of both loaders: the bytes in reverse, the length mark cut off the top one, and the
  sign extended up to \<open>len\<close> bytes.
\<close>

definition load_small :: "nat \<Rightarrow> nat \<Rightarrow> byte list \<Rightarrow> byte list" where
  "load_small len bsize buf =
     (let pv = rev (take bsize buf);
          top = pv ! (bsize - 1) AND drop_bit bsize 0xFF
      in if drop_bit (7 - bsize) top AND 1 = 1
         then pv[bsize - 1 := top OR push_bit (7 - bsize) 0xFF] @ replicate (len - bsize) 0xFF
         else pv[bsize - 1 := top] @ replicate (len - bsize) 0)"

definition load_i32 :: "byte list \<Rightarrow> u32" where
  "load_i32 buf =
     (let bsize = buf_size (buf ! 0)
      in if bsize < 5 then from_le (load_small 4 bsize buf) else from_le (map (\<lambda>i. buf ! (4 - i)) [0..<4]))"

definition load_i64 :: "byte list \<Rightarrow> u64" where
  "load_i64 buf =
     (let bsize = buf_size (buf ! 0)
      in if bsize < 8 then from_le (load_small 8 bsize buf) else from_le (map (\<lambda>i. buf ! (8 - i)) [0..<8]))"

section \<open>Operators\<close>

definition put_bytes :: "byte list \<Rightarrow> marshal \<Rightarrow> marshal option" where
  "put_bytes p m = do {(n, m') \<leftarrow> Marshal_write p m; vrfy (n = length p); Some m'}"

definition get_bytes :: "nat \<Rightarrow> marshal \<Rightarrow> (byte list \<times> marshal) option" where
  "get_bytes n m = do {(bs, m') \<leftarrow> Marshal_read n m; vrfy (length bs = n); Some (bs, m')}"

text \<open>\<^verbatim>\<open>i8\<close> to \<^verbatim>\<open>i64\<close>, \<^verbatim>\<open>uint8_t\<close> to \<^verbatim>\<open>uint64_t\<close>: \<open>n\<close> is the size in bytes.\<close>

definition put_int :: "nat \<Rightarrow> 'a::len word \<Rightarrow> marshal \<Rightarrow> marshal option" where
  "put_int n v = put_bytes (le_bytes n v)"

definition get_int :: "nat \<Rightarrow> marshal \<Rightarrow> ('a::len word \<times> marshal) option" where
  "get_int n m = do {(bs, m') \<leftarrow> get_bytes n m; Some (from_le bs, m')}"

definition put_v32 :: "u32 \<Rightarrow> marshal \<Rightarrow> marshal option" where
  "put_v32 v = put_bytes (let (bsize, buf) = dump_i32 v in take bsize buf)"

definition put_v64 :: "u64 \<Rightarrow> marshal \<Rightarrow> marshal option" where
  "put_v64 v = put_bytes (let (bsize, buf) = dump_i64 v in take bsize buf)"

definition peek_byte :: "marshal \<Rightarrow> byte option" where
  "peek_byte m = (case Marshal_peek 1 m of [b] \<Rightarrow> Some b | _ \<Rightarrow> None)"

text \<open>The array has 5 bytes here: a longer value overruns it.\<close>

definition get_v32 :: "byte list \<Rightarrow> marshal \<Rightarrow> (u32 \<times> marshal) option" where
  "get_v32 stack m =
     do {byte0 \<leftarrow> peek_byte m;
         let bsize = buf_size byte0;
         if bsize > 5 then None
         else do {(buf, m') \<leftarrow> get_bytes bsize m; Some (load_i32 (buf @ drop bsize stack), m')}}"

definition get_v64 :: "byte list \<Rightarrow> marshal \<Rightarrow> (u64 \<times> marshal) option" where
  "get_v64 stack m =
     do {byte0 \<leftarrow> peek_byte m;
         let bsize = buf_size byte0;
         (buf, m') \<leftarrow> get_bytes bsize m;
         Some (load_i64 (buf @ drop bsize stack), m')}"

definition put_string :: "byte list \<Rightarrow> marshal \<Rightarrow> marshal option" where
  "put_string s m =
     do {m1 \<leftarrow> put_v64 (word_of_nat (length s)) m; if s \<noteq> [] then put_bytes s m1 else Some m1}"

text \<open>\<^verbatim>\<open>resize\<close> and \<^verbatim>\<open>reserve\<close> throw on a negative length.\<close>

definition get_string :: "byte list \<Rightarrow> marshal \<Rightarrow> (byte list \<times> marshal) option" where
  "get_string stack m =
     do {(v_len, m1) \<leftarrow> get_v64 stack m;
         vrfy (sint v_len \<ge> 0);
         if sint v_len > 0 then get_bytes (nat (sint v_len)) m1 else Some ([], m1)}"

definition put_pair :: "('a \<Rightarrow> marshal \<Rightarrow> marshal option) \<Rightarrow> ('b \<Rightarrow> marshal \<Rightarrow> marshal option) \<Rightarrow> 'a \<times> 'b \<Rightarrow> marshal \<Rightarrow> marshal option" where
  "put_pair p1 p2 = (\<lambda>(a, b) m. do {m1 \<leftarrow> p1 a m; p2 b m1})"

definition get_pair :: "(marshal \<Rightarrow> ('a \<times> marshal) option) \<Rightarrow> (marshal \<Rightarrow> ('b \<times> marshal) option) \<Rightarrow> marshal \<Rightarrow> (('a \<times> 'b) \<times> marshal) option" where
  "get_pair g1 g2 m = do {(a, m1) \<leftarrow> g1 m; (b, m2) \<leftarrow> g2 m1; Some ((a, b), m2)}"

fun put_each :: "('a \<Rightarrow> marshal \<Rightarrow> marshal option) \<Rightarrow> 'a list \<Rightarrow> marshal \<Rightarrow> marshal option" where
  "put_each p [] m = Some m"
| "put_each p (x # xs) m = do {m1 \<leftarrow> p x m; put_each p xs m1}"

fun get_each :: "(marshal \<Rightarrow> ('a \<times> marshal) option) \<Rightarrow> nat \<Rightarrow> marshal \<Rightarrow> ('a list \<times> marshal) option" where
  "get_each g 0 m = Some ([], m)"
| "get_each g (Suc n) m = do {(x, m1) \<leftarrow> g m; (xs, m2) \<leftarrow> get_each g n m1; Some (x # xs, m2)}"

definition put_vector :: "('a \<Rightarrow> marshal \<Rightarrow> marshal option) \<Rightarrow> 'a list \<Rightarrow> marshal \<Rightarrow> marshal option" where
  "put_vector p xs m = do {m1 \<leftarrow> put_v64 (word_of_nat (length xs)) m; put_each p xs m1}"

definition get_vector :: "(marshal \<Rightarrow> ('a \<times> marshal) option) \<Rightarrow> byte list \<Rightarrow> marshal \<Rightarrow> ('a list \<times> marshal) option" where
  "get_vector g stack m =
     do {(v_len, m1) \<leftarrow> get_v64 stack m; vrfy (sint v_len \<ge> 0); get_each g (nat (sint v_len)) m1}"

section \<open>Bits of bytes\<close>

lemma bit_byte_of: "bit (byte_of i (v :: 'a::len word)) k \<longleftrightarrow> k < 8 \<and> bit v (8 * i + k)"
  by (auto simp: byte_of_def bit_simps)

lemma bit_from_le:
  assumes "8 * length bs \<le> LENGTH('a::len)"
  shows "bit (from_le bs :: 'a word) i \<longleftrightarrow> i div 8 < length bs \<and> bit (bs ! (i div 8)) (i mod 8)"
  using assms
proof (induction bs arbitrary: i)
  case (Cons b bs)
  have b: "bit (from_le (b # bs) :: 'a word) i \<longleftrightarrow>
     i < LENGTH('a) \<and> (bit b i \<or> 8 \<le> i \<and> bit (from_le bs :: 'a word) (i - 8))"
    by (simp add: bit_or_iff bit_push_bit_iff bit_unsigned_iff) (auto dest: bit_imp_le_length)
  show ?case
  proof (cases "i < 8")
    case True
    then show ?thesis using Cons.prems b by auto
  next
    case False
    then have "\<not> bit b i" using bit_imp_le_length [of b i] by auto
    moreover have "i div 8 = Suc ((i - 8) div 8)" "i mod 8 = (i - 8) mod 8" using False by (auto simp: le_div_geq le_mod_geq)
    moreover have "(i - 8) div 8 < length bs \<Longrightarrow> i < LENGTH('a)" using Cons.prems False by (simp add: div_less_iff_less_mult)
    ultimately show ?thesis using b Cons.IH [of "i - 8"] Cons.prems False by auto
  qed
qed simp

lemma from_le_le_bytes: 
  assumes "8 * n = LENGTH('a::len)" shows "from_le (le_bytes n (v :: 'a word)) = v"
proof (rule bit_word_eqI)
  fix i assume "i < LENGTH('a)"
  then have "i div 8 < n" using assms by (simp add: div_less_iff_less_mult mult.commute)
  then show "bit (from_le (le_bytes n v) :: 'a word) i \<longleftrightarrow> bit v i"
    using assms by (simp add: bit_from_le le_bytes_def bit_byte_of)
qed


lemma high_bits:
  fixes v :: "'a::len word"
  assumes "- (2 ^ k) \<le> sint v" "sint v < 2 ^ k" "k \<le> i" "i < LENGTH('a)"
  shows "bit v i \<longleftrightarrow> bit v k"
proof -
  have "signed_take_bit k (sint v) = sint v" using assms(1,2) by (simp add: signed_take_bit_int_eq_self)
  then have "bit (sint v) i \<longleftrightarrow> bit (sint v) k"
    using assms(3) bit_signed_take_bit_iff [of k "sint v" i] by (simp add: min_def)
  moreover have "bit (sint v) j \<longleftrightarrow> bit v j" if "j < LENGTH('a)" for j
    using that by (simp add: bit_sint_iff)
  ultimately show ?thesis using assms(3,4) by simp
qed

definition sparse :: "nat \<Rightarrow> 'a::len word \<Rightarrow> byte list" where
  "sparse n v = (byte_of (n - 1) v AND mask (8 - n) OR NOT (mask (9 - n))) # map (\<lambda>i. byte_of i v) (rev [0..<n - 1])"

lemma load_small_sparse:
  fixes v :: "'a::len word"
  assumes n: "1 \<le> n" "n \<le> 7" "n \<le> len" and len: "8 * len = LENGTH('a)"
    and range: "- (2 ^ (7 * n - 1)) \<le> sint v" "sint v < 2 ^ (7 * n - 1)"
  shows "from_le (load_small len n (sparse n v @ junk)) = v"
proof -
  define top where "top = byte_of (n - 1) v AND mask (8 - n)"
  define low where "low = map (\<lambda>i. byte_of i v) [0..<n - 1]"
  define neg where "neg \<longleftrightarrow> bit v (7 * n - 1)"
  define top' where "top' = (if neg then top OR push_bit (7 - n) 0xFF else top)"
  have ff: "(0xFF :: byte) = mask 8" by (simp add: mask_eq_exp_minus_1)
  have cut: "drop_bit n (0xFF :: byte) = mask (8 - n)" using n unfolding ff
    by (intro bit_word_eqI) (auto simp: bit_drop_bit_eq bit_mask_iff)
  have pv: "rev (take n (sparse n v @ junk)) = low @ [top OR NOT (mask (9 - n))]"
    using n by (cases n) (simp_all add: sparse_def top_def low_def rev_map)
  have topm: "(top OR NOT (mask (9 - n))) AND mask (8 - n) = top"
    by (rule bit_word_eqI) (auto simp: top_def bit_simps)
  have len_low: "length low = n - 1" by (simp add: low_def)
  have "bit top (7 - n) \<longleftrightarrow> neg"
    using n by (simp add: top_def bit_simps bit_byte_of neg_def) (auto simp: algebra_simps)
  then have sign: "drop_bit (7 - n) top AND 1 = 1 \<longleftrightarrow> neg"
    by (simp add: and_one_eq bit_iff_odd_drop_bit odd_iff_mod_2_eq_one)
  have load: "load_small len n (sparse n v @ junk) = low @ [top'] @ replicate (len - n) (if neg then 0xFF else 0)"
  proof -
    have "(low @ [top OR NOT (mask (9 - n))]) ! (n - 1) = top OR NOT (mask (9 - n))"
      "(low @ [top OR NOT (mask (9 - n))])[n - 1 := x] = low @ [x]" for x
      unfolding len_low [symmetric] by simp_all
    with sign show ?thesis unfolding load_small_def Let_def pv cut topm by (simp add: topm top'_def)
  qed
  show ?thesis
  proof (rule bit_word_eqI)
    fix i assume i: "i < LENGTH('a)"
    define j k where "j = i div 8" and "k = i mod 8"
    have ijk: "i = 8 * j + k" "k < 8" "j < len" using i len by (auto simp: j_def k_def div_less_iff_less_mult)
    have "bit (from_le (load_small len n (sparse n v @ junk)) :: 'a word) i \<longleftrightarrow> bit ((low @ [top'] @ replicate (len - n) (if neg then 0xFF else 0)) ! j) k"
      unfolding load using n len ijk by (subst bit_from_le) (auto simp: len_low j_def k_def)
    also have "\<dots> \<longleftrightarrow> bit v i"
    proof -
      have ext: "bit v i \<longleftrightarrow> neg" if "7 * n - 1 \<le> i" using high_bits [OF range that i] by (simp add: neg_def)
      consider "j < n - 1" | "j = n - 1" | "j \<ge> n" by linarith
      then show ?thesis
      proof cases
        case 1
        then show ?thesis using ijk by (simp add: nth_append len_low) (simp add: low_def bit_byte_of)
      next
        case 2
        have i: "i = 8 * n - 8 + k" using 2 ijk(1) n(1) by (simp add: algebra_simps)
        have "bit top k \<longleftrightarrow> k < 8 - n \<and> bit v i" using 2 ijk by (auto simp: top_def bit_simps bit_byte_of)
        moreover have "bit v i \<longleftrightarrow> neg" if "7 - n \<le> k"
          using ext i that n by simp
        moreover have "bit (push_bit (7 - n) (0xFF :: byte)) k \<longleftrightarrow> 7 - n \<le> k"
          unfolding ff using ijk(2) by (auto simp: bit_simps)
        ultimately have "bit top' k \<longleftrightarrow> bit v i" by (auto simp: top'_def bit_or_iff)
        with 2 show ?thesis by (simp add: nth_append len_low)
      next
        case 3
        then have "(low @ [top'] @ replicate (len - n) (if neg then 0xFF else 0)) ! j = (if neg then 0xFF else 0)"
          using n ijk(3) by (auto simp: nth_append len_low)
        moreover have "bit v i \<longleftrightarrow> neg" using ext 3 ijk(1) n by simp
        ultimately show ?thesis unfolding ff using ijk(2) by (simp add: bit_mask_iff)
      qed
    qed
    finally show "bit (from_le (load_small len n (sparse n v @ junk)) :: 'a word) i \<longleftrightarrow> bit v i" .
  qed
qed


lemma byte_negatives:
  "(- 256 :: byte) = 0" "(- 128 :: byte) = 128" "(- 64 :: byte) = 192" "(- 32 :: byte) = 224" "(- 16 :: byte) = 240"
  "(- 8 :: byte) = 248" "(- 4 :: byte) = 252"
  by simp_all

lemma sparse_eqs:
  "sparse 1 v = [byte_of 0 v AND 0x7F]"
  "sparse 2 v = [byte_of 1 v AND 0x3F OR 0x80, byte_of 0 v]"
  "sparse 3 v = [byte_of 2 v AND 0x1F OR 0xC0, byte_of 1 v, byte_of 0 v]"
  "sparse 4 v = [byte_of 3 v AND 0x0F OR 0xE0, byte_of 2 v, byte_of 1 v, byte_of 0 v]"
  "sparse 5 v = [byte_of 4 v AND 0x07 OR 0xF0, byte_of 3 v, byte_of 2 v, byte_of 1 v, byte_of 0 v]"
  "sparse 6 v = [byte_of 5 v AND 0x03 OR 0xF8, byte_of 4 v, byte_of 3 v, byte_of 2 v, byte_of 1 v, byte_of 0 v]"
  "sparse 7 v = [byte_of 6 v AND 0x01 OR 0xFC, byte_of 5 v, byte_of 4 v, byte_of 3 v, byte_of 2 v, byte_of 1 v, byte_of 0 v]"
  by (simp_all add: sparse_def mask_eq_exp_minus_1 upt_rec not_eq_complement byte_negatives eval_nat_numeral)

lemma buf_size_marks:
  "buf_size (b AND 0x7F) = 1" "buf_size (b AND 0x3F OR 0x80) = 2" "buf_size (b AND 0x1F OR 0xC0) = 3"
  "buf_size (b AND 0x0F OR 0xE0) = 4" "buf_size (b AND 0x07 OR 0xF0) = 5" "buf_size (b AND 0x03 OR 0xF8) = 6"
  "buf_size (b AND 0x01 OR 0xFC) = 7" "buf_size 0xFE = 8" "buf_size 0xFF = 9" "buf_size 0xF7 = 5" "buf_size 0xF0 = 5"
  by (simp_all add: buf_size_def bit.conj_disj_distrib2 and.assoc)

lemma dump_i64_small:
  assumes "val_size (sint v) = n" "n \<le> 7"
  shows "dump_i64 v = (n, sparse n v) \<and> 1 \<le> n \<and> - (2 ^ (7 * n - 1)) \<le> sint v \<and> sint v < 2 ^ (7 * n - 1)"
  using assms by (auto simp: val_size_def dump_i64_def Let_def sparse_eqs sparse_eqs(1) [unfolded One_nat_def] split: if_splits)

lemma buf_size_sparse: "1 \<le> n \<Longrightarrow> n \<le> 7 \<Longrightarrow> buf_size (sparse n v ! 0) = n"
proof -
  assume "1 \<le> n" "n \<le> 7"
  then consider "n = 1" | "n = 2" | "n = 3" | "n = 4" | "n = 5" | "n = 6" | "n = 7" by linarith
  then show ?thesis by cases (simp_all add: sparse_eqs buf_size_marks del: One_nat_def)
qed


section \<open>What is on the wire\<close>

definition wire_v64 :: "u64 \<Rightarrow> byte list" where
  "wire_v64 v = (let (bsize, buf) = dump_i64 v in take bsize buf)"

definition wire_v32 :: "u32 \<Rightarrow> byte list" where
  "wire_v32 v = (let (bsize, buf) = dump_i32 v in take bsize buf)"

text \<open>A value of eight bytes is sent without its lowest byte.\<close>

definition low_byte_replaced :: "byte \<Rightarrow> u64 \<Rightarrow> u64" where
  "low_byte_replaced b v = from_le (b # map (\<lambda>i. byte_of i v) [1..<8])"

lemma upt_eqs: "[0..<8] = [0, 1, 2, 3, 4, 5, 6, 7]" "[1..<8] = [1, 2, 3, 4, 5, 6, 7]" "[0..<4] = [0, 1, 2, 3]"
  by (simp_all add: upt_rec)

lemma low_byte_replaced_same: "low_byte_replaced b v = v \<longleftrightarrow> b = byte_of 0 v"
proof
  assume eq: "low_byte_replaced b v = v"
  show "b = byte_of 0 v"
  proof (rule bit_word_eqI)
    fix i assume "i < LENGTH(8)"
    then have "bit (low_byte_replaced b v) i \<longleftrightarrow> bit b i"
      unfolding low_byte_replaced_def by (subst bit_from_le) auto
    with eq \<open>i < LENGTH(8)\<close> show "bit b i \<longleftrightarrow> bit (byte_of 0 v) i" by (simp add: bit_byte_of)
  qed
next
  assume "b = byte_of 0 v"
  moreover note upt_eqs
  ultimately show "low_byte_replaced b v = v"
    using from_le_le_bytes [of 8 v] by (simp add: low_byte_replaced_def le_bytes_def)
qed

lemma wire_v64_head: "buf_size (wire_v64 v ! 0) = length (wire_v64 v)" "wire_v64 v \<noteq> []" "length (wire_v64 v) = val_size (sint v)"
proof -
  have "buf_size (wire_v64 v ! 0) = length (wire_v64 v) \<and> wire_v64 v \<noteq> [] \<and> length (wire_v64 v) = val_size (sint v)"
    by (simp add: wire_v64_def dump_i64_def val_size_def Let_def buf_size_marks [unfolded One_nat_def])
  then show "buf_size (wire_v64 v ! 0) = length (wire_v64 v)" "wire_v64 v \<noteq> []" "length (wire_v64 v) = val_size (sint v)"
    by simp_all
qed

lemma load_wire_v64:
  assumes "length stack = 9"
  shows "load_i64 (wire_v64 v @ drop (length (wire_v64 v)) stack) = (if val_size (sint v) = 8 then low_byte_replaced (stack ! 8) v else v)"
proof (cases "val_size (sint v) \<le> 7")
  case True
  define n where "n = val_size (sint v)"
  note d = dump_i64_small [OF n_def [symmetric] True [folded n_def]]
  have "length (sparse n v) = n" using d by (simp add: sparse_def)
  with d have w: "wire_v64 v = sparse n v" by (simp add: wire_v64_def)
  have "buf_size ((sparse n v @ drop (length (sparse n v)) stack) ! 0) = n"
    using buf_size_sparse [of n v] d True by (simp add: n_def nth_append sparse_def)
  with load_small_sparse [of n 8 v "drop (length (sparse n v)) stack"] d True show ?thesis
    unfolding w by (simp add: load_i64_def n_def)
next
  case False
  moreover have "val_size (sint v) \<le> 9" by (simp add: val_size_def)
  ultimately have "val_size (sint v) = 8 \<or> val_size (sint v) = 9" by linarith
  then show ?thesis
  proof
    assume 8: "val_size (sint v) = 8"
    then have w: "wire_v64 v = 0xFE # map (\<lambda>i. byte_of i v) [7, 6, 5, 4, 3, 2, 1]"
      by (auto simp: wire_v64_def val_size_def dump_i64_def Let_def split: if_splits)
    have d: "drop 8 stack = [stack ! 8]" using assms by (simp add: list_eq_iff_nth_eq)
    have "wire_v64 v @ drop (length (wire_v64 v)) stack = 0xFE # map (\<lambda>i. byte_of i v) [7, 6, 5, 4, 3, 2, 1] @ [stack ! 8]"
      using d wire_v64_head(3) [of v] 8 by (simp add: w [symmetric]) (simp add: w)
    with 8 show ?thesis
      by (simp add: load_i64_def low_byte_replaced_def buf_size_marks upt_eqs upt_eqs [unfolded One_nat_def])
  next
    assume 9: "val_size (sint v) = 9"
    then have "dump_i64 v = (9, 0xFF # map (\<lambda>i. byte_of i v) [7, 6, 5, 4, 3, 2, 1, 0])"
      by (auto simp: val_size_def dump_i64_def Let_def split: if_splits)
    with 9 assms from_le_le_bytes [of 8 v] show ?thesis
      by (simp add: wire_v64_def load_i64_def buf_size_marks le_bytes_def upt_eqs)
  qed
qed


section \<open>Codecs\<close>

text \<open>
  A pair of operators and the bytes they agree on: what is written is appended to the buffer, and
  reading it from the front of a buffer gives the value back and removes it.
\<close>

locale codec =
  fixes put :: "'a \<Rightarrow> marshal \<Rightarrow> marshal option" and get :: "marshal \<Rightarrow> ('a \<times> marshal) option"
    and enc :: "'a \<Rightarrow> byte list" and valid :: "'a \<Rightarrow> bool"
  assumes put_law: "marshal_ok m \<Longrightarrow> valid x \<Longrightarrow> \<exists>m'. put x m = Some m' \<and> marshal_ok m' \<and> contents m' = contents m @ enc x"
    and get_law: "marshal_ok m \<Longrightarrow> valid x \<Longrightarrow> contents m = enc x @ rest \<Longrightarrow>
      \<exists>m'. get m = Some (x, m') \<and> marshal_ok m' \<and> contents m' = rest"
begin

lemma put_get:
  assumes "marshal_ok m" "contents m = []" "valid x"
  shows "\<exists>m1 m2. put x m = Some m1 \<and> get m1 = Some (x, m2) \<and> contents m2 = []"
  using put_law [OF assms(1,3)] get_law [of _ x "[]"] assms(2,3) by fastforce

lemma put_each_law:
  "marshal_ok m \<Longrightarrow> list_all valid xs \<Longrightarrow>
     \<exists>m'. put_each put xs m = Some m' \<and> marshal_ok m' \<and> contents m' = contents m @ concat (map enc xs)"
proof (induction xs arbitrary: m)
  case (Cons x xs)
  then obtain m1 where m1: "put x m = Some m1" "marshal_ok m1" "contents m1 = contents m @ enc x"
    using put_law [of m x] by auto
  with Cons show ?case by fastforce
qed simp

lemma get_each_law:
  "marshal_ok m \<Longrightarrow> list_all valid xs \<Longrightarrow> contents m = concat (map enc xs) @ rest \<Longrightarrow>
     \<exists>m'. get_each get (length xs) m = Some (xs, m') \<and> marshal_ok m' \<and> contents m' = rest"
proof (induction xs arbitrary: m)
  case (Cons x xs)
  then obtain m1 where m1: "get m = Some (x, m1)" "marshal_ok m1" "contents m1 = concat (map enc xs) @ rest"
    using get_law [of m x "concat (map enc xs) @ rest"] by auto
  with Cons.IH [OF m1(2) _ m1(3)] Cons.prems(2) show ?case by auto
qed simp

end

lemma put_bytes_ok:
  "marshal_ok m \<Longrightarrow> p \<noteq> [] \<Longrightarrow> \<exists>m'. put_bytes p m = Some m' \<and> marshal_ok m' \<and> contents m' = contents m @ p"
  using mq.write_law [of m p] by (auto simp: put_bytes_def)

lemma get_bytes_ok:
  "marshal_ok m \<Longrightarrow> contents m = p @ rest \<Longrightarrow> \<exists>m'. get_bytes (length p) m = Some (p, m') \<and> marshal_ok m' \<and> contents m' = rest"
  using mq.read_front [of m p rest] by (auto simp: get_bytes_def)

lemma peek_byte_ok: "marshal_ok m \<Longrightarrow> contents m = p @ rest \<Longrightarrow> p \<noteq> [] \<Longrightarrow> peek_byte m = Some (p ! 0)"
  using mq.peek_law [of m 1] by (cases p) (auto simp: peek_byte_def)

lemma codec_int:
  assumes "8 * n = LENGTH('a::len)"
  shows "codec (put_int n :: 'a word \<Rightarrow> _) (get_int n) (le_bytes n) (\<lambda>_. True)"
proof
  have "n > 0" using assms by (cases n) auto
  fix m and x :: "'a word"
  show "\<exists>m'. put_int n x m = Some m' \<and> marshal_ok m' \<and> contents m' = contents m @ le_bytes n x" if "marshal_ok m"
    using put_bytes_ok [OF that, of "le_bytes n x"] \<open>n > 0\<close> by (simp add: put_int_def le_bytes_def)
  show "\<exists>m'. get_int n m = Some (x, m') \<and> marshal_ok m' \<and> contents m' = rest" if "marshal_ok m" "contents m = le_bytes n x @ rest" for rest
    using get_bytes_ok [OF that] from_le_le_bytes [OF assms, of x] by (auto simp: get_int_def le_bytes_def)
qed

interpretation i8: codec "put_int 1 :: 8 word \<Rightarrow> _" "get_int 1" "le_bytes 1" "\<lambda>_. True" by (rule codec_int) simp
interpretation i32: codec "put_int 4 :: u32 \<Rightarrow> _" "get_int 4" "le_bytes 4" "\<lambda>_. True" by (rule codec_int) simp
interpretation i64: codec "put_int 8 :: u64 \<Rightarrow> _" "get_int 8" "le_bytes 8" "\<lambda>_. True" by (rule codec_int) simp

lemma put_v64_ok: "marshal_ok m \<Longrightarrow> \<exists>m'. put_v64 v m = Some m' \<and> marshal_ok m' \<and> contents m' = contents m @ wire_v64 v"
  using put_bytes_ok [of m "wire_v64 v"] wire_v64_head(2) [of v] by (simp add: put_v64_def wire_v64_def)

lemma get_v64_ok:
  assumes "marshal_ok m" "contents m = wire_v64 v @ rest" "length stack = 9"
  shows "\<exists>m'. get_v64 stack m = Some (if val_size (sint v) = 8 then low_byte_replaced (stack ! 8) v else v, m') \<and>
     marshal_ok m' \<and> contents m' = rest"
proof -
  obtain m' where "get_bytes (length (wire_v64 v)) m = Some (wire_v64 v, m')" "marshal_ok m'" "contents m' = rest"
    using get_bytes_ok [OF assms(1,2)] by blast
  moreover have "peek_byte m = Some (wire_v64 v ! 0)" by (rule peek_byte_ok [OF assms(1,2) wire_v64_head(2)])
  ultimately show ?thesis
    unfolding load_wire_v64 [OF assms(3), symmetric] by (simp add: get_v64_def wire_v64_head(1))
qed

lemma codec_v64: "length stack = 9 \<Longrightarrow> codec put_v64 (get_v64 stack) wire_v64 (\<lambda>v. val_size (sint v) \<noteq> 8)"
  by unfold_locales (use put_v64_ok get_v64_ok in \<open>fastforce+\<close>)

lemma dump_i32_small:
  assumes "val_size (sint v) = n" "n \<le> 4"
  shows "dump_i32 v = (n, sparse n v) \<and> 1 \<le> n \<and> - (2 ^ (7 * n - 1)) \<le> sint v \<and> sint v < 2 ^ (7 * n - 1)"
  using assms by (auto simp: val_size_def dump_i32_def Let_def sparse_eqs sparse_eqs(1) [unfolded One_nat_def] split: if_splits)

lemma val_size_i32: "val_size (sint (v :: u32)) \<le> 5"
proof -
  have "- (2 ^ 31) \<le> sint v" "sint v < 2 ^ 31" using sint_greater_eq [of v] sint_less [of v] by simp_all
  then show ?thesis by (simp add: val_size_def)
qed

lemma wire_v32_head: "buf_size (wire_v32 v ! 0) = length (wire_v32 v)" "wire_v32 v \<noteq> []" "length (wire_v32 v) \<le> 5"
proof -
  have "buf_size (wire_v32 v ! 0) = length (wire_v32 v) \<and> wire_v32 v \<noteq> [] \<and> length (wire_v32 v) \<le> 5"
    by (simp add: wire_v32_def dump_i32_def Let_def buf_size_marks [unfolded One_nat_def])
  then show "buf_size (wire_v32 v ! 0) = length (wire_v32 v)" "wire_v32 v \<noteq> []" "length (wire_v32 v) \<le> 5"
    by simp_all
qed

lemma load_wire_v32: "load_i32 (wire_v32 v @ rest) = v"
proof (cases "val_size (sint v) \<le> 4")
  case True
  define n where "n = val_size (sint v)"
  note d = dump_i32_small [OF n_def [symmetric] True [folded n_def]]
  have "length (sparse n v) = n" using d by (simp add: sparse_def)
  with d have w: "wire_v32 v = sparse n v" by (simp add: wire_v32_def)
  have "buf_size ((sparse n v @ rest) ! 0) = n"
    using buf_size_sparse [of n v] d True by (simp add: n_def nth_append sparse_def)
  with load_small_sparse [of n 4 v rest] d True show ?thesis unfolding w by (simp add: load_i32_def n_def)
next
  case False
  then have "wire_v32 v = (if sint v < 0 then 0xF7 else 0xF0) # map (\<lambda>i. byte_of i v) [3, 2, 1, 0]"
    by (auto simp: wire_v32_def val_size_def dump_i32_def Let_def split: if_splits)
  with from_le_le_bytes [of 4 v] show ?thesis by (simp add: load_i32_def buf_size_marks le_bytes_def upt_eqs)
qed

lemma codec_v32: "codec put_v32 (get_v32 stack) wire_v32 (\<lambda>_. True)"
proof
  fix m v
  assume ok: "marshal_ok m"
  show "\<exists>m'. put_v32 v m = Some m' \<and> marshal_ok m' \<and> contents m' = contents m @ wire_v32 v"
    using put_bytes_ok [OF ok wire_v32_head(2)] by (simp add: put_v32_def wire_v32_def)
  fix rest
  assume c: "contents m = wire_v32 v @ rest"
  obtain m' where "get_bytes (length (wire_v32 v)) m = Some (wire_v32 v, m')" "marshal_ok m'" "contents m' = rest"
    using get_bytes_ok [OF ok c] by blast
  moreover have "peek_byte m = Some (wire_v32 v ! 0)" by (rule peek_byte_ok [OF ok c wire_v32_head(2)])
  ultimately show "\<exists>m'. get_v32 stack m = Some (v, m') \<and> marshal_ok m' \<and> contents m' = rest"
    using wire_v32_head(3) [of v] by (simp add: get_v32_def wire_v32_head(1) load_wire_v32)
qed

lemma codec_pair:
  assumes "codec p1 g1 e1 v1" "codec p2 g2 e2 v2"
  shows "codec (put_pair p1 p2) (get_pair g1 g2) (\<lambda>(a, b). e1 a @ e2 b) (\<lambda>(a, b). v1 a \<and> v2 b)"
proof (unfold_locales; clarify)
  fix m a b
  assume ok: "marshal_ok m" and v: "v1 a" "v2 b"
  obtain m1 where m1: "p1 a m = Some m1" "marshal_ok m1" "contents m1 = contents m @ e1 a"
    using codec.put_law [OF assms(1) ok v(1)] by blast
  then show "\<exists>m'. put_pair p1 p2 (a, b) m = Some m' \<and> marshal_ok m' \<and> contents m' = contents m @ e1 a @ e2 b"
    using codec.put_law [OF assms(2) m1(2) v(2)] by (auto simp: put_pair_def)
  fix rest
  assume c: "contents m = (e1 a @ e2 b) @ rest"
  then obtain m1 where m1: "g1 m = Some (a, m1)" "marshal_ok m1" "contents m1 = e2 b @ rest"
    using codec.get_law [OF assms(1) ok v(1), of "e2 b @ rest"] by auto
  then show "\<exists>m'. get_pair g1 g2 m = Some ((a, b), m') \<and> marshal_ok m' \<and> contents m' = rest"
    using codec.get_law [OF assms(2) m1(2) v(2) m1(3)] by (auto simp: get_pair_def)
qed

text \<open>A codec seen through a bijection.\<close>

lemma codec_map:
  assumes "codec p g e v" "\<And>x. v' x \<Longrightarrow> v (f x) \<and> h (f x) = x"
  shows "codec (\<lambda>x. p (f x)) (\<lambda>m. map_option (\<lambda>(y, m'). (h y, m')) (g m)) (\<lambda>x. e (f x)) v'"
proof
  fix m x
  assume ok: "marshal_ok m" and x: "v' x"
  show "\<exists>m'. p (f x) m = Some m' \<and> marshal_ok m' \<and> contents m' = contents m @ e (f x)"
    using codec.put_law [OF assms(1) ok] assms(2) [OF x] by blast
  show "\<exists>m'. map_option (\<lambda>(y, m'). (h y, m')) (g m) = Some (x, m') \<and> marshal_ok m' \<and> contents m' = rest"
    if "contents m = e (f x) @ rest" for rest
    using codec.get_law [OF assms(1) ok _ that] assms(2) [OF x] by auto
qed

lemma length_on_wire:
  assumes "n < 2 ^ 48"
  shows "sint (word_of_nat n :: u64) = int n" "val_size (sint (word_of_nat n :: u64)) \<noteq> 8"
proof -
  have "signed_take_bit 63 (int n) = int n" using assms by (intro signed_take_bit_int_eq_self) simp_all
  then show s: "sint (word_of_nat n :: u64) = int n" by (simp add: signed_of_nat)
  have "int n \<le> 281474976710655" using assms by simp
  then show "val_size (sint (word_of_nat n :: u64)) \<noteq> 8" unfolding s val_size_def by (simp split: if_split)
qed

lemma codec_vector:
  assumes c: "codec p g e v" and stack: "length stack = 9"
  shows "codec (put_vector p) (get_vector g stack) (\<lambda>xs. wire_v64 (word_of_nat (length xs)) @ concat (map e xs))
     (\<lambda>xs. length xs < 2 ^ 31 \<and> list_all v xs)"
proof
  fix m xs
  assume ok: "marshal_ok m" and v: "length xs < 2 ^ 31 \<and> list_all v xs"
  let ?n = "word_of_nat (length xs) :: u64"
  have "length xs < 2 ^ 48" using v by simp
  note len = length_on_wire [OF this]
  obtain m1 where "put_v64 ?n m = Some m1" "marshal_ok m1" "contents m1 = contents m @ wire_v64 ?n"
    using put_v64_ok [OF ok] by blast
  with codec.put_each_law [OF c, of m1 xs] v
  show "\<exists>m'. put_vector p xs m = Some m' \<and> marshal_ok m' \<and> contents m' = contents m @ wire_v64 ?n @ concat (map e xs)"
    by (auto simp: put_vector_def)
  fix rest
  assume "contents m = (wire_v64 ?n @ concat (map e xs)) @ rest"
  then obtain m1 where m1: "get_v64 stack m = Some (?n, m1)" "marshal_ok m1" "contents m1 = concat (map e xs) @ rest"
    using get_v64_ok [OF ok _ stack, of ?n "concat (map e xs) @ rest"] len(2) by auto
  with codec.get_each_law [OF c m1(2) _ m1(3)] v
  show "\<exists>m'. get_vector g stack m = Some (xs, m') \<and> marshal_ok m' \<and> contents m' = rest"
    by (simp add: get_vector_def len(1))
qed

lemma codec_string:
  assumes stack: "length stack = 9"
  shows "codec put_string (get_string stack) (\<lambda>s. wire_v64 (word_of_nat (length s)) @ s) (\<lambda>s. length s < 2 ^ 48)"
proof
  fix m and s :: "byte list"
  assume ok: "marshal_ok m" and v: "length s < 2 ^ 48"
  let ?n = "word_of_nat (length s) :: u64"
  note len = length_on_wire [OF v]
  obtain m1 where "put_v64 ?n m = Some m1" "marshal_ok m1" "contents m1 = contents m @ wire_v64 ?n"
    using put_v64_ok [OF ok] by blast
  with put_bytes_ok [of m1 s]
  show "\<exists>m'. put_string s m = Some m' \<and> marshal_ok m' \<and> contents m' = contents m @ wire_v64 ?n @ s"
    by (auto simp: put_string_def)
  fix rest
  assume "contents m = (wire_v64 ?n @ s) @ rest"
  then obtain m1 where m1: "get_v64 stack m = Some (?n, m1)" "marshal_ok m1" "contents m1 = s @ rest"
    using get_v64_ok [OF ok _ stack, of ?n "s @ rest"] len(2) by auto
  with get_bytes_ok [OF m1(2,3)]
  show "\<exists>m'. get_string stack m = Some (s, m') \<and> marshal_ok m' \<and> contents m' = rest"
    by (auto simp: get_string_def len(1))
qed

section \<open>Sparse integers on the wire\<close>

text \<open>
  C25. Sparse integers on the wire. Written to an empty buffer and read back, a \<^verbatim>\<open>v32\<close> always
  survives. A \<^verbatim>\<open>v64\<close> takes \<^verbatim>\<open>val_size\<close> bytes and leaves none behind, and it survives exactly when it does not take
  eight bytes: the writer then drops the lowest byte, and the reader uses whatever its local
  array holds in its place.
\<close>

theorem sparse_wire_exact:
  assumes "marshal_reach m" "contents m = []" "length stack = 9"
  shows "(\<exists>m1 m2. put_v32 u m = Some m1 \<and> get_v32 stack m1 = Some (u, m2) \<and> contents m2 = []) \<and>
    (\<exists>m1 m2 w. put_v64 v m = Some m1 \<and> length (contents m1) = val_size (sint v) \<and>
       get_v64 stack m1 = Some (w, m2) \<and> contents m2 = [] \<and>
       (w = v \<longleftrightarrow> val_size (sint v) \<noteq> 8 \<or> stack ! 8 = byte_of 0 v))"
proof -
  have ok: "marshal_ok m" using assms(1) by (rule marshal_reach_ok)
  obtain m1 where m1: "put_v64 v m = Some m1" "marshal_ok m1" "contents m1 = wire_v64 v"
    using put_v64_ok [OF ok, of v] assms(2) by auto
  obtain m2 where "get_v64 stack m1 = Some (if val_size (sint v) = 8 then low_byte_replaced (stack ! 8) v else v, m2)" "contents m2 = []"
    using get_v64_ok [OF m1(2) _ assms(3), of v "[]"] m1(3) by auto
  with m1 have "\<exists>m1 m2 w. put_v64 v m = Some m1 \<and> length (contents m1) = val_size (sint v) \<and>
       get_v64 stack m1 = Some (w, m2) \<and> contents m2 = [] \<and>
       (w = v \<longleftrightarrow> val_size (sint v) \<noteq> 8 \<or> stack ! 8 = byte_of 0 v)"
    using wire_v64_head(3) [of v] by (auto simp: low_byte_replaced_same)
  with codec.put_get [OF codec_v32 ok assms(2), of u stack] show ?thesis by simp
qed

theorem sparse_wire_exact_witness:
  "\<exists>m1 m2 w. put_v64 0x1000000000001 new_marshal = Some m1 \<and> get_v64 (replicate 9 0) m1 = Some (w, m2) \<and> w \<noteq> 0x1000000000001"
proof -
  have "contents new_marshal = []" "length (replicate 9 (0 :: byte)) = 9" by (simp_all add: new_marshal_def)
  moreover have "val_size (sint (0x1000000000001 :: u64)) = 8" "byte_of 0 (0x1000000000001 :: u64) = 1"
    by (simp_all add: val_size_def byte_of_def)
  ultimately show ?thesis
    using sparse_wire_exact [OF reach_new, of "replicate 9 0" 0 "0x1000000000001"] by auto
qed

text \<open>A sparse integer of more than five bytes overruns the array of the \<^verbatim>\<open>v32\<close> reader.\<close>

lemma v32_overrun:
  assumes "marshal_ok m" "contents m = wire_v64 v @ rest" "val_size (sint v) > 5"
  shows "get_v32 stack m = None"
proof -
  have "peek_byte m = Some (wire_v64 v ! 0)" by (rule peek_byte_ok [OF assms(1,2) wire_v64_head(2)])
  with assms(3) wire_v64_head [of v] show ?thesis by (simp add: get_v32_def)
qed

end
