(* ===== verification/Messages.thy ===== *)
theory Messages
  imports Codec View
begin

text \<open>
  The messages of the replication layer on the wire (\<^verbatim>\<open>procedure.h\<close>, \<^verbatim>\<open>procedure.cc\<close>,
  \<^verbatim>\<open>command_marshaler.cc\<close>, \<^verbatim>\<open>marshal-value.cc\<close>): views, batches of keys and command identifiers, key
  lists, the pieces of a transaction with their inputs, and the deputy that tags a command with its
  kind. Doubles are their 64 bits.
\<close>

section \<open>Signed integers and counted lists\<close>

definition put_i32 :: "int \<Rightarrow> marshal \<Rightarrow> marshal option" where
  "put_i32 x = put_int 4 (word_of_int x :: u32)"

definition get_i32_wire :: "marshal \<Rightarrow> (int \<times> marshal) option" where
  "get_i32_wire m = do {(w, m') \<leftarrow> get_int 4 m; Some (sint (w :: u32), m')}"

text \<open>A 32-bit count and the entries. A negative count is no entry; \<^verbatim>\<open>resize\<close> and \<^verbatim>\<open>reserve\<close> throw on it.\<close>

definition put_counted :: "('a \<Rightarrow> marshal \<Rightarrow> marshal option) \<Rightarrow> 'a list \<Rightarrow> marshal \<Rightarrow> marshal option" where
  "put_counted p xs m = do {m1 \<leftarrow> put_i32 (int (length xs)) m; put_each p xs m1}"

definition get_counted :: "bool \<Rightarrow> (marshal \<Rightarrow> ('a \<times> marshal) option) \<Rightarrow> marshal \<Rightarrow> ('a list \<times> marshal) option" where
  "get_counted throws g m =
     do {(sz, m1) \<leftarrow> get_i32_wire m;
         vrfy (throws \<longrightarrow> sz \<ge> 0);
         get_each g (nat sz) m1}"

text \<open>
  Ordered containers: a \<^verbatim>\<open>set\<close> is the sorted list of its elements, a \<^verbatim>\<open>map\<close> the list of its entries sorted by
  key. \<^verbatim>\<open>insert\<close> keeps the value of a key that is there, \<^verbatim>\<open>operator[]\<close> replaces it. Neither reader reserves
  room, so a negative length is an empty container.
\<close>

definition insert_into_map :: "int \<times> 'v \<Rightarrow> (int \<times> 'v) list \<Rightarrow> (int \<times> 'v) list" where
  "insert_into_map = (\<lambda>(k, v) kvs. if k \<in> set (map fst kvs) then kvs else insort_key fst (k, v) kvs)"

definition assign_in_map :: "int \<Rightarrow> 'v \<Rightarrow> (int \<times> 'v) list \<Rightarrow> (int \<times> 'v) list" where
  "assign_in_map k v kvs = insort_key fst (k, v) (filter (\<lambda>e. fst e \<noteq> k) kvs)"

definition put_set :: "int list \<Rightarrow> marshal \<Rightarrow> marshal option" where
  "put_set = put_vector put_i32"

definition get_set :: "byte list \<Rightarrow> marshal \<Rightarrow> (int list \<times> marshal) option" where
  "get_set stack m =
     do {(v_len, m1) \<leftarrow> get_v64 stack m;
         (xs, m2) \<leftarrow> get_each get_i32_wire (nat (sint v_len)) m1;
         Some (fold insort_insert xs [], m2)}"

definition put_map :: "('v \<Rightarrow> marshal \<Rightarrow> marshal option) \<Rightarrow> (int \<times> 'v) list \<Rightarrow> marshal \<Rightarrow> marshal option" where
  "put_map p = put_vector (put_pair put_i32 p)"

definition get_map :: "(marshal \<Rightarrow> ('v \<times> marshal) option) \<Rightarrow> byte list \<Rightarrow> marshal \<Rightarrow> ((int \<times> 'v) list \<times> marshal) option" where
  "get_map g stack m =
     do {(v_len, m1) \<leftarrow> get_v64 stack m;
         (kvs, m2) \<leftarrow> get_each (get_pair get_i32_wire g) (nat (sint v_len)) m1;
         Some (fold insert_into_map kvs [], m2)}"

section \<open>Views and batches\<close>

record view_data =
  vd_view :: view
  vd_partition_id :: u32

definition put_view_data :: "view_data \<Rightarrow> marshal \<Rightarrow> marshal option" where
  "put_view_data d m =
     do {m1 \<leftarrow> put_i32 (view_n (vd_view d)) m;
         m2 \<leftarrow> put_int 4 (view_id (vd_view d)) m1;
         m3 \<leftarrow> put_int 8 (view_timestamp (vd_view d)) m2;
         m4 \<leftarrow> put_counted put_i32 (view_leaders (vd_view d)) m3;
         put_int 4 (vd_partition_id d) m4}"

definition get_view_data :: "marshal \<Rightarrow> (view_data \<times> marshal) option" where
  "get_view_data m =
     do {(n, m1) \<leftarrow> get_i32_wire m;
         (i, m2) \<leftarrow> get_int 4 m1;
         (t, m3) \<leftarrow> get_int 8 m2;
         (ls, m4) \<leftarrow> get_counted True get_i32_wire m3;
         (p, m5) \<leftarrow> get_int 4 m4;
         Some (\<lparr>vd_view = \<lparr>view_n = n, view_leaders = ls, view_id = i, view_timestamp = t\<rparr>, vd_partition_id = p\<rparr>, m5)}"

definition put_key_cmd_ids :: "(key_t \<times> u64) list \<Rightarrow> marshal \<Rightarrow> marshal option" where
  "put_key_cmd_ids = put_counted (put_pair put_i32 (put_int 8))"

definition get_key_cmd_ids :: "marshal \<Rightarrow> ((key_t \<times> u64) list \<times> marshal) option" where
  "get_key_cmd_ids = get_counted True (get_pair get_i32_wire (get_int 8))"

definition put_key_list :: "key_t list \<Rightarrow> marshal \<Rightarrow> marshal option" where
  "put_key_list = put_counted put_i32"

definition get_key_list :: "marshal \<Rightarrow> (key_t list \<times> marshal) option" where
  "get_key_list = get_counted False get_i32_wire"

section \<open>Values\<close>

datatype wire_value = WUNKNOWN | WI32 int | WI64 u64 | WDOUBLE u64 | WSTR "byte list"

definition put_value :: "u64 \<times> wire_value \<Rightarrow> marshal \<Rightarrow> marshal option" where
  "put_value = (\<lambda>(ver, v) m.
     do {m1 \<leftarrow> put_int 8 ver m;
         case v of
           WUNKNOWN \<Rightarrow> None
         | WI32 i \<Rightarrow> do {m2 \<leftarrow> put_i32 0 m1; put_i32 i m2}
         | WI64 w \<Rightarrow> do {m2 \<leftarrow> put_i32 1 m1; put_int 8 w m2}
         | WDOUBLE d \<Rightarrow> do {m2 \<leftarrow> put_i32 2 m1; put_int 8 d m2}
         | WSTR s \<Rightarrow> do {m2 \<leftarrow> put_i32 3 m1; put_string s m2}})"

text \<open>The reader leaves a value of another kind as it was: \<open>old\<close>.\<close>

definition get_value :: "byte list \<Rightarrow> wire_value \<Rightarrow> marshal \<Rightarrow> ((u64 \<times> wire_value) \<times> marshal) option" where
  "get_value stack old m =
     do {(ver, m1) \<leftarrow> get_int 8 m;
         (k, m2) \<leftarrow> get_i32_wire m1;
         if k = 0 then do {(i, m3) \<leftarrow> get_i32_wire m2; Some ((ver, WI32 i), m3)}
         else if k = 1 then do {(w, m3) \<leftarrow> get_int 8 m2; Some ((ver, WI64 w), m3)}
         else if k = 2 then do {(d, m3) \<leftarrow> get_int 8 m2; Some ((ver, WDOUBLE d), m3)}
         else if k = 3 then do {(s, m3) \<leftarrow> get_string stack m2; Some ((ver, WSTR s), m3)}
         else Some ((ver, old), m2)}"

section \<open>Workspaces\<close>

text \<open>The keys a piece uses and the values that are known. Values of other keys are not sent.\<close>

record workspace =
  ws_keys :: "int list"
  ws_values :: "(int \<times> u64 \<times> wire_value) list"

definition known_values :: "workspace \<Rightarrow> (int \<times> u64 \<times> wire_value) list" where
  "known_values ws = concat (map (\<lambda>k. case map_of (ws_values ws) k of None \<Rightarrow> [] | Some v \<Rightarrow> [(k, v)]) (ws_keys ws))"

definition put_workspace :: "workspace \<Rightarrow> marshal \<Rightarrow> marshal option" where
  "put_workspace ws m =
     do {m1 \<leftarrow> put_set (ws_keys ws) m;
         m2 \<leftarrow> put_each (put_pair put_i32 put_value) (known_values ws) m1;
         put_i32 (-1) m2}"

text \<open>
  Reading uses up the buffer, which is why the loop of the reader ends. It takes pairs until it
  meets a negative number.
\<close>

lemma get_bytes_size: "get_bytes n m = Some (bs, m') \<Longrightarrow> content_size m = content_size m' + n"
  by (auto simp: get_bytes_def Marshal_read_def bind_eq_Some_conv Let_def split: prod.splits)

lemma get_int_size: "get_int n m = Some (w, m') \<Longrightarrow> content_size m = content_size m' + n"
  by (auto simp: get_int_def bind_eq_Some_conv dest: get_bytes_size)

lemma get_i32_size: "get_i32_wire m = Some (x, m') \<Longrightarrow> content_size m = content_size m' + 4"
  by (auto simp: get_i32_wire_def bind_eq_Some_conv dest: get_int_size)

lemma get_string_size: "get_string stack m = Some (s, m') \<Longrightarrow> content_size m' \<le> content_size m"
  by (auto simp: get_string_def get_v64_def bind_eq_Some_conv Let_def dest!: get_bytes_size split: if_splits)

lemma get_value_size: "get_value stack old m = Some (v, m') \<Longrightarrow> content_size m' \<le> content_size m"
  by (auto simp: get_value_def bind_eq_Some_conv dest!: get_int_size get_i32_size get_string_size split: if_splits)

declare Option.bind_cong [fundef_cong]

function get_values :: "byte list \<Rightarrow> (int \<times> u64 \<times> wire_value) list \<Rightarrow> marshal \<Rightarrow> ((int \<times> u64 \<times> wire_value) list \<times> marshal) option" where
  "get_values stack vals m =
     Option.bind (get_i32_wire m) (\<lambda>(k, m1).
       if k \<ge> 0
       then Option.bind (get_value stack WUNKNOWN m1) (\<lambda>(v, m2). get_values stack (assign_in_map k v vals) m2)
       else Some (vals, m1))"
  by pat_completeness auto

termination
  by (relation "measure (\<lambda>(stack, vals, m). content_size m)") (auto dest!: get_i32_size get_value_size)

definition get_workspace :: "byte list \<Rightarrow> marshal \<Rightarrow> (workspace \<times> marshal) option" where
  "get_workspace stack m =
     do {(ks, m1) \<leftarrow> get_set stack m;
         (vals, m2) \<leftarrow> get_values stack [] m1;
         Some (\<lparr>ws_keys = ks, ws_values = vals\<rparr>, m2)}"


section \<open>Pieces\<close>

record wire_piece =
  wp_id :: u64
  wp_type :: u32
  wp_inn_id :: u32
  wp_root_id :: u64
  wp_root_type :: u32
  wp_client_id :: int
  wp_cmd_id_in_client :: int
  wp_original_path_only :: byte
  wp_input :: workspace
  wp_output :: "(int \<times> u64 \<times> wire_value) list"
  wp_output_size :: int
  wp_partition_id :: u32
  wp_timestamp :: u64
  wp_rank :: int

definition put_piece :: "wire_piece \<Rightarrow> marshal \<Rightarrow> marshal option" where
  "put_piece c m =
     do {vrfy (length (ws_keys (wp_input c)) < 10000);
         m1 \<leftarrow> put_int 8 (wp_id c) m;
         m2 \<leftarrow> put_int 4 (wp_type c) m1;
         m3 \<leftarrow> put_int 4 (wp_inn_id c) m2;
         m4 \<leftarrow> put_int 8 (wp_root_id c) m3;
         m5 \<leftarrow> put_int 4 (wp_root_type c) m4;
         m6 \<leftarrow> put_i32 (wp_client_id c) m5;
         m7 \<leftarrow> put_i32 (wp_cmd_id_in_client c) m6;
         m8 \<leftarrow> put_int 1 (wp_original_path_only c) m7;
         m9 \<leftarrow> put_workspace (wp_input c) m8;
         m10 \<leftarrow> put_map put_value (wp_output c) m9;
         m11 \<leftarrow> put_i32 (wp_output_size c) m10;
         m12 \<leftarrow> put_int 4 (wp_partition_id c) m11;
         m13 \<leftarrow> put_int 8 (wp_timestamp c) m12;
         put_i32 (wp_rank c) m13}"

definition get_piece :: "byte list \<Rightarrow> marshal \<Rightarrow> (wire_piece \<times> marshal) option" where
  "get_piece stack m =
     do {(a, m1) \<leftarrow> get_int 8 m;
         (b, m2) \<leftarrow> get_int 4 m1;
         (c, m3) \<leftarrow> get_int 4 m2;
         (d, m4) \<leftarrow> get_int 8 m3;
         (e, m5) \<leftarrow> get_int 4 m4;
         (f, m6) \<leftarrow> get_i32_wire m5;
         (g, m7) \<leftarrow> get_i32_wire m6;
         (h, m8) \<leftarrow> get_int 1 m7;
         (i, m9) \<leftarrow> get_workspace stack m8;
         (j, m10) \<leftarrow> get_map (get_value stack WUNKNOWN) stack m9;
         (k, m11) \<leftarrow> get_i32_wire m10;
         (l, m12) \<leftarrow> get_int 4 m11;
         (n, m13) \<leftarrow> get_int 8 m12;
         (r, m14) \<leftarrow> get_i32_wire m13;
         Some (\<lparr>wp_id = a, wp_type = b, wp_inn_id = c, wp_root_id = d, wp_root_type = e, wp_client_id = f,
                wp_cmd_id_in_client = g, wp_original_path_only = h, wp_input = i, wp_output = j, wp_output_size = k,
                wp_partition_id = l, wp_timestamp = n, wp_rank = r\<rparr>, m14)}"

record wire_vec_piece =
  wv_pieces :: "wire_piece list"
  wv_time_sent :: u64
  wv_is_recovery :: byte

definition put_vec_piece :: "wire_vec_piece \<Rightarrow> marshal \<Rightarrow> marshal option" where
  "put_vec_piece d m =
     do {m1 \<leftarrow> put_counted put_piece (wv_pieces d) m;
         m2 \<leftarrow> put_int 8 (wv_time_sent d) m1;
         put_int 1 (wv_is_recovery d) m2}"

definition get_vec_piece :: "byte list \<Rightarrow> marshal \<Rightarrow> (wire_vec_piece \<times> marshal) option" where
  "get_vec_piece stack m =
     do {(ps, m1) \<leftarrow> get_counted False (get_piece stack) m;
         (t, m2) \<leftarrow> get_int 8 m1;
         (r, m3) \<leftarrow> get_int 1 m2;
         Some (\<lparr>wv_pieces = ps, wv_time_sent = t, wv_is_recovery = r\<rparr>, m3)}"

section \<open>Commands behind a deputy\<close>

text \<open>
  The command's kind, then the command. Kinds of the other protocols stand in \<open>'o\<close>, with the kind and
  the two operators of each as parameters. A reader that meets an unknown kind fails a \<^verbatim>\<open>verify\<close>.
\<close>

datatype 'o deputy_cmd =
    VecPiece wire_vec_piece
  | VecRec "key_t list"
  | ViewMsg view_data
  | KeyCmdIds "(key_t \<times> u64) list"
  | Other 'o

definition marshal_kind :: "('o \<Rightarrow> int) \<Rightarrow> 'o deputy_cmd \<Rightarrow> int" where
  "marshal_kind kind_of c =
     (case c of VecPiece _ \<Rightarrow> 6 | VecRec _ \<Rightarrow> 13 | ViewMsg _ \<Rightarrow> 14 | KeyCmdIds _ \<Rightarrow> 16 | Other x \<Rightarrow> kind_of x)"

definition put_deputy :: "('o \<Rightarrow> int) \<Rightarrow> ('o \<Rightarrow> marshal \<Rightarrow> marshal option) \<Rightarrow> 'o deputy_cmd \<Rightarrow> marshal \<Rightarrow> marshal option" where
  "put_deputy kind_of put_other c m =
     do {vrfy (marshal_kind kind_of c \<noteq> 0);
         m1 \<leftarrow> put_i32 (marshal_kind kind_of c) m;
         case c of
           VecPiece d \<Rightarrow> put_vec_piece d m1
         | VecRec ks \<Rightarrow> put_key_list ks m1
         | ViewMsg d \<Rightarrow> put_view_data d m1
         | KeyCmdIds b \<Rightarrow> put_key_cmd_ids b m1
         | Other x \<Rightarrow> put_other x m1}"

definition get_deputy :: "('o \<Rightarrow> int) \<Rightarrow> (int \<Rightarrow> marshal \<Rightarrow> ('o \<times> marshal) option) \<Rightarrow> byte list \<Rightarrow> marshal \<Rightarrow> ('o deputy_cmd \<times> marshal) option" where
  "get_deputy kind_of get_other stack m =
     do {(k, m1) \<leftarrow> get_i32_wire m;
         vrfy (k \<noteq> 0);
         if k = 6 then do {(d, m2) \<leftarrow> get_vec_piece stack m1; Some (VecPiece d, m2)}
         else if k = 13 then do {(ks, m2) \<leftarrow> get_key_list m1; Some (VecRec ks, m2)}
         else if k = 14 then do {(d, m2) \<leftarrow> get_view_data m1; Some (ViewMsg d, m2)}
         else if k = 16 then do {(b, m2) \<leftarrow> get_key_cmd_ids m1; Some (KeyCmdIds b, m2)}
         else do {(x, m2) \<leftarrow> get_other k m1; vrfy (kind_of x = k); Some (Other x, m2)}}"

text \<open>A batch of keys and commands.\<close>

definition put_key_cmd_batch :: "('o \<Rightarrow> int) \<Rightarrow> ('o \<Rightarrow> marshal \<Rightarrow> marshal option) \<Rightarrow> (key_t \<times> 'o deputy_cmd) list \<Rightarrow> marshal \<Rightarrow> marshal option" where
  "put_key_cmd_batch kind_of put_other = put_counted (put_pair put_i32 (put_deputy kind_of put_other))"

definition get_key_cmd_batch :: "('o \<Rightarrow> int) \<Rightarrow> (int \<Rightarrow> marshal \<Rightarrow> ('o \<times> marshal) option) \<Rightarrow> byte list \<Rightarrow> marshal \<Rightarrow> ((key_t \<times> 'o deputy_cmd) list \<times> marshal) option" where
  "get_key_cmd_batch kind_of get_other stack = get_counted True (get_pair get_i32_wire (get_deputy kind_of get_other stack))"

section \<open>Round trips\<close>

text \<open>
  A write and a read that fit together: the bytes that one appends are the bytes that the other
  takes, and the result is \<open>x\<close>.
\<close>

definition sends :: "(marshal \<Rightarrow> marshal option) \<Rightarrow> (marshal \<Rightarrow> ('a \<times> marshal) option) \<Rightarrow> 'a \<Rightarrow> bool" where
  "sends p g x \<longleftrightarrow> (\<exists>bs. (\<forall>m. marshal_ok m \<longrightarrow> (\<exists>m'. p m = Some m' \<and> marshal_ok m' \<and> contents m' = contents m @ bs)) \<and>
     (\<forall>m rest. marshal_ok m \<longrightarrow> contents m = bs @ rest \<longrightarrow> (\<exists>m'. g m = Some (x, m') \<and> marshal_ok m' \<and> contents m' = rest)))"

named_theorems sends \<open>writers and readers that fit together\<close>

lemma sends_codec: "codec p g enc v \<Longrightarrow> v x \<Longrightarrow> sends (p x) g x"
  unfolding sends_def by (rule exI [of _ "enc x"]) (blast dest: codec.put_law codec.get_law)

lemma sends_roundtrip:
  assumes "sends p g x" "marshal_ok m" "contents m = []"
  shows "\<exists>m1 m2. p m = Some m1 \<and> g m1 = Some (x, m2) \<and> contents m2 = []"
  using assms unfolding sends_def by (metis append.right_neutral append_Nil)

lemma sends_seq:
  assumes "sends p g a" "sends q (k a) x"
  shows "sends (\<lambda>m. Option.bind (p m) q) (\<lambda>m. Option.bind (g m) (\<lambda>(a, m'). k a m')) x"
proof -
  obtain bs cs where 1: "\<And>m. marshal_ok m \<Longrightarrow> \<exists>m'. p m = Some m' \<and> marshal_ok m' \<and> contents m' = contents m @ bs"
    "\<And>m rest. marshal_ok m \<Longrightarrow> contents m = bs @ rest \<Longrightarrow> \<exists>m'. g m = Some (a, m') \<and> marshal_ok m' \<and> contents m' = rest"
    and 2: "\<And>m. marshal_ok m \<Longrightarrow> \<exists>m'. q m = Some m' \<and> marshal_ok m' \<and> contents m' = contents m @ cs"
    "\<And>m rest. marshal_ok m \<Longrightarrow> contents m = cs @ rest \<Longrightarrow> \<exists>m'. k a m = Some (x, m') \<and> marshal_ok m' \<and> contents m' = rest"
    using assms unfolding sends_def by blast
  show ?thesis unfolding sends_def
  proof (intro exI [of _ "bs @ cs"] conjI allI impI)
    fix m assume ok: "marshal_ok m"
    show "\<exists>m'. Option.bind (p m) q = Some m' \<and> marshal_ok m' \<and> contents m' = contents m @ bs @ cs"
      using 1(1) [OF ok] 2(1) by fastforce
    fix rest assume c: "contents m = (bs @ cs) @ rest"
    show "\<exists>m'. Option.bind (g m) (\<lambda>(a, m'). k a m') = Some (x, m') \<and> marshal_ok m' \<and> contents m' = rest"
      using 1(2) [OF ok, of "cs @ rest"] 2(2) c by fastforce
  qed
qed

lemma sends_last:
  assumes "sends p g a" "y = f a"
  shows "sends p (\<lambda>m. Option.bind (g m) (\<lambda>(a, m'). Some (f a, m'))) y"
  using assms unfolding sends_def by fastforce

lemma sends_checked:
  assumes "sends p g a" "P a" "y = f a"
  shows "sends p (\<lambda>m. Option.bind (g m) (\<lambda>(a, m'). Option.bind (vrfy (P a)) (\<lambda>_. Some (f a, m')))) y"
  using assms unfolding sends_def by fastforce

lemma sends_none: "sends Some (\<lambda>m. Some (x, m)) x"
  unfolding sends_def by auto

text \<open>Integers, pairs and lists.\<close>

definition in_i32 :: "int \<Rightarrow> bool" where
  "in_i32 x \<longleftrightarrow> - (2 ^ 31) \<le> x \<and> x < 2 ^ 31"

lemma sends_int [sends]: "8 * n = LENGTH('a::len) \<Longrightarrow> sends (put_int n (w :: 'a word)) (get_int n) w"
  using sends_codec [OF codec_int] by blast

lemma sends_i32 [sends]: "in_i32 x \<Longrightarrow> sends (put_i32 x) get_i32_wire x"
proof -
  assume "in_i32 x"
  then have x: "sint (word_of_int x :: u32) = x"
    by (simp add: in_i32_def signed_of_int signed_take_bit_int_eq_self)
  have "sends (put_int 4 (word_of_int x :: u32)) (get_int 4 :: marshal \<Rightarrow> (u32 \<times> marshal) option) (word_of_int x)"
    by (rule sends_int) simp
  from sends_last [OF this, of x sint] x show ?thesis by (simp add: put_i32_def [abs_def] get_i32_wire_def [abs_def])
qed

lemma sends_pair [sends]:
  assumes "sends (p a) g a" "sends (q b) h b"
  shows "sends (put_pair p q (a, b)) (get_pair g h) (a, b)"
  unfolding put_pair_def [abs_def] get_pair_def [abs_def] split
  by (rule sends_seq [OF assms(1)], rule sends_last [OF assms(2)], simp)

lemma sends_each_via: "\<forall>x \<in> set xs. sends (p x) g (f x) \<Longrightarrow> sends (put_each p xs) (get_each g (length xs)) (map f xs)"
proof (induction xs)
  case Nil
  have "put_each p [] = Some" "get_each g 0 = (\<lambda>m. Some ([], m))" by auto
  with sends_none show ?case by simp
next
  case (Cons x xs)
  have "sends (\<lambda>m. Option.bind (p x m) (put_each p xs))
      (\<lambda>m. Option.bind (g m) (\<lambda>(x, m1). Option.bind (get_each g (length xs) m1) (\<lambda>(xs, m2). Some (x # xs, m2)))) (f x # map f xs)"
    using Cons by (intro sends_seq [of _ _ "f x"] sends_last [of _ _ "map f xs"]) auto
  then show ?case by (simp add: fun_eq_iff [symmetric] cong: option.case_cong)
qed

lemma sends_counted_via:
  assumes "length xs < 2 ^ 31" "\<forall>x \<in> set xs. sends (p x) g (f x)"
  shows "sends (put_counted p xs) (get_counted throws g) (map f xs)"
  unfolding put_counted_def [abs_def] get_counted_def [abs_def]
proof (intro sends_seq)
  show "sends (put_i32 (int (length xs))) get_i32_wire (int (length xs))"
    using assms(1) by (intro sends_i32) (simp add: in_i32_def)
  show "sends (put_each p xs) (\<lambda>m. Option.bind (vrfy (throws \<longrightarrow> int (length xs) \<ge> 0)) (\<lambda>_. get_each g (nat (int (length xs))) m)) (map f xs)"
    using sends_each_via [OF assms(2)] by simp
qed

lemmas sends_each = sends_each_via [where f = "\<lambda>x. x", simplified]
lemmas sends_counted [sends] = sends_counted_via [where f = "\<lambda>x. x", simplified]

lemma sends_v64_length: "n < 2 ^ 48 \<Longrightarrow> length stack = 9 \<Longrightarrow> sends (put_v64 (word_of_nat n)) (get_v64 stack) (word_of_nat n)"
  by (intro sends_codec [OF codec_v64] length_on_wire(2))

text \<open>What a set or map reader builds from entries in order are the entries.\<close>

lemma insort_key_snoc: "\<forall>y \<in> set ys. f y < f x \<Longrightarrow> insort_key f x ys = ys @ [x]"
  by (induction ys) auto

lemma fold_set_sorted:
  "sorted_wrt (<) (ys @ xs) \<Longrightarrow> fold insort_insert xs ys = ys @ (xs :: int list)"
proof (induction xs arbitrary: ys)
  case (Cons x xs)
  then have "\<forall>y \<in> set ys. id y < id x" by (auto simp: sorted_wrt_append)
  then have "insort_insert x ys = ys @ [x]"
    using insort_key_snoc [of ys id x] by (auto simp: insort_insert_key_def id_def)
  with Cons show ?case by simp
qed simp

lemma fold_map_sorted:
  assumes "\<And>k v kvs. \<forall>e \<in> set kvs. fst e < k \<Longrightarrow> ins (k, v) kvs = kvs @ [(k, v)]"
  shows "sorted_wrt (<) (map fst (ys @ xs)) \<Longrightarrow> fold ins xs ys = ys @ (xs :: (int \<times> 'v) list)"
proof (induction xs arbitrary: ys)
  case (Cons x xs)
  obtain k v where x: "x = (k, v)" by (cases x)
  from Cons.prems have "\<forall>e \<in> set ys. fst e < k" by (auto simp: x sorted_wrt_append)
  with assms Cons x show ?case by simp
qed simp

lemma insert_into_map_snoc: "\<forall>e \<in> set kvs. fst e < k \<Longrightarrow> insert_into_map (k, v) kvs = kvs @ [(k, v)]"
  by (auto simp: insert_into_map_def insort_key_snoc)

lemma assign_in_map_snoc: "\<forall>e \<in> set kvs. fst e < k \<Longrightarrow> assign_in_map k v kvs = kvs @ [(k, v)]"
proof -
  assume lt: "\<forall>e \<in> set kvs. fst e < k"
  then have "filter (\<lambda>e. fst e \<noteq> k) kvs = kvs" by (auto intro!: filter_True)
  with lt show ?thesis by (simp add: assign_in_map_def insort_key_snoc)
qed

lemma sends_container:
  assumes "length xs < 2 ^ 31" "length stack = 9" "\<forall>x \<in> set xs. sends (p x) g x" "build xs = ys"
  shows "sends (put_vector p xs) (\<lambda>m. Option.bind (get_v64 stack m) (\<lambda>(v_len, m1).
     Option.bind (get_each g (nat (sint v_len)) m1) (\<lambda>(xs, m2). Some (build xs, m2)))) ys"
proof -
  have n: "length xs < 2 ^ 48" using assms(1) by simp
  have "sends (put_each p xs) (get_each g (nat (sint (word_of_nat (length xs) :: u64)))) xs"
    using sends_each [OF assms(3)] by (simp add: length_on_wire(1) [OF n])
  with sends_v64_length [OF n assms(2)] assms(4) show ?thesis
    unfolding put_vector_def [abs_def] by (intro sends_seq sends_last) auto
qed

lemma sends_set [sends]:
  assumes "length ks < 2 ^ 31" "length stack = 9" "sorted_wrt (<) ks" "list_all in_i32 ks"
  shows "sends (put_set ks) (get_set stack) ks"
  unfolding put_set_def get_set_def [abs_def] using assms fold_set_sorted [of "[]" ks]
  by (intro sends_container) (auto simp: list_all_iff intro: sends_i32)

lemma sends_map [sends]:
  assumes "length kvs < 2 ^ 31" "length stack = 9" "sorted_wrt (<) (map fst kvs)"
    "\<forall>(k, v) \<in> set kvs. in_i32 k \<and> sends (p v) g v"
  shows "sends (put_map p kvs) (get_map g stack) kvs"
  unfolding put_map_def get_map_def [abs_def]
  using assms fold_map_sorted [of insert_into_map "[]" kvs, OF insert_into_map_snoc]
  by (intro sends_container) (auto intro!: sends_pair sends_i32)

text \<open>What each message may hold: numbers in their ranges and containers in order.\<close>

definition view_data_ok :: "view_data \<Rightarrow> bool" where
  "view_data_ok d \<longleftrightarrow> in_i32 (view_n (vd_view d)) \<and> length (view_leaders (vd_view d)) < 2 ^ 31 \<and>
     list_all in_i32 (view_leaders (vd_view d))"

definition value_ok :: "wire_value \<Rightarrow> bool" where
  "value_ok v = (case v of WUNKNOWN \<Rightarrow> False | WI32 i \<Rightarrow> in_i32 i | WSTR s \<Rightarrow> length s < 2 ^ 48 | _ \<Rightarrow> True)"

definition map_ok :: "(int \<times> u64 \<times> wire_value) list \<Rightarrow> bool" where
  "map_ok kvs \<longleftrightarrow> length kvs < 2 ^ 31 \<and> sorted_wrt (<) (map fst kvs) \<and> (\<forall>(k, ver, v) \<in> set kvs. in_i32 k \<and> value_ok v)"

definition workspace_ok :: "workspace \<Rightarrow> bool" where
  "workspace_ok ws \<longleftrightarrow> length (ws_keys ws) < 10000 \<and> sorted_wrt (<) (ws_keys ws) \<and> list_all in_i32 (ws_keys ws) \<and>
     map_ok (ws_values ws) \<and> (\<forall>k \<in> set (ws_keys ws). map_of (ws_values ws) k \<noteq> None \<longrightarrow> k \<ge> 0)"

definition piece_ok :: "wire_piece \<Rightarrow> bool" where
  "piece_ok c \<longleftrightarrow> in_i32 (wp_client_id c) \<and> in_i32 (wp_cmd_id_in_client c) \<and> workspace_ok (wp_input c) \<and>
     map_ok (wp_output c) \<and> in_i32 (wp_output_size c) \<and> in_i32 (wp_rank c)"

text \<open>What arrives: the values of a workspace whose keys it does not list stay behind.\<close>

definition arrived_piece :: "wire_piece \<Rightarrow> wire_piece" where
  "arrived_piece c = c\<lparr>wp_input := (wp_input c)\<lparr>ws_values := known_values (wp_input c)\<rparr>\<rparr>"

lemma sends_view_data [sends]: "view_data_ok d \<Longrightarrow> sends (put_view_data d) get_view_data d"
  unfolding put_view_data_def [abs_def] get_view_data_def [abs_def]
  by (rule sends_seq, rule sends_i32, simp add: view_data_ok_def, rule sends_seq, rule sends_int, simp, rule sends_seq, rule sends_int, simp,
      rule sends_seq, rule sends_counted, simp add: view_data_ok_def, simp add: view_data_ok_def list_all_iff sends_i32,
      rule sends_last, rule sends_int) simp_all

lemma sends_key_list [sends]: "length ks < 2 ^ 31 \<Longrightarrow> list_all in_i32 ks \<Longrightarrow> sends (put_key_list ks) get_key_list ks"
  unfolding put_key_list_def get_key_list_def by (rule sends_counted) (auto simp: list_all_iff sends_i32)

lemma sends_key_cmd_ids [sends]:
  "length b < 2 ^ 31 \<Longrightarrow> list_all (in_i32 \<circ> fst) b \<Longrightarrow> sends (put_key_cmd_ids b) get_key_cmd_ids b"
  unfolding put_key_cmd_ids_def get_key_cmd_ids_def
  by (rule sends_counted) (auto simp: list_all_iff sends_i32 intro!: sends_pair sends_int)

lemma sends_tagged: "in_i32 k \<Longrightarrow> sends q (h k) x \<Longrightarrow> sends (\<lambda>m. Option.bind (put_i32 k m) q) (\<lambda>m. Option.bind (get_i32_wire m) (\<lambda>(k, m'). h k m')) x"
  by (rule sends_seq [OF sends_i32])

lemma in_i32_small [simp]: "- 10000 \<le> k \<Longrightarrow> k \<le> 10000 \<Longrightarrow> in_i32 k"
  by (simp add: in_i32_def)

lemma sends_string [sends]: "length s < 2 ^ 48 \<Longrightarrow> length stack = 9 \<Longrightarrow> sends (put_string s) (get_string stack) s"
  by (rule sends_codec [OF codec_string])

lemma sends_value [sends]:
  assumes "value_ok v" "length stack = 9"
  shows "sends (put_value (ver, v)) (get_value stack old) (ver, v)"
  unfolding put_value_def get_value_def [abs_def] split
  by (rule sends_seq, rule sends_int, simp, cases v)
     (use assms in \<open>auto simp: value_ok_def intro!: sends_tagged sends_last [OF sends_i32] sends_last [OF sends_string [simplified]] sends_last [OF sends_int]\<close>)

text \<open>The workspace: its keys, the values that are known, and a negative number.\<close>

declare get_values.simps [simp del]

lemma get_values_eq:
  "get_values stack vals = (\<lambda>m. Option.bind (get_i32_wire m) (\<lambda>(k, m1).
     if k \<ge> 0 then Option.bind (get_value stack WUNKNOWN m1) (\<lambda>(v, m2). get_values stack (assign_in_map k v vals) m2)
     else Some (vals, m1)))"
  by (rule ext) (rule get_values.simps)

lemma sends_values:
  assumes "\<forall>(k, v) \<in> set kvs. in_i32 k \<and> k \<ge> 0 \<and> sends (put_value v) (get_value stack WUNKNOWN) v"
  shows "sends (\<lambda>m. Option.bind (put_each (put_pair put_i32 put_value) kvs m) (put_i32 (-1))) (get_values stack vals)
     (fold (\<lambda>(k, v). assign_in_map k v) kvs vals)"
  using assms
proof (induction kvs arbitrary: vals)
  case Nil
  have "sends (\<lambda>m. Option.bind (put_i32 (-1) m) Some) (get_values stack vals) vals"
    unfolding get_values_eq [of stack vals] by (rule sends_tagged) (simp_all add: sends_none)
  then show ?case by simp
next
  case (Cons x kvs)
  obtain k v where x: "x = (k, v)" by (cases x)
  have "sends (\<lambda>m. Option.bind (put_i32 k m) (\<lambda>m. Option.bind (put_value v m)
       (\<lambda>m. Option.bind (put_each (put_pair put_i32 put_value) kvs m) (put_i32 (-1)))))
     (get_values stack vals) (fold (\<lambda>(k, v). assign_in_map k v) kvs (assign_in_map k v vals))"
    unfolding get_values_eq [of stack vals] using Cons.prems x
    by (intro sends_tagged) (auto intro!: sends_seq [of "put_value v" _ v] Cons.IH)
  then show ?case by (simp add: x put_pair_def)
qed

lemma in_known_values: "(k, v) \<in> set (known_values ws) \<longleftrightarrow> k \<in> set (ws_keys ws) \<and> map_of (ws_values ws) k = Some v"
  by (cases v) (force simp: known_values_def split: option.splits)

lemma known_values_sorted: "sorted_wrt (<) (ws_keys ws) \<Longrightarrow> sorted_wrt (<) (map fst (known_values ws))"
proof -
  have "map fst (concat (map (\<lambda>k. case f k of None \<Rightarrow> [] | Some v \<Rightarrow> [(k, v)]) ks)) = filter (\<lambda>k. f k \<noteq> None) ks" for f ks
    by (induction ks) (auto split: option.splits)
  from this [of "map_of (ws_values ws)"] show "sorted_wrt (<) (ws_keys ws) \<Longrightarrow> ?thesis"
    unfolding known_values_def by (simp add: sorted_wrt_filter del: not_None_eq)
qed

lemma known_values_all:
  assumes "ws_keys ws = map fst (ws_values ws)" "sorted_wrt (<) (ws_keys ws)"
  shows "known_values ws = ws_values ws"
proof -
  have "concat (map (\<lambda>k. case map_of kvs k of None \<Rightarrow> [] | Some v \<Rightarrow> [(k, v)]) (map fst kvs')) = kvs'"
    if "distinct (map fst kvs)" "set kvs' \<subseteq> set kvs" for kvs kvs' :: "(int \<times> u64 \<times> wire_value) list"
    using that by (induction kvs') (auto simp: map_of_is_SomeI)
  from this [of "ws_values ws" "ws_values ws"] assms show ?thesis
    by (simp add: known_values_def strict_sorted_iff)
qed

lemma fold_assign: "sorted_wrt (<) (map fst kvs) \<Longrightarrow> fold (\<lambda>(k, v). assign_in_map k v) kvs [] = kvs"
  using fold_map_sorted [of "\<lambda>(k, v). assign_in_map k v" "[]" kvs, unfolded split, OF assign_in_map_snoc] by simp

lemma sends_workspace [sends]:
  assumes ok: "workspace_ok ws" and stack: "length stack = 9"
  shows "sends (put_workspace ws) (get_workspace stack) (ws\<lparr>ws_values := known_values ws\<rparr>)"
  unfolding put_workspace_def [abs_def] get_workspace_def [abs_def]
proof (rule sends_seq, rule sends_set, goal_cases)
  case 5
  have v: "in_i32 k \<and> k \<ge> 0 \<and> sends (put_value w) (get_value stack WUNKNOWN) w" if "(k, w) \<in> set (known_values ws)" for k w
  proof -
    obtain ver v where w: "w = (ver, v)" by (cases w)
    from that ok have "in_i32 k" "k \<ge> 0" "(k, w) \<in> set (ws_values ws)"
      by (auto simp: workspace_ok_def in_known_values list_all_iff dest: map_of_SomeD)
    with ok w show ?thesis using sends_value [OF _ stack] by (auto simp: workspace_ok_def map_ok_def)
  qed
  have "\<forall>(k, w) \<in> set (known_values ws). in_i32 k \<and> k \<ge> 0 \<and> sends (put_value w) (get_value stack WUNKNOWN) w"
    using v by blast
  from sends_values [OF this, of "[]"] have "sends (\<lambda>m. Option.bind (put_each (put_pair put_i32 put_value) (known_values ws) m) (put_i32 (-1)))
      (get_values stack []) (fold (\<lambda>(k, v). assign_in_map k v) (known_values ws) [])" .
  also have "fold (\<lambda>(k, v). assign_in_map k v) (known_values ws) [] = known_values ws"
    using ok by (intro fold_assign known_values_sorted) (simp add: workspace_ok_def)
  finally show ?case by (rule sends_last) simp
qed (use ok stack in \<open>simp_all add: workspace_ok_def\<close>)

lemma sends_output [sends]:
  assumes "map_ok kvs" "length stack = 9"
  shows "sends (put_map put_value kvs) (get_map (get_value stack WUNKNOWN) stack) kvs"
  using assms by (intro sends_map) (auto simp: map_ok_def intro!: sends_value)

lemma sends_piece [sends]:
  assumes ok: "piece_ok c" and stack: "length stack = 9"
  shows "sends (put_piece c) (get_piece stack) (arrived_piece c)"
proof -
  have "length (ws_keys (wp_input c)) < 10000" using ok by (simp add: piece_ok_def workspace_ok_def)
  then have "put_piece c = (\<lambda>m. do {
         m1 \<leftarrow> put_int 8 (wp_id c) m;
         m2 \<leftarrow> put_int 4 (wp_type c) m1;
         m3 \<leftarrow> put_int 4 (wp_inn_id c) m2;
         m4 \<leftarrow> put_int 8 (wp_root_id c) m3;
         m5 \<leftarrow> put_int 4 (wp_root_type c) m4;
         m6 \<leftarrow> put_i32 (wp_client_id c) m5;
         m7 \<leftarrow> put_i32 (wp_cmd_id_in_client c) m6;
         m8 \<leftarrow> put_int 1 (wp_original_path_only c) m7;
         m9 \<leftarrow> put_workspace (wp_input c) m8;
         m10 \<leftarrow> put_map put_value (wp_output c) m9;
         m11 \<leftarrow> put_i32 (wp_output_size c) m10;
         m12 \<leftarrow> put_int 4 (wp_partition_id c) m11;
         m13 \<leftarrow> put_int 8 (wp_timestamp c) m12;
         put_i32 (wp_rank c) m13})"
    by (simp add: put_piece_def [abs_def])
  then show ?thesis unfolding get_piece_def [abs_def]
    using ok stack
    by (auto simp: piece_ok_def arrived_piece_def intro!: sends_seq [OF sends_int] sends_seq [OF sends_i32] 
       sends_seq [OF sends_workspace] sends_seq [OF sends_output] sends_last [OF sends_i32])
qed

definition vec_piece_ok :: "wire_vec_piece \<Rightarrow> bool" where
  "vec_piece_ok d \<longleftrightarrow> length (wv_pieces d) < 2 ^ 31 \<and> list_all piece_ok (wv_pieces d)"

lemma sends_vec_piece [sends]:
  assumes "vec_piece_ok d" "length stack = 9"
  shows "sends (put_vec_piece d) (get_vec_piece stack) (d\<lparr>wv_pieces := map arrived_piece (wv_pieces d)\<rparr>)"
  unfolding put_vec_piece_def [abs_def] get_vec_piece_def [abs_def] using assms
  by (auto simp: vec_piece_ok_def list_all_iff intro!: sends_seq [OF sends_counted_via] sends_seq [OF sends_int] sends_last [OF sends_int] sends_piece)

text \<open>Commands: valid ones, and what arrives of them.\<close>

definition message_ok :: "('o \<Rightarrow> bool) \<Rightarrow> 'o deputy_cmd \<Rightarrow> bool" where
  "message_ok other_ok c = (case c of
       VecPiece d \<Rightarrow> vec_piece_ok d
     | VecRec ks \<Rightarrow> length ks < 2 ^ 31 \<and> list_all in_i32 ks
     | ViewMsg d \<Rightarrow> view_data_ok d
     | KeyCmdIds b \<Rightarrow> length b < 2 ^ 31 \<and> list_all (in_i32 \<circ> fst) b
     | Other x \<Rightarrow> other_ok x)"

definition arrived :: "'o deputy_cmd \<Rightarrow> 'o deputy_cmd" where
  "arrived c = (case c of VecPiece d \<Rightarrow> VecPiece (d\<lparr>wv_pieces := map arrived_piece (wv_pieces d)\<rparr>) | _ \<Rightarrow> c)"

definition others_fit :: "('o \<Rightarrow> int) \<Rightarrow> ('o \<Rightarrow> marshal \<Rightarrow> marshal option) \<Rightarrow> (int \<Rightarrow> marshal \<Rightarrow> ('o \<times> marshal) option) \<Rightarrow> ('o \<Rightarrow> bool) \<Rightarrow> bool" where
  "others_fit kind_of put_other get_other other_ok \<longleftrightarrow>
     (\<forall>x. other_ok x \<longrightarrow> in_i32 (kind_of x) \<and> kind_of x \<notin> {0, 6, 13, 14, 16} \<and> sends (put_other x) (get_other (kind_of x)) x)"

lemma sends_deputy [sends]:
  assumes "message_ok other_ok c" "length stack = 9" "others_fit kind_of put_other get_other other_ok"
  shows "sends (put_deputy kind_of put_other c) (get_deputy kind_of get_other stack) (arrived c)"
proof -
  have k: "marshal_kind kind_of c \<noteq> 0" "in_i32 (marshal_kind kind_of c)"
    using assms by (auto simp: marshal_kind_def message_ok_def others_fit_def split: deputy_cmd.splits)
  have "put_deputy kind_of put_other c = (\<lambda>m. Option.bind (put_i32 (marshal_kind kind_of c) m)
      (case c of VecPiece d \<Rightarrow> put_vec_piece d | VecRec ks \<Rightarrow> put_key_list ks | ViewMsg d \<Rightarrow> put_view_data d
       | KeyCmdIds b \<Rightarrow> put_key_cmd_ids b | Other x \<Rightarrow> put_other x))"
    using k(1) by (cases c) (simp_all add: put_deputy_def [abs_def])
  then show ?thesis unfolding get_deputy_def [abs_def] using k assms
    by (cases c) (auto simp: marshal_kind_def message_ok_def arrived_def others_fit_def intro!: sends_tagged
        sends_last [OF sends_vec_piece] sends_last [OF sends_key_list] sends_last [OF sends_view_data] sends_last [OF sends_key_cmd_ids]
        sends_checked [where P = "\<lambda>x. kind_of x = k" for k])
qed

definition batch_ok :: "('o \<Rightarrow> bool) \<Rightarrow> (key_t \<times> 'o deputy_cmd) list \<Rightarrow> bool" where
  "batch_ok other_ok b \<longleftrightarrow> length b < 2 ^ 31 \<and> (\<forall>(k, c) \<in> set b. in_i32 k \<and> message_ok other_ok c)"

lemma sends_pair_via:
  assumes "sends (p a) g (f a)" "sends (q b) h (f' b)"
  shows "sends (put_pair p q (a, b)) (get_pair g h) (f a, f' b)"
  unfolding put_pair_def [abs_def] get_pair_def [abs_def] split
  by (rule sends_seq [OF assms(1)], rule sends_last [OF assms(2)], simp)

lemma sends_key_cmd_batch [sends]:
  assumes "batch_ok other_ok b" "length stack = 9" "others_fit kind_of put_other get_other other_ok"
  shows "sends (put_key_cmd_batch kind_of put_other b) (get_key_cmd_batch kind_of get_other stack) (map (map_prod id arrived) b)"
  unfolding put_key_cmd_batch_def get_key_cmd_batch_def using assms
  by (intro sends_counted_via)
     (auto simp: batch_ok_def map_prod_def case_prod_unfold intro!: sends_pair_via [where f = id, simplified] sends_i32 sends_deputy)

section \<open>Messages survive the wire\<close>

text \<open>
  C26. Messages. Whatever the buffer went through before, a batch of keys and commands written to an empty
  buffer is read back in full and leaves nothing behind, and so is a single command behind a deputy: key lists,
  views, batches of identifiers and commands of other kinds as they were, the pieces of a
  transaction with the values of the keys they list. A workspace that lists the keys of all its values arrives as it was.
\<close>

theorem messages_roundtrip:
  assumes "marshal_reach m" "contents m = []" "length stack = 9" "others_fit kind_of put_other get_other other_ok"
    "batch_ok other_ok b" "message_ok other_ok c"
  shows "(\<exists>m1 m2. put_key_cmd_batch kind_of put_other b m = Some m1 \<and>
       get_key_cmd_batch kind_of get_other stack m1 = Some (map (map_prod id arrived) b, m2) \<and> contents m2 = []) \<and>
    (\<exists>m1 m2. put_deputy kind_of put_other c m = Some m1 \<and>
       get_deputy kind_of get_other stack m1 = Some (arrived c, m2) \<and> contents m2 = []) \<and>
    (\<forall>p. piece_ok p \<and> ws_keys (wp_input p) = map fst (ws_values (wp_input p)) \<longrightarrow> arrived_piece p = p)"
proof (intro conjI allI impI)
  have ok: "marshal_ok m" by (rule marshal_reach_ok [OF assms(1)])
  show "\<exists>m1 m2. put_key_cmd_batch kind_of put_other b m = Some m1 \<and>
       get_key_cmd_batch kind_of get_other stack m1 = Some (map (map_prod id arrived) b, m2) \<and> contents m2 = []"
    by (rule sends_roundtrip [OF sends_key_cmd_batch [OF assms(5,3,4)] ok assms(2)])
  show "\<exists>m1 m2. put_deputy kind_of put_other c m = Some m1 \<and>
       get_deputy kind_of get_other stack m1 = Some (arrived c, m2) \<and> contents m2 = []"
    by (rule sends_roundtrip [OF sends_deputy [OF assms(6,3,4)] ok assms(2)])
  fix p assume "piece_ok p \<and> ws_keys (wp_input p) = map fst (ws_values (wp_input p))"
  then have "known_values (wp_input p) = ws_values (wp_input p)"
    by (intro known_values_all) (auto simp: piece_ok_def workspace_ok_def)
  then show "arrived_piece p = p" by (simp add: arrived_piece_def)
qed

text \<open>A batch is itself a command: batches of batches fit, one level at a time.\<close>

lemma batches_fit:
  assumes "others_fit kind_of put_other get_other other_ok" "length stack = 9"
  shows "others_fit (\<lambda>_. 15) (put_key_cmd_batch kind_of put_other) (\<lambda>_. get_key_cmd_batch kind_of get_other stack)
     (\<lambda>b. batch_ok other_ok b \<and> map (map_prod id arrived) b = b)"
proof -
  have "sends (put_key_cmd_batch kind_of put_other b) (get_key_cmd_batch kind_of get_other stack) b"
    if "batch_ok other_ok b" "map (map_prod id arrived) b = b" for b
    using sends_key_cmd_batch [OF that(1) assms(2,1)] unfolding that(2) .
  then show ?thesis by (simp add: others_fit_def)
qed

theorem messages_roundtrip_witness:
  "\<exists>m1 m2. put_deputy (\<lambda>_. 15) (put_key_cmd_batch (\<lambda>_ :: unit. 1) (\<lambda>_ _. None)) (Other [(3, VecRec [5, -6])]) new_marshal = Some m1 \<and>
     get_deputy (\<lambda>_. 15) (\<lambda>_. get_key_cmd_batch (\<lambda>_ :: unit. 1) (\<lambda>_ _. None) (replicate 9 0)) (replicate 9 0) m1 =
       Some (Other [(3, VecRec [5, -6])], m2) \<and> contents m2 = []"
proof -
  have s: "length (replicate 9 (0 :: byte)) = 9" "contents new_marshal = []" by (simp_all add: new_marshal_def)
  have "others_fit (\<lambda>_ :: unit. 1) (\<lambda>_ _. None) (\<lambda>_ _. None) (\<lambda>_. False)" by (simp add: others_fit_def)
  note fit = batches_fit [OF this s(1)]
  have b: "batch_ok ok []" for ok :: "(key_t \<times> unit deputy_cmd) list \<Rightarrow> bool" by (simp add: batch_ok_def)
  have "message_ok (\<lambda>b :: (key_t \<times> unit deputy_cmd) list. batch_ok (\<lambda>_. False) b \<and> map (map_prod id arrived) b = b) (Other [(3, VecRec [5, -6])])"
    by (simp add: message_ok_def batch_ok_def arrived_def)
  from messages_roundtrip [OF reach_new s(2,1) fit b this] show ?thesis by (simp add: arrived_def)
qed

end
