(* ===== verification/SwiftPaxos.thy ===== *)
theory SwiftPaxos
  imports Command "HOL-Library.Signed_Division"
begin

text \<open>
  SwiftPaxos (\<^verbatim>\<open>swiftpaxos/server.cc\<close>, \<^verbatim>\<open>swiftpaxos/coordinator.cc\<close>): every replica computes the dependency of
  a command and tells it to all others; the command is committed when enough replicas endorse
  the dependency of the leader. Sites are integers. Broadcasts and calls to the application are appended to
  lists of the server; a commit callback is a number that is appended to \<open>sw_called\<close> when it runs. The tags of the profiler
  and the field \<^verbatim>\<open>is_slow\<close>, which nothing reads, are left out.
\<close>

section \<open>State\<close>

abbreviation (input) START :: int where "START \<equiv> 0"
abbreviation (input) PRE_ACCEPT :: int where "PRE_ACCEPT \<equiv> 1"
abbreviation (input) ACCEPT :: int where "ACCEPT \<equiv> 2"
abbreviation (input) COMMIT :: int where "COMMIT \<equiv> 3"

record swift_key_info =
  ki_last_write :: "u64 list"
  ki_last_cmd :: "u64 list"

record swift_ack =
  ack_replica :: int
  ack_ballot :: ballot_t
  ack_cmd_id :: u64
  ack_dep :: "u64 list"
  ack_seqnum :: int
  ack_key :: key_t

record swift_desc =
  sd_phase :: int
  sd_cmd :: "marshallable option"
  sd_cmd_id :: u64
  sd_key :: key_t
  sd_seqnum :: int
  my_dep :: "u64 list"
  my_dep_set :: bool
  leader_dep :: "u64 list"
  leader_acked :: bool
  slow_ack_sent :: bool
  fast_acks :: "(int \<times> u64 list) list"
  slow_acks :: "int list"
  sd_delivered :: bool
  sd_committed :: bool
  sd_callback :: "nat option"

text \<open>An entry of \<^verbatim>\<open>SwiftRecoveryState\<close>, whose parallel vectors are filled together.\<close>

record swift_entry =
  en_cmd_id :: u64
  en_phase :: int
  en_key :: key_t
  en_dep :: "u64 list"
  en_cmd :: "marshallable option"

datatype swift_msg =
    FastAckMsg swift_ack
  | SlowAckMsg int ballot_t u64
  | NewLeaderMsg int ballot_t
  | NewLeaderAckMsg int int ballot_t ballot_t "swift_entry list"
  | SyncMsg int ballot_t "swift_entry list"
  | AcksMsg int "swift_ack list" "swift_ack list"

record swift_server =
  sw_n :: nat
  sw_loc :: int
  sw_ballot :: ballot_t
  sw_cballot :: ballot_t
  sw_recovering :: bool
  sw_seqnum :: int
  sw_keys :: "(key_t \<times> swift_key_info) list"
  sw_descs :: "(u64 \<times> swift_desc) list"
  newleader_acks :: "(int \<times> ballot_t \<times> swift_entry list) list"
  sync_broadcast_done :: bool
  batch_enabled :: bool
  pending_fast :: "swift_ack list"
  pending_slow :: "swift_ack list"
  sw_sent :: "swift_msg list"
  sw_applied :: "marshallable list"
  sw_called :: "nat list"

definition new_swift_desc :: swift_desc where
  "new_swift_desc = \<lparr>sd_phase = START, sd_cmd = None, sd_cmd_id = 0, sd_key = 0, sd_seqnum = 0, my_dep = [],
     my_dep_set = False, leader_dep = [], leader_acked = False, slow_ack_sent = False, fast_acks = [], slow_acks = [],
     sd_delivered = False, sd_committed = False, sd_callback = None\<rparr>"

definition new_swift_server :: "nat \<Rightarrow> int \<Rightarrow> bool \<Rightarrow> swift_server" where
  "new_swift_server n loc batch = \<lparr>sw_n = n, sw_loc = loc, sw_ballot = 0, sw_cballot = 0, sw_recovering = False,
     sw_seqnum = 0, sw_keys = [], sw_descs = [], newleader_acks = [], sync_broadcast_done = False,
     batch_enabled = batch, pending_fast = [], pending_slow = [], sw_sent = [], sw_applied = [], sw_called = []\<rparr>"

definition FastQuorum :: "swift_server \<Rightarrow> nat" where
  "FastQuorum s = 3 * sw_n s div 4 + 1"

definition SlowQuorum :: "swift_server \<Rightarrow> nat" where
  "SlowQuorum s = sw_n s div 2 + 1"

definition Leader :: "swift_server \<Rightarrow> int" where
  "Leader s = sw_ballot s smod int (sw_n s)"

definition IsSwiftLeader :: "swift_server \<Rightarrow> bool" where
  "IsSwiftLeader s \<longleftrightarrow> sw_loc s = Leader s"

text \<open>\<^verbatim>\<open>cmd_descs_[cmd_id]\<close>, and a change of the descriptor it refers to.\<close>

definition desc_of :: "u64 \<Rightarrow> swift_server \<Rightarrow> swift_desc" where
  "desc_of cid s = at_default new_swift_desc (sw_descs s) cid"

definition put_desc :: "u64 \<Rightarrow> swift_desc \<Rightarrow> swift_server \<Rightarrow> swift_server" where
  "put_desc cid d s = s\<lparr>sw_descs := AList.update cid d (sw_descs s)\<rparr>"

section \<open>Dependencies\<close>

definition GetDep :: "key_t \<Rightarrow> u64 \<Rightarrow> bool \<Rightarrow> swift_server \<Rightarrow> u64 list" where
  "GetDep k cid w s =
     (case map_of (sw_keys s) k of
        None \<Rightarrow> []
      | Some i \<Rightarrow> let d = (if w then ki_last_cmd i else ki_last_write i)
                  in if d \<noteq> [] \<and> hd d \<noteq> cid then d else [])"

definition TrackKey :: "key_t \<Rightarrow> u64 \<Rightarrow> bool \<Rightarrow> swift_server \<Rightarrow> swift_server" where
  "TrackKey k cid w s =
     (let i = at_default \<lparr>ki_last_write = [], ki_last_cmd = []\<rparr> (sw_keys s) k
      in s\<lparr>sw_keys := AList.update k \<lparr>ki_last_write = (if w then [cid] else ki_last_write i), ki_last_cmd = [cid]\<rparr> (sw_keys s)\<rparr>)"

definition DepsEqual :: "u64 list \<Rightarrow> u64 list \<Rightarrow> bool" where
  "DepsEqual a b \<longleftrightarrow> length a = length b \<and> sort a = sort b"

section \<open>Sending acknowledgements\<close>

definition send_msg :: "swift_msg \<Rightarrow> swift_server \<Rightarrow> swift_server" where
  "send_msg m s = s\<lparr>sw_sent := sw_sent s @ [m]\<rparr>"

definition EnqueueFastAck :: "swift_ack \<Rightarrow> swift_server \<Rightarrow> swift_server" where
  "EnqueueFastAck ack s =
     (if \<not> batch_enabled s then send_msg (FastAckMsg ack) s
      else s\<lparr>pending_fast := pending_fast s @ [ack]\<rparr>)"

definition EnqueueLightSlowAck :: "int \<Rightarrow> ballot_t \<Rightarrow> u64 \<Rightarrow> swift_server \<Rightarrow> swift_server" where
  "EnqueueLightSlowAck rep bal cid s =
     (if \<not> batch_enabled s then send_msg (SlowAckMsg (sw_loc s) bal cid) s
      else s\<lparr>pending_slow := pending_slow s @
        [\<lparr>ack_replica = rep, ack_ballot = bal, ack_cmd_id = cid, ack_dep = [], ack_seqnum = 0, ack_key = 0\<rparr>]\<rparr>)"

definition DrainBatcher :: "swift_server \<Rightarrow> swift_server" where
  "DrainBatcher s =
     (if pending_fast s = [] \<and> pending_slow s = [] then s
      else send_msg (AcksMsg (sw_loc s) (pending_fast s) (pending_slow s)) (s\<lparr>pending_fast := [], pending_slow := []\<rparr>))"

definition MaybeSendLightSlowAck :: "u64 \<Rightarrow> u64 list \<Rightarrow> swift_server \<Rightarrow> swift_server" where
  "MaybeSendLightSlowAck cid dep s =
     (let d = desc_of cid s
      in if sw_loc s = Leader s \<or> slow_ack_sent d \<or> sd_committed d \<or> sd_delivered d \<or> \<not> my_dep_set d then s
         else let fast = True; slow = True; neq = (\<not> DepsEqual (my_dep d) dep)
              in if \<not> (slow \<or> fast \<and> neq) then s
                 else EnqueueLightSlowAck (sw_loc s) (sw_ballot s) cid
                   (put_desc cid (d\<lparr>slow_ack_sent := True, slow_acks := List.insert (sw_loc s) (slow_acks d)\<rparr>) s))"

section \<open>Committing and delivering\<close>

definition Deliver :: "u64 \<Rightarrow> swift_server \<Rightarrow> swift_server" where
  "Deliver cid s =
     (let d = desc_of cid s
      in if sd_delivered d then s
         else let s1 = put_desc cid (d\<lparr>sd_delivered := True\<rparr>) s
              in s1\<lparr>sw_applied := sw_applied s1 @ (case sd_cmd d of None \<Rightarrow> [] | Some c \<Rightarrow> [c]),
                    sw_called := sw_called s1 @ (case sd_callback d of None \<Rightarrow> [] | Some f \<Rightarrow> [f])\<rparr>)"

definition matching :: "swift_desc \<Rightarrow> nat" where
  "matching d = length (filter (\<lambda>(r, dep). DepsEqual dep (leader_dep d)) (fast_acks d))"

definition endorsers :: "swift_desc \<Rightarrow> int list" where
  "endorsers d = fold (\<lambda>(r, dep) es. if DepsEqual dep (leader_dep d) then List.insert r es else es) (fast_acks d) (slow_acks d)"

definition fire_commit :: "u64 \<Rightarrow> swift_server \<Rightarrow> swift_server" where
  "fire_commit cid s = Deliver cid (put_desc cid ((desc_of cid s)\<lparr>sd_phase := COMMIT, sd_committed := True\<rparr>) s)"

definition CheckCommit :: "u64 \<Rightarrow> swift_server \<Rightarrow> swift_server" where
  "CheckCommit cid s =
     (let d = desc_of cid s
      in if sd_committed d \<or> \<not> leader_acked d then s
         else if matching d \<ge> FastQuorum s then fire_commit cid s
         else if length (endorsers d) \<ge> SlowQuorum s then fire_commit cid s
         else s)"

definition OnFastAck :: "swift_ack \<Rightarrow> swift_server \<Rightarrow> swift_server" where
  "OnFastAck ack s =
     (let cid = ack_cmd_id ack; d = desc_of cid s; s0 = put_desc cid d s
      in if sd_committed d \<or> sd_delivered d then s0
         else let d1 = d\<lparr>fast_acks := (if map_of (fast_acks d) (ack_replica ack) = None
                                       then fast_acks d @ [(ack_replica ack, ack_dep ack)] else fast_acks d)\<rparr>;
                  s1 = (if ack_replica ack = Leader s0
                        then MaybeSendLightSlowAck cid (ack_dep ack)
                          (put_desc cid (d1\<lparr>sd_seqnum := (if ack_seqnum ack > 0 then ack_seqnum ack else sd_seqnum d1),
                                            leader_dep := ack_dep ack, leader_acked := True\<rparr>) s0)
                        else put_desc cid d1 s0)
              in CheckCommit cid s1)"

definition OnLightSlowAck :: "int \<Rightarrow> ballot_t \<Rightarrow> u64 \<Rightarrow> swift_server \<Rightarrow> swift_server" where
  "OnLightSlowAck rep bal cid s =
     (let d = desc_of cid s; s0 = put_desc cid d s
      in if sd_committed d \<or> sd_delivered d \<or> bal \<noteq> sw_ballot s then s0
         else CheckCommit cid (put_desc cid (d\<lparr>slow_acks := List.insert rep (slow_acks d)\<rparr>) s0))"

definition OnBatchedAcks :: "int \<Rightarrow> swift_ack list \<Rightarrow> swift_ack list \<Rightarrow> swift_server \<Rightarrow> swift_server" where
  "OnBatchedAcks sender fas sas s =
     fold (\<lambda>a. OnLightSlowAck sender (ack_ballot a) (ack_cmd_id a)) sas
       (fold (\<lambda>a. OnFastAck (a\<lparr>ack_replica := sender\<rparr>)) fas s)"

section \<open>Proposing\<close>

definition propose_desc :: "u64 \<Rightarrow> key_t \<Rightarrow> marshallable \<Rightarrow> nat option \<Rightarrow> swift_desc \<Rightarrow> swift_desc" where
  "propose_desc cid k cmd cb d =
     (let d1 = (if sd_phase d = START then d\<lparr>sd_phase := PRE_ACCEPT, sd_cmd := Some cmd, sd_cmd_id := cid, sd_key := k\<rparr> else d)
      in if cb \<noteq> None \<and> sd_callback d1 = None then d1\<lparr>sd_callback := cb\<rparr> else d1)"

text \<open>The vote of this replica: its dependency, recorded here and sent to the others.\<close>

definition self_vote :: "u64 \<Rightarrow> key_t \<Rightarrow> bool \<Rightarrow> swift_desc \<Rightarrow> swift_server \<Rightarrow> swift_server" where
  "self_vote cid k w d s =
     (let dep = GetDep k cid w s;
          s1 = TrackKey k cid w s;
          fresh = (IsSwiftLeader s1 \<and> sd_seqnum d = 0);
          s2 = s1\<lparr>sw_seqnum := (if fresh then sw_seqnum s1 + 1 else sw_seqnum s1)\<rparr>;
          seq = (if fresh then sw_seqnum s2 else sd_seqnum d);
          ack = \<lparr>ack_replica = sw_loc s2, ack_ballot = sw_ballot s2, ack_cmd_id = cid, ack_dep = dep, ack_seqnum = seq, ack_key = 0\<rparr>;
          s3 = OnFastAck ack (put_desc cid (d\<lparr>sd_seqnum := seq, my_dep := dep, my_dep_set := True\<rparr>) s2)
      in EnqueueFastAck (ack\<lparr>ack_seqnum := sd_seqnum (desc_of cid s3), ack_key := k\<rparr>) s3)"

definition OnPropose :: "marshallable \<Rightarrow> nat option \<Rightarrow> swift_server \<Rightarrow> swift_server option" where
  "OnPropose cmd cb s =
     (if sw_recovering s then Some s
      else do {
        cid \<leftarrow> GetCombinedCmdID (Some cmd);
        k \<leftarrow> GetKey (Some cmd);
        c \<leftarrow> SimpleRWCommand (Some cmd);
        let d = desc_of cid s;
        let s0 = put_desc cid d s;
        if sd_committed d \<or> sd_delivered d
        then Some (s0\<lparr>sw_called := sw_called s0 @ (case cb of None \<Rightarrow> [] | Some f \<Rightarrow> [f])\<rparr>)
        else
          let s4 = self_vote cid k (IsWrite c) (propose_desc cid k cmd cb d) s0;
              d4 = desc_of cid s4
          in Some (if leader_acked d4 \<and> \<not> slow_ack_sent d4 \<and> sw_loc s4 \<noteq> Leader s4
                   then MaybeSendLightSlowAck cid (leader_dep d4) s4 else s4)})"

text \<open>\<^verbatim>\<open>Submit\<close> of the coordinator beside this server; the proposal then goes to every replica.\<close>

definition SwiftSubmit :: "marshallable \<Rightarrow> nat \<Rightarrow> swift_server \<Rightarrow> swift_server option" where
  "SwiftSubmit cmd f s =
     do {cid \<leftarrow> GetCombinedCmdID (Some cmd);
         Some (put_desc cid ((desc_of cid s)\<lparr>sd_callback := Some f\<rparr>) s)}"

section \<open>Recovery\<close>

definition snapshot_entry :: "swift_desc \<Rightarrow> swift_entry" where
  "snapshot_entry d = \<lparr>en_cmd_id = sd_cmd_id d, en_phase = sd_phase d, en_key = sd_key d,
     en_dep = (if leader_dep d = [] then my_dep d else leader_dep d), en_cmd = sd_cmd d\<rparr>"

definition SnapshotLocalState :: "swift_server \<Rightarrow> swift_entry list" where
  "SnapshotLocalState s = map snapshot_entry (filter (\<lambda>d. sd_phase d \<noteq> START \<and> sd_cmd d \<noteq> None) (map snd (sw_descs s)))"

definition install_entry :: "swift_entry \<Rightarrow> swift_server \<Rightarrow> swift_server option" where
  "install_entry e s =
     do {let cid = en_cmd_id e;
         let d = desc_of cid s;
         let d1 = d\<lparr>sd_phase := en_phase e, sd_cmd := (if sd_cmd d = None then en_cmd e else sd_cmd d), sd_cmd_id := cid,
                    sd_key := en_key e, leader_dep := en_dep e, leader_acked := True\<rparr>;
         let s1 = put_desc cid d1 s;
         s2 \<leftarrow> (if sd_phase d1 \<ge> ACCEPT
               then do {w \<leftarrow> (case sd_cmd d1 of None \<Rightarrow> Some False | Some c \<Rightarrow> map_option IsWrite (SimpleRWCommand (Some c)));
                        Some (TrackKey (sd_key d1) cid w s1)}
               else Some s1);
         Some (if sd_phase d1 = COMMIT \<and> \<not> sd_committed d1
               then Deliver cid (put_desc cid (d1\<lparr>sd_committed := True\<rparr>) s2) else s2)}"

fun install_entries :: "swift_entry list \<Rightarrow> swift_server \<Rightarrow> swift_server option" where
  "install_entries [] s = Some s"
| "install_entries (e # es) s = do {s1 \<leftarrow> install_entry e s; install_entries es s1}"

definition InstallRecoveryState :: "swift_entry list \<Rightarrow> swift_server \<Rightarrow> swift_server option" where
  "InstallRecoveryState st s =
     install_entries st
       (s\<lparr>sw_keys := [], sw_descs := filter (\<lambda>(cid, d). cid \<in> set (map en_cmd_id st) \<or> sd_committed d) (sw_descs s)\<rparr>)"

text \<open>The smallest ballot from \<open>b\<close> on that belongs to this replica. The loop need not end when there is none.\<close>

partial_function (option) own_ballot :: "nat \<Rightarrow> int \<Rightarrow> int \<Rightarrow> int option" where
  "own_ballot n loc b = (if b smod int n = loc then Some b else own_ballot n loc (b + 1))"

declare own_ballot.simps [code]

definition TriggerRecovery :: "swift_server \<Rightarrow> swift_server option" where
  "TriggerRecovery s =
     do {b \<leftarrow> own_ballot (sw_n s) (sw_loc s) (sw_ballot s + 1);
         let new = (if b \<le> sw_ballot s then b + int (sw_n s) else b);
         let s1 = s\<lparr>sw_ballot := new, sw_recovering := True, newleader_acks := [], sync_broadcast_done := False\<rparr>;
         let s2 = s1\<lparr>newleader_acks := [(sw_loc s1, sw_cballot s1, SnapshotLocalState s1)]\<rparr>;
         Some (send_msg (NewLeaderMsg (sw_loc s2) new) s2)}"

definition OnNewLeaderRecv :: "int \<Rightarrow> ballot_t \<Rightarrow> swift_server \<Rightarrow> swift_server" where
  "OnNewLeaderRecv rep bal s =
     (if bal \<le> sw_ballot s then s
      else let s1 = s\<lparr>sw_ballot := bal, sw_recovering := True\<rparr>
           in send_msg (NewLeaderAckMsg rep (sw_loc s1) (sw_ballot s1) (sw_cballot s1) (SnapshotLocalState s1)) s1)"

text \<open>The merge: of the replies with the highest committed ballot, the entry of the highest phase for each command.\<close>

definition merge_entry :: "swift_entry \<Rightarrow> (u64 \<times> swift_entry) list \<Rightarrow> (u64 \<times> swift_entry) list" where
  "merge_entry e best =
     (if en_phase e \<noteq> ACCEPT \<and> en_phase e \<noteq> COMMIT then best
      else case map_of best (en_cmd_id e) of
             None \<Rightarrow> AList.update (en_cmd_id e) e best
           | Some b \<Rightarrow> if en_phase e > en_phase b then AList.update (en_cmd_id e) e best else best)"

definition max_cballot :: "(int \<times> ballot_t \<times> swift_entry list) list \<Rightarrow> ballot_t" where
  "max_cballot acks = fold (\<lambda>(r, cb, st) m. if cb > m then cb else m) (sort_key fst acks) (- 1)"

definition merge_states :: "(int \<times> ballot_t \<times> swift_entry list) list \<Rightarrow> swift_entry list" where
  "merge_states acks =
     (let es = concat (map (\<lambda>(r, cb, st). if cb = max_cballot acks then st else []) (sort_key fst acks))
      in map snd (sort_key fst (fold merge_entry es [])))"

definition OnNewLeaderAckRecv :: "int \<Rightarrow> ballot_t \<Rightarrow> ballot_t \<Rightarrow> swift_entry list \<Rightarrow> swift_server \<Rightarrow> swift_server option" where
  "OnNewLeaderAckRecv rep bal cbal st s =
     (if bal \<noteq> sw_ballot s \<or> \<not> sw_recovering s \<or> sync_broadcast_done s then Some s
      else let s1 = s\<lparr>newleader_acks := AList.update rep (cbal, st) (newleader_acks s)\<rparr>
           in if length (newleader_acks s1) < SlowQuorum s1 then Some s1
              else let merged = merge_states (newleader_acks s1)
                   in do {s2 \<leftarrow> InstallRecoveryState merged (s1\<lparr>sw_cballot := sw_ballot s1, sync_broadcast_done := True\<rparr>);
                          Some (send_msg (SyncMsg (sw_loc s2) (sw_ballot s2) merged) (s2\<lparr>sw_recovering := False\<rparr>))})"

definition OnSyncRecv :: "int \<Rightarrow> ballot_t \<Rightarrow> swift_entry list option \<Rightarrow> swift_server \<Rightarrow> swift_server option" where
  "OnSyncRecv rep bal st s =
     (if bal < sw_ballot s then Some s
      else do {s1 \<leftarrow> (case st of None \<Rightarrow> Some (s\<lparr>sw_ballot := bal, sw_cballot := bal\<rparr>)
                              | Some es \<Rightarrow> InstallRecoveryState es (s\<lparr>sw_ballot := bal, sw_cballot := bal\<rparr>));
               Some (s1\<lparr>sw_recovering := False, newleader_acks := [], sync_broadcast_done := False\<rparr>)})"

text \<open>What reaches a replica.\<close>

datatype swift_event =
    EvSubmit marshallable nat
  | EvPropose marshallable
  | EvFastAck swift_ack
  | EvSlowAck int ballot_t u64
  | EvAcks int "swift_ack list" "swift_ack list"
  | EvDrain
  | EvTrigger
  | EvNewLeader int ballot_t
  | EvNewLeaderAck int ballot_t ballot_t "swift_entry list"
  | EvSync int ballot_t "swift_entry list option"

fun swift_handle :: "swift_event \<Rightarrow> swift_server \<Rightarrow> swift_server option" where
  "swift_handle (EvSubmit cmd f) s = SwiftSubmit cmd f s"
| "swift_handle (EvPropose cmd) s = OnPropose cmd None s"
| "swift_handle (EvFastAck a) s = Some (OnFastAck a s)"
| "swift_handle (EvSlowAck r b c) s = Some (OnLightSlowAck r b c s)"
| "swift_handle (EvAcks r fas sas) s = Some (OnBatchedAcks r fas sas s)"
| "swift_handle EvDrain s = Some (DrainBatcher s)"
| "swift_handle EvTrigger s = TriggerRecovery s"
| "swift_handle (EvNewLeader r b) s = Some (OnNewLeaderRecv r b s)"
| "swift_handle (EvNewLeaderAck r b cb st) s = OnNewLeaderAckRecv r b cb st s"
| "swift_handle (EvSync r b st) s = OnSyncRecv r b st s"

fun swift_run :: "swift_event list \<Rightarrow> swift_server \<Rightarrow> swift_server option" where
  "swift_run [] s = Some s"
| "swift_run (e # es) s = do {s1 \<leftarrow> swift_handle e s; swift_run es s1}"

section \<open>Descriptors\<close>

lemma put_desc_fields [simp]:
  "sw_n (put_desc cid d s) = sw_n s" "sw_loc (put_desc cid d s) = sw_loc s" "sw_ballot (put_desc cid d s) = sw_ballot s"
  "sw_cballot (put_desc cid d s) = sw_cballot s" "sw_recovering (put_desc cid d s) = sw_recovering s"
  "sw_keys (put_desc cid d s) = sw_keys s" "sw_applied (put_desc cid d s) = sw_applied s" "sw_called (put_desc cid d s) = sw_called s"
  "sw_sent (put_desc cid d s) = sw_sent s" "newleader_acks (put_desc cid d s) = newleader_acks s" "batch_enabled (put_desc cid d s) = batch_enabled s"
  "distinct (keys_of (sw_descs s)) \<Longrightarrow> distinct (keys_of (sw_descs (put_desc cid d s)))"
  by (simp_all add: put_desc_def)

lemma desc_of_put [simp]: "desc_of c (put_desc cid d s) = (if c = cid then d else desc_of c s)"
  by (simp add: desc_of_def put_desc_def)

lemma desc_of_frame [simp]:
  "desc_of c (s\<lparr>sw_n := x0\<rparr>) = desc_of c s" "desc_of c (s\<lparr>sw_loc := x1\<rparr>) = desc_of c s"
  "desc_of c (s\<lparr>sw_ballot := x2\<rparr>) = desc_of c s" "desc_of c (s\<lparr>sw_cballot := x3\<rparr>) = desc_of c s"
  "desc_of c (s\<lparr>sw_recovering := x4\<rparr>) = desc_of c s" "desc_of c (s\<lparr>sw_seqnum := x5\<rparr>) = desc_of c s"
  "desc_of c (s\<lparr>sw_keys := x6\<rparr>) = desc_of c s" "desc_of c (s\<lparr>newleader_acks := x7\<rparr>) = desc_of c s"
  "desc_of c (s\<lparr>sync_broadcast_done := x8\<rparr>) = desc_of c s" "desc_of c (s\<lparr>batch_enabled := x9\<rparr>) = desc_of c s"
  "desc_of c (s\<lparr>pending_fast := x10\<rparr>) = desc_of c s" "desc_of c (s\<lparr>pending_slow := x11\<rparr>) = desc_of c s"
  "desc_of c (s\<lparr>sw_sent := x12\<rparr>) = desc_of c s" "desc_of c (s\<lparr>sw_applied := x13\<rparr>) = desc_of c s"
  "desc_of c (s\<lparr>sw_called := x14\<rparr>) = desc_of c s"
  by (simp_all add: desc_of_def)

lemma desc_of_cong: "sw_descs s = sw_descs s' \<Longrightarrow> desc_of c s = desc_of c s'"
  by (simp add: desc_of_def)

lemma send_msg_fields [simp]:
  "sw_descs (send_msg m s) = sw_descs s" "sw_n (send_msg m s) = sw_n s" "sw_loc (send_msg m s) = sw_loc s" "sw_ballot (send_msg m s) = sw_ballot s"
  "sw_applied (send_msg m s) = sw_applied s" "sw_recovering (send_msg m s) = sw_recovering s" "sw_sent (send_msg m s) = sw_sent s @ [m]"
  "batch_enabled (send_msg m s) = batch_enabled s" "desc_of c (send_msg m s) = desc_of c s"
  "newleader_acks (send_msg m s) = newleader_acks s" "sw_cballot (send_msg m s) = sw_cballot s"
  by (simp_all add: send_msg_def)

lemma TrackKey_fields [simp]:
  "sw_descs (TrackKey k cid w s) = sw_descs s" "sw_n (TrackKey k cid w s) = sw_n s" "sw_loc (TrackKey k cid w s) = sw_loc s"
  "sw_ballot (TrackKey k cid w s) = sw_ballot s" "sw_applied (TrackKey k cid w s) = sw_applied s" "sw_recovering (TrackKey k cid w s) = sw_recovering s"
  "sw_sent (TrackKey k cid w s) = sw_sent s" "batch_enabled (TrackKey k cid w s) = batch_enabled s" "desc_of c (TrackKey k cid w s) = desc_of c s"
  "newleader_acks (TrackKey k cid w s) = newleader_acks s" "sw_cballot (TrackKey k cid w s) = sw_cballot s"
  by (simp_all add: TrackKey_def Let_def)

lemma new_swift_desc_fields [simp]:
  "sd_phase new_swift_desc = START" "sd_cmd new_swift_desc = None" "my_dep_set new_swift_desc = False" "leader_acked new_swift_desc = False"
  "slow_ack_sent new_swift_desc = False" "fast_acks new_swift_desc = []" "slow_acks new_swift_desc = []" "sd_delivered new_swift_desc = False"
  "sd_committed new_swift_desc = False" "sd_callback new_swift_desc = None" "my_dep new_swift_desc = []" "leader_dep new_swift_desc = []"
  by (simp_all add: new_swift_desc_def)

end
