(* ===== verification/SwiftDelivery.thy ===== *)
theory SwiftDelivery
  imports SwiftPaxos
begin

text \<open>
  SwiftPaxos: the search for a ballot of its own ends (\<open>TriggerRecovery_owns_ballot\<close>), and under any messages a replica
  applies each command at most once (\<open>swift_delivers_once\<close>).
\<close>

section \<open>Ballots\<close>

lemma smod_nonneg: "0 \<le> b \<Longrightarrow> b smod int n = b mod int n"
  by (cases "b = 0") (simp_all add: smod_int_alt_def sgn_if)

lemma own_ballot_steps:
  "0 \<le> b \<Longrightarrow> 0 < n \<Longrightarrow> (b + int k) mod int n = loc \<Longrightarrow> \<forall>j < k. (b + int j) mod int n \<noteq> loc \<Longrightarrow> own_ballot n loc b = Some (b + int k)"
proof (induction k arbitrary: b)
  case 0
  then show ?case by (subst own_ballot.simps) (simp add: smod_nonneg)
next
  case (Suc k)
  have "\<forall>j < k. (b + 1 + int j) mod int n \<noteq> loc"
  proof (intro allI impI)
    fix j assume "j < k"
    then have "(b + int (Suc j)) mod int n \<noteq> loc" using Suc.prems(4) by blast
    then show "(b + 1 + int j) mod int n \<noteq> loc" by (simp add: ac_simps)
  qed
  with Suc have "own_ballot n loc (b + 1) = Some (b + 1 + int k)" by (simp add: ac_simps)
  moreover have "b smod int n \<noteq> loc" using Suc.prems by (auto simp: smod_nonneg)
  ultimately show ?case by (subst own_ballot.simps) (simp add: ac_simps)
qed

lemma own_ballot_found:
  assumes "0 \<le> b" "0 \<le> loc" "loc < int n"
  shows "\<exists>k < n. own_ballot n loc b = Some (b + int k) \<and> (b + int k) mod int n = loc \<and> (\<forall>j < k. (b + int j) mod int n \<noteq> loc)"
proof -
  define P where "P = (\<lambda>k. (b + int k) mod int n = loc)"
  define k0 where "k0 = nat ((loc - b) mod int n)"
  have "n > 0" using assms by auto
  then have k0: "int k0 = (loc - b) mod int n" "k0 < n" by (simp_all add: k0_def nat_less_iff)
  have "(b + int k0) mod int n = loc" using assms unfolding k0(1) by (simp add: mod_simps)
  then have "P k0" by (simp add: P_def)
  define k where "k = (LEAST k. P k)"
  have "P k" "k \<le> k0" "\<forall>j < k. \<not> P j"
    using \<open>P k0\<close> by (auto simp: k_def intro: LeastI Least_le dest: not_less_Least)
  then show ?thesis using own_ballot_steps [OF assms(1) \<open>n > 0\<close>, of k loc] k0(2) by (auto simp: P_def intro!: exI [of _ k])
qed

text \<open>
  Ballots of a recovery. From a ballot that is not negative, the search of a replica for its next ballot
  ends. The ballot is greater than the old one, by at most the number of replicas, it makes this replica the leader,
  there is no smaller one that does, and no other replica can choose it.
\<close>

theorem TriggerRecovery_owns_ballot:
  assumes "0 \<le> sw_ballot s" "0 \<le> sw_loc s" "sw_loc s < int (sw_n s)"
  shows "\<exists>s'. TriggerRecovery s = Some s' \<and> sw_recovering s' \<and> IsSwiftLeader s' \<and>
    sw_ballot s < sw_ballot s' \<and> sw_ballot s' \<le> sw_ballot s + int (sw_n s) \<and>
    (\<forall>x. sw_ballot s < x \<and> x < sw_ballot s' \<longrightarrow> x mod int (sw_n s) \<noteq> sw_loc s) \<and>
    (\<forall>t t'. sw_n t = sw_n s \<and> 0 \<le> sw_ballot t \<and> 0 \<le> sw_loc t \<and> sw_loc t < int (sw_n t) \<and> sw_loc t \<noteq> sw_loc s \<and>
       TriggerRecovery t = Some t' \<longrightarrow> sw_ballot t' \<noteq> sw_ballot s')"
proof -
  have trig: "sw_ballot t' mod int (sw_n t) = sw_loc t"
    if "0 \<le> sw_ballot t" "0 \<le> sw_loc t" "sw_loc t < int (sw_n t)" "TriggerRecovery t = Some t'" for t t'
    using own_ballot_found [of "sw_ballot t + 1" "sw_loc t" "sw_n t"] that
    by (auto simp: TriggerRecovery_def Let_def send_msg_def)
  obtain k where k: "k < sw_n s" "own_ballot (sw_n s) (sw_loc s) (sw_ballot s + 1) = Some (sw_ballot s + 1 + int k)"
    "(sw_ballot s + 1 + int k) mod int (sw_n s) = sw_loc s" "\<forall>j < k. (sw_ballot s + 1 + int j) mod int (sw_n s) \<noteq> sw_loc s"
    using own_ballot_found [of "sw_ballot s + 1" "sw_loc s" "sw_n s"] assms by auto
  obtain s' where s': "TriggerRecovery s = Some s'" "sw_recovering s'" "sw_ballot s' = sw_ballot s + 1 + int k" "sw_loc s' = sw_loc s" "sw_n s' = sw_n s"
    using k(2) by (simp add: TriggerRecovery_def Let_def send_msg_def)
  have "IsSwiftLeader s'" using s' k(3) assms by (simp add: IsSwiftLeader_def Leader_def smod_nonneg)
  moreover have "x mod int (sw_n s) \<noteq> sw_loc s" if "sw_ballot s < x" "x < sw_ballot s'" for x
    using k(4) [rule_format, of "nat (x - sw_ballot s - 1)"] that s'(3) by simp
  moreover have "sw_ballot t' \<noteq> sw_ballot s'" if "sw_n t = sw_n s \<and> 0 \<le> sw_ballot t \<and> 0 \<le> sw_loc t \<and> sw_loc t < int (sw_n t) \<and> sw_loc t \<noteq> sw_loc s \<and>
       TriggerRecovery t = Some t'" for t t'
    using trig [of t t'] that k(3) s'(3) by auto
  ultimately show ?thesis using s' k(1) by (intro exI [of _ s']) auto
qed

theorem TriggerRecovery_owns_ballot_witness:
  "\<exists>s'. TriggerRecovery (new_swift_server 3 2 False) = Some s' \<and> IsSwiftLeader s' \<and> sw_ballot s' \<le> 3"
  using TriggerRecovery_owns_ballot [of "new_swift_server 3 2 False"] by (auto simp: new_swift_server_def)

section \<open>Delivery\<close>

text \<open>
  A delivered command is committed, the payload of a descriptor has the identifier of the descriptor, and what was applied
  are payloads of different delivered descriptors.
\<close>

definition desc_ok :: "u64 \<Rightarrow> swift_desc \<Rightarrow> bool" where
  "desc_ok cid d \<longleftrightarrow> (sd_delivered d \<longrightarrow> sd_committed d) \<and> (\<forall>c. sd_cmd d = Some c \<longrightarrow> GetCombinedCmdID (Some c) = Some cid \<and> sd_cmd_id d = cid)"

definition entry_ok :: "swift_entry \<Rightarrow> bool" where
  "entry_ok e \<longleftrightarrow> (\<forall>c. en_cmd e = Some c \<longrightarrow> GetCombinedCmdID (Some c) = Some (en_cmd_id e))"

definition swift_inv :: "swift_server \<Rightarrow> bool" where
  "swift_inv s \<longleftrightarrow> distinct (keys_of (sw_descs s)) \<and> (\<forall>cid. desc_ok cid (desc_of cid s)) \<and>
     distinct (map (\<lambda>c. GetCombinedCmdID (Some c)) (sw_applied s)) \<and>
     (\<forall>c \<in> set (sw_applied s). \<exists>cid. GetCombinedCmdID (Some c) = Some cid \<and> sd_delivered (desc_of cid s)) \<and>
     (\<forall>(r, cb, st) \<in> set (newleader_acks s). list_all entry_ok st)"

definition event_ok :: "swift_event \<Rightarrow> bool" where
  "event_ok ev = (case ev of EvNewLeaderAck r b cb st \<Rightarrow> list_all entry_ok st | EvSync r b (Some st) \<Rightarrow> list_all entry_ok st | _ \<Rightarrow> True)"

lemma swift_inv_frame [simp]:
  "swift_inv (s\<lparr>sw_n := x0\<rparr>) = swift_inv s" "swift_inv (s\<lparr>sw_loc := x1\<rparr>) = swift_inv s"
  "swift_inv (s\<lparr>sw_ballot := x2\<rparr>) = swift_inv s" "swift_inv (s\<lparr>sw_cballot := x3\<rparr>) = swift_inv s"
  "swift_inv (s\<lparr>sw_recovering := x4\<rparr>) = swift_inv s" "swift_inv (s\<lparr>sw_seqnum := x5\<rparr>) = swift_inv s"
  "swift_inv (s\<lparr>sw_keys := x6\<rparr>) = swift_inv s"
  "swift_inv (s\<lparr>sync_broadcast_done := x8\<rparr>) = swift_inv s" "swift_inv (s\<lparr>batch_enabled := x9\<rparr>) = swift_inv s"
  "swift_inv (s\<lparr>pending_fast := x10\<rparr>) = swift_inv s" "swift_inv (s\<lparr>pending_slow := x11\<rparr>) = swift_inv s"
  "swift_inv (s\<lparr>sw_sent := x12\<rparr>) = swift_inv s" "swift_inv (s\<lparr>sw_called := x13\<rparr>) = swift_inv s"
  "swift_inv (send_msg m s) = swift_inv s" "swift_inv (TrackKey k cid w s) = swift_inv s"
  "swift_inv (EnqueueFastAck a s) = swift_inv s" "swift_inv (EnqueueLightSlowAck r b cid s) = swift_inv s"
  by (simp_all add: swift_inv_def EnqueueFastAck_def EnqueueLightSlowAck_def)

lemma desc_ok_frame [simp]:
  "desc_ok cid (d\<lparr>sd_phase := x0\<rparr>) = desc_ok cid d"
  "desc_ok cid (d\<lparr>sd_key := x2\<rparr>) = desc_ok cid d" "desc_ok cid (d\<lparr>sd_seqnum := x3\<rparr>) = desc_ok cid d"
  "desc_ok cid (d\<lparr>my_dep := x4\<rparr>) = desc_ok cid d" "desc_ok cid (d\<lparr>my_dep_set := x5\<rparr>) = desc_ok cid d"
  "desc_ok cid (d\<lparr>leader_dep := x6\<rparr>) = desc_ok cid d" "desc_ok cid (d\<lparr>leader_acked := x7\<rparr>) = desc_ok cid d"
  "desc_ok cid (d\<lparr>slow_ack_sent := x8\<rparr>) = desc_ok cid d" "desc_ok cid (d\<lparr>fast_acks := x9\<rparr>) = desc_ok cid d"
  "desc_ok cid (d\<lparr>slow_acks := x10\<rparr>) = desc_ok cid d" "desc_ok cid (d\<lparr>sd_callback := x11\<rparr>) = desc_ok cid d"
  by (simp_all add: desc_ok_def)

lemma swift_inv_put:
  assumes "swift_inv s" "desc_ok cid d" "sd_delivered (desc_of cid s) \<Longrightarrow> sd_delivered d"
  shows "swift_inv (put_desc cid d s)"
  using assms by (fastforce simp: swift_inv_def)

lemma swift_inv_desc: "swift_inv s \<Longrightarrow> desc_ok cid (desc_of cid s)"
  by (simp add: swift_inv_def)

lemma swift_inv_Deliver:
  assumes "swift_inv s" "sd_committed (desc_of cid s)"
  shows "swift_inv (Deliver cid s)"
proof (cases "sd_delivered (desc_of cid s)")
  case False
  let ?d = "desc_of cid s" and ?s1 = "put_desc cid ((desc_of cid s)\<lparr>sd_delivered := True\<rparr>) s"
  have s1: "swift_inv ?s1"
    using assms swift_inv_desc [OF assms(1), of cid] by (intro swift_inv_put) (auto simp: desc_ok_def)
  show ?thesis
  proof (cases "sd_cmd ?d")
    case None
    have "put_desc cid (?d\<lparr>sd_delivered := True\<rparr>) s\<lparr>sw_applied := sw_applied s\<rparr> = ?s1" by (simp add: put_desc_def)
    with None show ?thesis using False s1 by (simp add: Deliver_def Let_def)
  next
    case (Some c)
    have id: "GetCombinedCmdID (Some c) = Some cid" using swift_inv_desc [OF assms(1), of cid] Some by (simp add: desc_ok_def)
    have "GetCombinedCmdID (Some c) \<notin> set (map (\<lambda>c. GetCombinedCmdID (Some c)) (sw_applied s))"
    proof
      assume "GetCombinedCmdID (Some c) \<in> set (map (\<lambda>c. GetCombinedCmdID (Some c)) (sw_applied s))"
      then obtain c' where "c' \<in> set (sw_applied s)" "GetCombinedCmdID (Some c') = Some cid" using id by auto
      then show False using assms(1) False by (fastforce simp: swift_inv_def)
    qed
    then show ?thesis using s1 False Some id
      by (auto simp: Deliver_def Let_def swift_inv_def)
  qed
qed (use assms in \<open>simp add: Deliver_def\<close>)

lemma swift_inv_CheckCommit: "swift_inv s \<Longrightarrow> swift_inv (CheckCommit cid s)"
proof -
  assume i: "swift_inv s"
  have "swift_inv (put_desc cid ((desc_of cid s)\<lparr>sd_phase := COMMIT, sd_committed := True\<rparr>) s)"
    using i swift_inv_desc [OF i, of cid] by (intro swift_inv_put) (auto simp: desc_ok_def)
  then have "swift_inv (fire_commit cid s)" unfolding fire_commit_def by (rule swift_inv_Deliver) simp
  with i show ?thesis by (simp add: CheckCommit_def Let_def)
qed

lemma swift_inv_MaybeSend: "swift_inv s \<Longrightarrow> swift_inv (MaybeSendLightSlowAck cid dep s)"
  by (auto simp: MaybeSendLightSlowAck_def Let_def swift_inv_desc intro!: swift_inv_put)

lemma swift_inv_OnFastAck: "swift_inv s \<Longrightarrow> swift_inv (OnFastAck ack s)"
  by (auto simp: OnFastAck_def Let_def swift_inv_desc intro!: swift_inv_CheckCommit swift_inv_MaybeSend swift_inv_put)

lemma swift_inv_OnLightSlowAck: "swift_inv s \<Longrightarrow> swift_inv (OnLightSlowAck rep bal cid s)"
  by (auto simp: OnLightSlowAck_def Let_def swift_inv_desc intro!: swift_inv_CheckCommit swift_inv_put)

lemma swift_inv_OnBatchedAcks: "swift_inv s \<Longrightarrow> swift_inv (OnBatchedAcks r fas sas s)"
proof -
  have "swift_inv s \<Longrightarrow> swift_inv (fold (\<lambda>a. OnFastAck (a\<lparr>ack_replica := r\<rparr>)) fas s)" for s
    by (induction fas arbitrary: s) (auto intro: swift_inv_OnFastAck)
  moreover have "swift_inv s \<Longrightarrow> swift_inv (fold (\<lambda>a. OnLightSlowAck r (ack_ballot a) (ack_cmd_id a)) sas s)" for s
    by (induction sas arbitrary: s) (auto intro: swift_inv_OnLightSlowAck)
  ultimately show "swift_inv s \<Longrightarrow> ?thesis" by (simp add: OnBatchedAcks_def)
qed

lemma self_vote_eq:
  obtains seq seq' num where "self_vote cid k w d s = EnqueueFastAck
       \<lparr>ack_replica = sw_loc s, ack_ballot = sw_ballot s, ack_cmd_id = cid, ack_dep = GetDep k cid w s, ack_seqnum = seq', ack_key = k\<rparr>
     (OnFastAck \<lparr>ack_replica = sw_loc s, ack_ballot = sw_ballot s, ack_cmd_id = cid, ack_dep = GetDep k cid w s, ack_seqnum = seq, ack_key = 0\<rparr>
       (put_desc cid (d\<lparr>sd_seqnum := seq, my_dep := GetDep k cid w s, my_dep_set := True\<rparr>) ((TrackKey k cid w s)\<lparr>sw_seqnum := num\<rparr>)))"
proof (cases "IsSwiftLeader (TrackKey k cid w s) \<and> sd_seqnum d = 0")
  case True
  then show thesis using that unfolding self_vote_def Let_def by simp
next
  case False
  then show thesis using that unfolding self_vote_def Let_def by simp
qed

lemma swift_inv_self_vote:
  assumes "swift_inv s" "desc_ok cid d" "sd_delivered (desc_of cid s) \<Longrightarrow> sd_delivered d"
  shows "swift_inv (self_vote cid k w d s)"
  by (rule self_vote_eq [of cid k w d s]) (use assms in \<open>auto intro!: swift_inv_OnFastAck swift_inv_put\<close>)

lemma propose_desc_ok:
  assumes "desc_ok cid d" "GetCombinedCmdID (Some cmd) = Some cid"
  shows "desc_ok cid (propose_desc cid k cmd cb d)" "sd_delivered (propose_desc cid k cmd cb d) = sd_delivered d"
  using assms by (auto simp: propose_desc_def desc_ok_def Let_def)

lemma OnPropose_cases:
  assumes "OnPropose cmd cb s = Some s'"
  obtains "sw_recovering s" "s' = s"
  | cid f where "\<not> sw_recovering s" "GetCombinedCmdID (Some cmd) = Some cid" "sd_committed (desc_of cid s) \<or> sd_delivered (desc_of cid s)"
      "s' = (put_desc cid (desc_of cid s) s)\<lparr>sw_called := f\<rparr>"
  | cid k c s4 where "\<not> sw_recovering s" "GetCombinedCmdID (Some cmd) = Some cid" "GetKey (Some cmd) = Some k" "SimpleRWCommand (Some cmd) = Some c"
      "\<not> sd_committed (desc_of cid s)" "\<not> sd_delivered (desc_of cid s)"
      "s4 = self_vote cid k (IsWrite c) (propose_desc cid k cmd cb (desc_of cid s)) (put_desc cid (desc_of cid s) s)"
      "s' = (if leader_acked (desc_of cid s4) \<and> \<not> slow_ack_sent (desc_of cid s4) \<and> sw_loc s4 \<noteq> Leader s4
             then MaybeSendLightSlowAck cid (leader_dep (desc_of cid s4)) s4 else s4)"
proof (cases "sw_recovering s")
  case True
  then have "s' = s" using assms by (simp add: OnPropose_def)
  with True show thesis by (rule that(1))
next
  case False
  then obtain cid k c where ids: "GetCombinedCmdID (Some cmd) = Some cid" "GetKey (Some cmd) = Some k" "SimpleRWCommand (Some cmd) = Some c"
    using assms by (auto simp: OnPropose_def bind_eq_Some_conv)
  show thesis
  proof (cases "sd_committed (desc_of cid s) \<or> sd_delivered (desc_of cid s)")
    case True
    with False ids assms have "s' = (put_desc cid (desc_of cid s) s)\<lparr>sw_called := sw_called s @ (case cb of None \<Rightarrow> [] | Some f \<Rightarrow> [f])\<rparr>"
      by (simp add: OnPropose_def)
    with that(2) [OF False ids(1) True] show thesis by blast
  next
    case nc: False
    with False ids assms have "s' = (let s4 = self_vote cid k (IsWrite c) (propose_desc cid k cmd cb (desc_of cid s)) (put_desc cid (desc_of cid s) s)
      in if leader_acked (desc_of cid s4) \<and> \<not> slow_ack_sent (desc_of cid s4) \<and> sw_loc s4 \<noteq> Leader s4
         then MaybeSendLightSlowAck cid (leader_dep (desc_of cid s4)) s4 else s4)"
      by (simp add: OnPropose_def Let_def)
    with that(3) [OF False ids] nc show thesis unfolding Let_def by blast
  qed
qed

lemma swift_inv_OnPropose: "swift_inv s \<Longrightarrow> OnPropose cmd cb s = Some s' \<Longrightarrow> swift_inv s'"
proof (erule OnPropose_cases, simp)
  fix cid f
  assume "swift_inv s" "s' = (put_desc cid (desc_of cid s) s)\<lparr>sw_called := f\<rparr>"
  then show ?thesis by (auto intro!: swift_inv_put swift_inv_desc)
next
  fix cid k c s4
  assume i: "swift_inv s" and id: "GetCombinedCmdID (Some cmd) = Some cid"
    and s4: "s4 = self_vote cid k (IsWrite c) (propose_desc cid k cmd cb (desc_of cid s)) (put_desc cid (desc_of cid s) s)"
    and s': "s' = (if leader_acked (desc_of cid s4) \<and> \<not> slow_ack_sent (desc_of cid s4) \<and> sw_loc s4 \<noteq> Leader s4
             then MaybeSendLightSlowAck cid (leader_dep (desc_of cid s4)) s4 else s4)"
  have "swift_inv s4" unfolding s4
    using i propose_desc_ok [OF swift_inv_desc [OF i] id] by (intro swift_inv_self_vote swift_inv_put swift_inv_desc) auto
  then show ?thesis unfolding s' by (simp add: swift_inv_MaybeSend)
qed

lemma map_of_filter_distinct:
  "distinct (keys_of m) \<Longrightarrow> map_of (filter (\<lambda>(k, v). P k v) m) k = (case map_of m k of None \<Rightarrow> None | Some v \<Rightarrow> if P k v then Some v else None)"
proof (induction m)
  case (Cons a m)
  then have "map_of m (fst a) = None" by (simp add: map_of_eq_None_iff)
  with Cons show ?case by (auto split: option.splits)
qed simp

lemma desc_of_filter:
  "distinct (keys_of (sw_descs s)) \<Longrightarrow> desc_of cid (s\<lparr>sw_descs := filter (\<lambda>(cid, d). P cid d) (sw_descs s)\<rparr>) =
     (if map_of (sw_descs s) cid \<noteq> None \<and> P cid (desc_of cid s) then desc_of cid s else new_swift_desc)"
  by (simp add: desc_of_def at_default_def map_of_filter_distinct split: option.splits)

lemma swift_inv_erase:
  assumes "swift_inv s"
  shows "swift_inv (s\<lparr>sw_descs := filter (\<lambda>(cid, d). cid \<in> keep \<or> sd_committed d) (sw_descs s)\<rparr>)"
proof -
  let ?s = "s\<lparr>sw_descs := filter (\<lambda>(cid, d). cid \<in> keep \<or> sd_committed d) (sw_descs s)\<rparr>"
  have d: "distinct (keys_of (sw_descs s))" using assms by (simp add: swift_inv_def)
  note of = desc_of_filter [OF d, of _ "\<lambda>cid d. cid \<in> keep \<or> sd_committed d"]
  have "desc_ok cid (desc_of cid ?s)" for cid using swift_inv_desc [OF assms, of cid] by (auto simp: of desc_ok_def)
  moreover have "sd_delivered (desc_of cid ?s)" if "sd_delivered (desc_of cid s)" for cid
  proof -
    have "map_of (sw_descs s) cid \<noteq> None" using that by (auto simp: desc_of_def at_default_def split: option.splits)
    moreover have "sd_committed (desc_of cid s)" using that swift_inv_desc [OF assms, of cid] by (simp add: desc_ok_def)
    ultimately show ?thesis using that by (simp add: of)
  qed
  moreover have "distinct (keys_of (filter (\<lambda>(cid, d). cid \<in> keep \<or> sd_committed d) (sw_descs s)))"
    using d by (simp add: distinct_map_filter)
  ultimately show ?thesis using assms unfolding swift_inv_def by fastforce
qed

lemma swift_inv_install:
  assumes "swift_inv s" "entry_ok e" "install_entry e s = Some s'"
  shows "swift_inv s'"
proof -
  let ?cid = "en_cmd_id e"
  define d1 where "d1 = (desc_of ?cid s)\<lparr>sd_phase := en_phase e, sd_cmd := (if sd_cmd (desc_of ?cid s) = None then en_cmd e else sd_cmd (desc_of ?cid s)), sd_cmd_id := ?cid,
                    sd_key := en_key e, leader_dep := en_dep e, leader_acked := True\<rparr>"
  have d1: "desc_ok ?cid d1" "sd_delivered d1 = sd_delivered (desc_of ?cid s)"
    using swift_inv_desc [OF assms(1), of ?cid] assms(2) by (auto simp: d1_def desc_ok_def entry_ok_def)
  obtain s2 where X: "(if sd_phase d1 \<ge> ACCEPT
        then Option.bind (case sd_cmd d1 of None \<Rightarrow> Some False | Some c \<Rightarrow> map_option IsWrite (SimpleRWCommand (Some c)))
          (\<lambda>w. Some (TrackKey (sd_key d1) ?cid w (put_desc ?cid d1 s)))
        else Some (put_desc ?cid d1 s)) = Some s2"
    and s': "s' = (if sd_phase d1 = COMMIT \<and> \<not> sd_committed d1 then Deliver ?cid (put_desc ?cid (d1\<lparr>sd_committed := True\<rparr>) s2) else s2)"
    using assms(3) unfolding install_entry_def Let_def d1_def [symmetric] by (simp only: bind_eq_Some_conv option.inject) blast
  have s2: "s2 = put_desc ?cid d1 s \<or> (\<exists>w. s2 = TrackKey (sd_key d1) ?cid w (put_desc ?cid d1 s))"
    using X by (auto simp: bind_eq_Some_conv split: if_splits)
  have "swift_inv (put_desc ?cid d1 s)" using assms(1) d1 by (intro swift_inv_put) auto
  then have i2: "swift_inv s2" "desc_of ?cid s2 = d1" using s2 by auto
  have "swift_inv (put_desc ?cid (d1\<lparr>sd_committed := True\<rparr>) s2)" using i2 d1 by (intro swift_inv_put) (auto simp: desc_ok_def)
  then show ?thesis using i2 unfolding s' by (auto intro!: swift_inv_Deliver)
qed

lemma swift_inv_Install: "swift_inv s \<Longrightarrow> list_all entry_ok st \<Longrightarrow> InstallRecoveryState st s = Some s' \<Longrightarrow> swift_inv s'"
proof -
  have all: "swift_inv s \<Longrightarrow> list_all entry_ok st \<Longrightarrow> install_entries st s = Some s' \<Longrightarrow> swift_inv s'" for s
    by (induction st arbitrary: s) (auto simp: bind_eq_Some_conv intro: swift_inv_install)
  assume "swift_inv s" "list_all entry_ok st" "InstallRecoveryState st s = Some s'"
  with swift_inv_erase [of "s\<lparr>sw_keys := []\<rparr>" "set (map en_cmd_id st)"] show ?thesis
    unfolding InstallRecoveryState_def by (intro all) auto
qed

lemma set_update_sub: "x \<in> set (AList.update k v m) \<Longrightarrow> x = (k, v) \<or> x \<in> set m"
  by (induction m) (auto split: if_splits)

lemma merge_entry_ok: "entry_ok e \<Longrightarrow> \<forall>x \<in> snd ` set best. entry_ok x \<Longrightarrow> \<forall>x \<in> snd ` set (merge_entry e best). entry_ok x"
  by (auto simp: merge_entry_def split: option.splits if_splits dest!: set_update_sub)

lemma merge_states_ok:
  assumes "\<forall>(r, cb, st) \<in> set acks. list_all entry_ok st"
  shows "list_all entry_ok (merge_states acks)"
proof -
  have fold: "\<forall>x \<in> snd ` set best. entry_ok x \<Longrightarrow> list_all entry_ok es \<Longrightarrow> \<forall>x \<in> snd ` set (fold merge_entry es best). entry_ok x" for es best
  proof (induction es arbitrary: best)
    case (Cons e es)
    then show ?case using merge_entry_ok [of e best] by simp
  qed simp
  have "list_all entry_ok (concat (map (\<lambda>(r, cb, st). if cb = max_cballot acks then st else []) (sort_key fst acks)))"
    using assms by (auto simp: list_all_iff)
  from fold [OF _ this, of "[]"] show ?thesis by (simp add: merge_states_def list_all_iff Let_def)
qed

lemma SnapshotLocalState_ok: "swift_inv s \<Longrightarrow> list_all entry_ok (SnapshotLocalState s)"
proof -
  assume i: "swift_inv s"
  have "entry_ok (snapshot_entry d)" if "(cid, d) \<in> set (sw_descs s)" for cid d
  proof -
    have "desc_of cid s = d" using i that by (auto simp: desc_of_def at_default_def swift_inv_def map_of_is_SomeI)
    then show ?thesis using swift_inv_desc [OF i, of cid] by (auto simp: desc_ok_def entry_ok_def snapshot_entry_def)
  qed
  then show ?thesis by (auto simp: SnapshotLocalState_def list_all_iff)
qed

lemma swift_inv_acks: "swift_inv s \<Longrightarrow> \<forall>(r, cb, st) \<in> set a. list_all entry_ok st \<Longrightarrow> swift_inv (s\<lparr>newleader_acks := a\<rparr>)"
  by (simp add: swift_inv_def)

lemma swift_inv_handle:
  assumes "swift_inv s" "event_ok ev" "swift_handle ev s = Some s'"
  shows "swift_inv s'"
proof (cases ev)
  case (EvSubmit cmd f)
  then show ?thesis using assms swift_inv_desc [OF assms(1)] by (auto simp: SwiftSubmit_def bind_eq_Some_conv intro!: swift_inv_put)
next
  case (EvPropose cmd)
  then show ?thesis using assms by (auto intro: swift_inv_OnPropose)
next
  case (EvFastAck a)
  then show ?thesis using assms by (auto intro: swift_inv_OnFastAck)
next
  case (EvSlowAck r b c)
  then show ?thesis using assms by (auto intro: swift_inv_OnLightSlowAck)
next
  case (EvAcks r fas sas)
  then show ?thesis using assms by (auto intro: swift_inv_OnBatchedAcks)
next
  case EvDrain
  then show ?thesis using assms by (auto simp: DrainBatcher_def)
next
  case EvTrigger
  then obtain b where s': "s' = (let s1 = s\<lparr>sw_ballot := b, sw_recovering := True, newleader_acks := [], sync_broadcast_done := False\<rparr>
      in send_msg (NewLeaderMsg (sw_loc s) b) (s1\<lparr>newleader_acks := [(sw_loc s, sw_cballot s, SnapshotLocalState s1)]\<rparr>))"
    using assms(3) by (auto simp: TriggerRecovery_def Let_def bind_eq_Some_conv)
  have "swift_inv (s\<lparr>sw_ballot := b, sw_recovering := True, newleader_acks := [], sync_broadcast_done := False\<rparr>)"
    using swift_inv_acks [OF assms(1), of "[]"] by (simp add: swift_inv_def)
  then show ?thesis using SnapshotLocalState_ok unfolding s' Let_def by (simp only: swift_inv_frame) (rule swift_inv_acks; simp)
next
  case (EvNewLeader r b)
  then show ?thesis using assms by (auto simp: OnNewLeaderRecv_def Let_def)
next
  case (EvNewLeaderAck r b cb st)
  define s1 where "s1 = s\<lparr>newleader_acks := AList.update r (cb, st) (newleader_acks s)\<rparr>"
  have "\<forall>(r, cb, st) \<in> set (AList.update r (cb, st) (newleader_acks s)). list_all entry_ok st"
    using assms(1,2) EvNewLeaderAck by (auto simp: swift_inv_def event_ok_def dest!: set_update_sub)
  then have s1: "swift_inv s1" using assms(1) unfolding s1_def by (intro swift_inv_acks)
  have m: "list_all entry_ok (merge_states (newleader_acks s1))" using s1 by (intro merge_states_ok) (simp add: swift_inv_def)
  have h: "OnNewLeaderAckRecv r b cb st s = Some s'" using assms(3) EvNewLeaderAck by simp
  have "s' = s \<or> s' = s1 \<or> (\<exists>s2. InstallRecoveryState (merge_states (newleader_acks s1)) (s1\<lparr>sw_cballot := sw_ballot s1, sync_broadcast_done := True\<rparr>) = Some s2 \<and>
      s' = send_msg (SyncMsg (sw_loc s2) (sw_ballot s2) (merge_states (newleader_acks s1))) (s2\<lparr>sw_recovering := False\<rparr>))"
    using h unfolding OnNewLeaderAckRecv_def Let_def s1_def [symmetric] by (auto simp: bind_eq_Some_conv split: if_splits)
  then show ?thesis using assms(1) s1 swift_inv_Install [OF _ m, of "s1\<lparr>sw_cballot := sw_ballot s1, sync_broadcast_done := True\<rparr>"] by auto
next
  case (EvSync r b st)
  have "\<exists>s1. s' = s \<or> swift_inv s1 \<and> s' = s1\<lparr>sw_recovering := False, newleader_acks := [], sync_broadcast_done := False\<rparr>"
  proof (cases st)
    case None
    then show ?thesis using assms EvSync
      by (intro exI [of _ "s\<lparr>sw_ballot := b, sw_cballot := b\<rparr>"]) (auto simp: OnSyncRecv_def split: if_splits)
  next
    case (Some es)
    then show ?thesis using assms EvSync swift_inv_Install [of "s\<lparr>sw_ballot := b, sw_cballot := b\<rparr>" es]
      by (auto simp: OnSyncRecv_def event_ok_def bind_eq_Some_conv split: if_splits)
  qed
  then show ?thesis using assms(1) swift_inv_acks [where a = "[]"] by auto
qed

text \<open>
  C28. SwiftPaxos delivers once. Whatever messages a replica gets in whatever order, recoveries included, it
  applies no command twice, and it applies only commands that it holds as committed. The identifiers and
  payloads of recovery states are assumed to belong together, as the replicas that send them keep them.
\<close>

theorem swift_delivers_once:
  assumes "list_all event_ok evs" "swift_run evs (new_swift_server n loc batch) = Some s"
  shows "distinct (map (\<lambda>c. GetCombinedCmdID (Some c)) (sw_applied s)) \<and>
    (\<forall>c \<in> set (sw_applied s). \<exists>cid. GetCombinedCmdID (Some c) = Some cid \<and> sd_committed (desc_of cid s) \<and> sd_delivered (desc_of cid s)) \<and>
    list_all entry_ok (SnapshotLocalState s)"
proof -
  have run: "swift_inv s0 \<Longrightarrow> list_all event_ok evs \<Longrightarrow> swift_run evs s0 = Some s \<Longrightarrow> swift_inv s" for s0
    by (induction evs arbitrary: s0) (auto simp: bind_eq_Some_conv intro: swift_inv_handle)
  have "swift_inv (new_swift_server n loc batch)"
    by (simp add: swift_inv_def new_swift_server_def desc_of_def desc_ok_def)
  from run [OF this assms] have i: "swift_inv s" .
  then have "\<forall>cid. sd_delivered (desc_of cid s) \<longrightarrow> sd_committed (desc_of cid s)" by (simp add: swift_inv_def desc_ok_def)
  with i SnapshotLocalState_ok [OF i] show ?thesis unfolding swift_inv_def by blast
qed

theorem swift_delivers_once_witness:
  "\<exists>s. swift_run [EvSubmit (example_write 1 1 7 8) 5, EvPropose (example_write 1 1 7 8),
       EvFastAck \<lparr>ack_replica = 1, ack_ballot = 0, ack_cmd_id = 0x80000001, ack_dep = [], ack_seqnum = 0, ack_key = 7\<rparr>,
       EvPropose (example_write 1 1 7 8)] (new_swift_server 3 0 False) = Some s \<and>
     sw_applied s = [example_write 1 1 7 8] \<and> distinct (map (\<lambda>c. GetCombinedCmdID (Some c)) (sw_applied s))"
  (is "\<exists>s. swift_run ?evs ?s0 = Some s \<and> _ s \<and> _ s")
proof -
  have "case swift_run ?evs ?s0 of None \<Rightarrow> False | Some s \<Rightarrow> sw_applied s = [example_write 1 1 7 8]" by code_simp
  then obtain s where s: "swift_run ?evs ?s0 = Some s" "sw_applied s = [example_write 1 1 7 8]" by (auto split: option.splits)
  have "list_all event_ok ?evs" by (simp add: event_ok_def)
  from swift_delivers_once [OF this s(1)] s show ?thesis by blast
qed

end
