(* ===== verification/SwiftAgreement.thy ===== *)
theory SwiftAgreement
  imports SwiftDelivery
begin

text \<open>
  SwiftPaxos: without recovery all replicas commit a command with the dependency of the leader, endorsed by a
  majority (\<open>swift_commits_agree\<close>); a recovery can lose what was committed (\<open>swift_recovery_loses_commit\<close>).
\<close>

section \<open>Agreement\<close>

text \<open>
  Replicas that exchange their acknowledgements, without batching and without recovery: every message
  of a replica may reach every replica, any number of times and in any order; a proposal reaches each replica at most once.
\<close>

inductive swift_net :: "nat \<Rightarrow> (int \<Rightarrow> swift_server) \<Rightarrow> bool" for n where
  net_init: "swift_net n (\<lambda>i. new_swift_server n i False)"
| net_submit: "swift_net n S \<Longrightarrow> 0 \<le> i \<Longrightarrow> i < int n \<Longrightarrow> SwiftSubmit cmd f (S i) = Some s' \<Longrightarrow> swift_net n (S(i := s'))"
| net_propose: "swift_net n S \<Longrightarrow> 0 \<le> i \<Longrightarrow> i < int n \<Longrightarrow> GetCombinedCmdID (Some cmd) = Some cid \<Longrightarrow> \<not> my_dep_set (desc_of cid (S i)) \<Longrightarrow>
    OnPropose cmd None (S i) = Some s' \<Longrightarrow> swift_net n (S(i := s'))"
| net_fast_ack: "swift_net n S \<Longrightarrow> 0 \<le> i \<Longrightarrow> i < int n \<Longrightarrow> FastAckMsg a \<in> set (sw_sent (S j)) \<Longrightarrow> swift_net n (S(i := OnFastAck a (S i)))"
| net_slow_ack: "swift_net n S \<Longrightarrow> 0 \<le> i \<Longrightarrow> i < int n \<Longrightarrow> SlowAckMsg r b cid \<in> set (sw_sent (S j)) \<Longrightarrow> swift_net n (S(i := OnLightSlowAck r b cid (S i)))"

text \<open>
  What a descriptor and a server may hold when replica \<open>r\<close> computed the dependency \<open>V cid r\<close> for a
  command and \<open>W cid r\<close> says whether it adopted that of the leader.
\<close>

definition votes_ok :: "nat \<Rightarrow> (int \<Rightarrow> u64 list option) \<Rightarrow> (int \<Rightarrow> bool) \<Rightarrow> swift_desc \<Rightarrow> bool" where
  "votes_ok n V W d \<longleftrightarrow> distinct (keys_of (fast_acks d)) \<and> distinct (slow_acks d) \<and>
     (\<forall>(r, dep) \<in> set (fast_acks d). V r = Some dep) \<and> (\<forall>r \<in> set (slow_acks d). W r) \<and>
     (leader_acked d \<longrightarrow> V 0 = Some (leader_dep d)) \<and>
     (sd_committed d \<longrightarrow> leader_acked d \<and> n div 2 + 1 \<le> length (endorsers d))"

definition server_ok :: "nat \<Rightarrow> (u64 \<Rightarrow> int \<Rightarrow> u64 list option) \<Rightarrow> (u64 \<Rightarrow> int \<Rightarrow> bool) \<Rightarrow> int \<Rightarrow> swift_server \<Rightarrow> bool" where
  "server_ok n V W i s \<longleftrightarrow> sw_n s = n \<and> sw_loc s = i \<and> sw_ballot s = 0 \<and> \<not> batch_enabled s \<and>
     (\<forall>a. FastAckMsg a \<in> set (sw_sent s) \<longrightarrow> ack_replica a = i \<and> V (ack_cmd_id a) i = Some (ack_dep a)) \<and>
     (\<forall>r b c. SlowAckMsg r b c \<in> set (sw_sent s) \<longrightarrow> r = i \<and> W c i) \<and>
     (\<forall>cid. votes_ok n (V cid) (W cid) (desc_of cid s))"

lemma votes_ok_mono:
  "votes_ok n V W d \<Longrightarrow> (\<And>r dep. V r = Some dep \<Longrightarrow> V' r = Some dep) \<Longrightarrow> (\<And>r. W r \<Longrightarrow> W' r) \<Longrightarrow> votes_ok n V' W' d"
  by (auto simp: votes_ok_def)

lemma server_ok_mono:
  assumes "server_ok n V W i s" "\<And>c r dep. V c r = Some dep \<Longrightarrow> V' c r = Some dep" "\<And>c r. W c r \<Longrightarrow> W' c r"
  shows "server_ok n V' W' i s"
proof -
  have "votes_ok n (V' cid) (W' cid) (desc_of cid s)" for cid
    by (rule votes_ok_mono [of n "V cid" "W cid"]) (use assms(1) in \<open>simp add: server_ok_def\<close>, fact assms(2), fact assms(3))
  moreover have "ack_replica a = i \<and> V' (ack_cmd_id a) i = Some (ack_dep a)" if "FastAckMsg a \<in> set (sw_sent s)" for a
    using assms(1) assms(2) [of "ack_cmd_id a" i "ack_dep a"] that by (simp add: server_ok_def)
  moreover have "r = i \<and> W' c i" if "SlowAckMsg r b c \<in> set (sw_sent s)" for r b c
    using assms(1) assms(3) [of c i] that unfolding server_ok_def by blast
  ultimately show ?thesis using assms(1) unfolding server_ok_def by blast
qed

lemma server_ok_put: "server_ok n V W i s \<Longrightarrow> votes_ok n (V cid) (W cid) d \<Longrightarrow> server_ok n V W i (put_desc cid d s)"
  by (auto simp: server_ok_def)

lemma server_ok_frame [simp]:
  "server_ok n V W i (s\<lparr>sw_applied := x1\<rparr>) = server_ok n V W i s" "server_ok n V W i (s\<lparr>sw_called := x2\<rparr>) = server_ok n V W i s"
  "server_ok n V W i (s\<lparr>sw_seqnum := x3\<rparr>) = server_ok n V W i s" "server_ok n V W i (TrackKey k cid w s) = server_ok n V W i s"
  by (simp_all add: server_ok_def)

lemma server_ok_send_slow: "server_ok n V W i s \<Longrightarrow> W c i \<Longrightarrow> server_ok n V W i (send_msg (SlowAckMsg i b c) s)"
  by (auto simp: server_ok_def)

lemma server_ok_send_fast: "server_ok n V W i s \<Longrightarrow> ack_replica a = i \<Longrightarrow> V (ack_cmd_id a) i = Some (ack_dep a) \<Longrightarrow> server_ok n V W i (send_msg (FastAckMsg a) s)"
  by (auto simp: server_ok_def)

lemma server_ok_desc: "server_ok n V W i s \<Longrightarrow> votes_ok n (V cid) (W cid) (desc_of cid s)"
  by (simp add: server_ok_def)

lemma endorsers_cong:
  "leader_dep d' = leader_dep d \<Longrightarrow> fast_acks d' = fast_acks d \<Longrightarrow> slow_acks d' = slow_acks d \<Longrightarrow> endorsers d' = endorsers d"
  by (simp add: endorsers_def)

lemma endorsers_set:
  "set (fold (\<lambda>(r, dep) es. if DepsEqual dep l then List.insert r es else es) fas es) = set es \<union> {r. \<exists>dep. (r, dep) \<in> set fas \<and> DepsEqual dep l}"
  by (induction fas arbitrary: es) (auto split: if_splits)

lemma endorsers_distinct:
  "distinct es \<Longrightarrow> distinct (fold (\<lambda>(r, dep) es. if DepsEqual dep l then List.insert r es else es) fas es)"
  by (induction fas arbitrary: es) auto

lemma matching_le_endorsers:
  assumes "distinct (keys_of (fast_acks d))" "distinct (slow_acks d)"
  shows "matching d \<le> length (endorsers d)"
proof -
  let ?M = "filter (\<lambda>(r, dep). DepsEqual dep (leader_dep d)) (fast_acks d)"
  have "distinct (map fst ?M)" using assms(1) by (simp add: distinct_map_filter)
  then have "matching d = card (set (map fst ?M))" unfolding matching_def by (metis distinct_card length_map)
  also have "set (map fst ?M) \<subseteq> set (endorsers d)" by (auto simp: endorsers_def endorsers_set)
  then have "card (set (map fst ?M)) \<le> card (set (endorsers d))" by (rule card_mono [OF finite_set])
  also have "\<dots> = length (endorsers d)" using assms(2) by (simp add: endorsers_def endorsers_distinct distinct_card)
  finally show ?thesis .
qed

lemma server_ok_Deliver: "server_ok n V W i s \<Longrightarrow> server_ok n V W i (Deliver cid s)"
proof -
  assume s: "server_ok n V W i s"
  have "votes_ok n (V cid) (W cid) ((desc_of cid s)\<lparr>sd_delivered := True\<rparr>)"
    using server_ok_desc [OF s, of cid] by (simp add: votes_ok_def endorsers_def)
  with s show ?thesis by (simp add: Deliver_def Let_def server_ok_put)
qed

lemma server_ok_CheckCommit: "server_ok n V W i s \<Longrightarrow> server_ok n V W i (CheckCommit cid s)"
proof -
  assume s: "server_ok n V W i s"
  let ?d = "desc_of cid s"
  have v: "votes_ok n (V cid) (W cid) ?d" and n: "sw_n s = n" using s by (simp_all add: server_ok_def)
  have "server_ok n V W i (fire_commit cid s)" if "leader_acked ?d" "n div 2 + 1 \<le> length (endorsers ?d)"
    unfolding fire_commit_def using s v that
    by (intro server_ok_Deliver server_ok_put) (auto simp: votes_ok_def endorsers_def)
  moreover have "n div 2 + 1 \<le> length (endorsers ?d)" if "matching ?d \<ge> FastQuorum s"
    using that matching_le_endorsers [of ?d] v n by (auto simp: votes_ok_def FastQuorum_def)
  ultimately show ?thesis using s n by (auto simp: CheckCommit_def Let_def SlowQuorum_def)
qed

lemma server_ok_MaybeSend:
  assumes "server_ok n V W i s" "slow_ack_sent (desc_of cid (MaybeSendLightSlowAck cid dep s)) \<Longrightarrow> W cid i"
  shows "server_ok n V W i (MaybeSendLightSlowAck cid dep s)"
proof (cases "MaybeSendLightSlowAck cid dep s = s")
  case False
  let ?d' = "(desc_of cid s)\<lparr>slow_ack_sent := True, slow_acks := List.insert (sw_loc s) (slow_acks (desc_of cid s))\<rparr>"
  have b: "\<not> batch_enabled s" using assms(1) by (simp add: server_ok_def)
  have e: "MaybeSendLightSlowAck cid dep s = send_msg (SlowAckMsg (sw_loc s) (sw_ballot s) cid) (put_desc cid ?d' s)"
    "\<not> sd_committed (desc_of cid s)"
    using False b by (auto simp: MaybeSendLightSlowAck_def EnqueueLightSlowAck_def Let_def split: if_splits)
  have w: "W cid i" "sw_loc s = i" using assms unfolding e(1) by (simp_all add: server_ok_def)
  then have "server_ok n V W i (put_desc cid ?d' s)"
    using assms(1) server_ok_desc [OF assms(1), of cid] e(2) by (intro server_ok_put) (auto simp: votes_ok_def)
  with w show ?thesis unfolding e(1) by (simp add: server_ok_send_slow)
qed (use assms in simp)

text \<open>Votes once cast stay.\<close>

definition keeps_votes :: "swift_server \<Rightarrow> swift_server \<Rightarrow> bool" where
  "keeps_votes s s' \<longleftrightarrow> (\<forall>c. (my_dep_set (desc_of c s) \<longrightarrow> my_dep_set (desc_of c s') \<and> my_dep (desc_of c s') = my_dep (desc_of c s)) \<and>
     (slow_ack_sent (desc_of c s) \<longrightarrow> slow_ack_sent (desc_of c s')))"

lemma keeps_votes_refl: "keeps_votes s s" by (simp add: keeps_votes_def)

lemma keeps_votes_trans: "keeps_votes s s' \<Longrightarrow> keeps_votes s' s'' \<Longrightarrow> keeps_votes s s''" by (simp add: keeps_votes_def)

lemma keeps_votes_put:
  "(my_dep_set (desc_of cid s) \<Longrightarrow> my_dep_set d \<and> my_dep d = my_dep (desc_of cid s)) \<Longrightarrow> (slow_ack_sent (desc_of cid s) \<Longrightarrow> slow_ack_sent d) \<Longrightarrow>
     keeps_votes s (put_desc cid d s)"
  by (simp add: keeps_votes_def)

lemma keeps_votes_Deliver: "keeps_votes s (Deliver cid s)"
  by (simp add: keeps_votes_def Deliver_def Let_def)

lemma keeps_votes_CheckCommit: "keeps_votes s (CheckCommit cid s)" "slow_ack_sent (desc_of c (CheckCommit cid s)) = slow_ack_sent (desc_of c s)"
  by (simp_all add: keeps_votes_def CheckCommit_def fire_commit_def Deliver_def Let_def)

lemma keeps_votes_MaybeSend: "keeps_votes s (MaybeSendLightSlowAck cid dep s)"
  by (simp add: keeps_votes_def MaybeSendLightSlowAck_def EnqueueLightSlowAck_def Let_def)

lemma desc_of_Enqueue [simp]: "desc_of c (EnqueueFastAck a s) = desc_of c s"
  by (simp add: EnqueueFastAck_def)

lemma OnFastAck_cases:
  obtains "sd_committed (desc_of (ack_cmd_id a) s) \<or> sd_delivered (desc_of (ack_cmd_id a) s)"
      "OnFastAck a s = put_desc (ack_cmd_id a) (desc_of (ack_cmd_id a) s) s"
  | d1 d2 s1 where "\<not> (sd_committed (desc_of (ack_cmd_id a) s) \<or> sd_delivered (desc_of (ack_cmd_id a) s))"
      "d1 = (desc_of (ack_cmd_id a) s)\<lparr>fast_acks := (if map_of (fast_acks (desc_of (ack_cmd_id a) s)) (ack_replica a) = None
          then fast_acks (desc_of (ack_cmd_id a) s) @ [(ack_replica a, ack_dep a)] else fast_acks (desc_of (ack_cmd_id a) s))\<rparr>"
      "d2 = d1\<lparr>sd_seqnum := (if ack_seqnum a > 0 then ack_seqnum a else sd_seqnum d1), leader_dep := ack_dep a, leader_acked := True\<rparr>"
      "s1 = (if ack_replica a = Leader s
          then MaybeSendLightSlowAck (ack_cmd_id a) (ack_dep a) (put_desc (ack_cmd_id a) d2 (put_desc (ack_cmd_id a) (desc_of (ack_cmd_id a) s) s))
          else put_desc (ack_cmd_id a) d1 (put_desc (ack_cmd_id a) (desc_of (ack_cmd_id a) s) s))"
      "OnFastAck a s = CheckCommit (ack_cmd_id a) s1"
proof (cases "sd_committed (desc_of (ack_cmd_id a) s) \<or> sd_delivered (desc_of (ack_cmd_id a) s)")
  case True
  then show thesis by (intro that(1)) (simp_all add: OnFastAck_def Let_def)
next
  case False
  have L: "Leader (put_desc c d s) = Leader s" for c d by (simp add: Leader_def)
  from False show thesis by (intro that(2) [OF False refl refl refl]) (simp add: OnFastAck_def Let_def L)
qed

lemma keeps_votes_OnFastAck: "keeps_votes s (OnFastAck a s)"
proof (rule OnFastAck_cases [of a s])
  fix d1 d2 s1
  assume d: "d1 = (desc_of (ack_cmd_id a) s)\<lparr>fast_acks := (if map_of (fast_acks (desc_of (ack_cmd_id a) s)) (ack_replica a) = None
          then fast_acks (desc_of (ack_cmd_id a) s) @ [(ack_replica a, ack_dep a)] else fast_acks (desc_of (ack_cmd_id a) s))\<rparr>"
      "d2 = d1\<lparr>sd_seqnum := (if ack_seqnum a > 0 then ack_seqnum a else sd_seqnum d1), leader_dep := ack_dep a, leader_acked := True\<rparr>"
    and s1: "s1 = (if ack_replica a = Leader s
          then MaybeSendLightSlowAck (ack_cmd_id a) (ack_dep a) (put_desc (ack_cmd_id a) d2 (put_desc (ack_cmd_id a) (desc_of (ack_cmd_id a) s) s))
          else put_desc (ack_cmd_id a) d1 (put_desc (ack_cmd_id a) (desc_of (ack_cmd_id a) s) s))"
    and r: "OnFastAck a s = CheckCommit (ack_cmd_id a) s1"
  have "keeps_votes s (put_desc (ack_cmd_id a) d1 (put_desc (ack_cmd_id a) (desc_of (ack_cmd_id a) s) s))"
    "keeps_votes s (put_desc (ack_cmd_id a) d2 (put_desc (ack_cmd_id a) (desc_of (ack_cmd_id a) s) s))"
    using d by (simp_all add: keeps_votes_def)
  then have "keeps_votes s s1" unfolding s1 using keeps_votes_trans [OF _ keeps_votes_MaybeSend] by auto
  then show ?thesis unfolding r by (rule keeps_votes_trans [OF _ keeps_votes_CheckCommit(1)])
qed (simp add: keeps_votes_def)

lemma OnFastAck_ok:
  assumes ok: "server_ok n V W i s" and a: "V (ack_cmd_id a) (ack_replica a) = Some (ack_dep a)"
    and w: "slow_ack_sent (desc_of (ack_cmd_id a) (OnFastAck a s)) \<Longrightarrow> W (ack_cmd_id a) i"
  shows "server_ok n V W i (OnFastAck a s)"
proof (rule OnFastAck_cases [of a s])
  assume "OnFastAck a s = put_desc (ack_cmd_id a) (desc_of (ack_cmd_id a) s) s"
  then show ?thesis using server_ok_put [OF ok server_ok_desc [OF ok]] by simp
next
  fix d1 d2 s1
  let ?cid = "ack_cmd_id a" let ?d = "desc_of ?cid s" let ?s0 = "put_desc ?cid ?d s"
  assume nc: "\<not> (sd_committed ?d \<or> sd_delivered ?d)"
    and d: "d1 = ?d\<lparr>fast_acks := (if map_of (fast_acks ?d) (ack_replica a) = None then fast_acks ?d @ [(ack_replica a, ack_dep a)] else fast_acks ?d)\<rparr>"
      "d2 = d1\<lparr>sd_seqnum := (if ack_seqnum a > 0 then ack_seqnum a else sd_seqnum d1), leader_dep := ack_dep a, leader_acked := True\<rparr>"
    and s1: "s1 = (if ack_replica a = Leader s then MaybeSendLightSlowAck ?cid (ack_dep a) (put_desc ?cid d2 ?s0) else put_desc ?cid d1 ?s0)"
    and r: "OnFastAck a s = CheckCommit ?cid s1"
  have v: "votes_ok n (V ?cid) (W ?cid) ?d" by (rule server_ok_desc [OF ok])
  have s0: "server_ok n V W i ?s0" by (rule server_ok_put [OF ok v])
  have d1: "votes_ok n (V ?cid) (W ?cid) d1" using v a nc by (auto simp: d(1) votes_ok_def map_of_eq_None_iff)
  have d2: "votes_ok n (V ?cid) (W ?cid) d2" if "ack_replica a = 0" using d1 a that nc by (auto simp: d votes_ok_def)
  have L: "Leader s = 0" using ok by (simp add: Leader_def server_ok_def)
  have "slow_ack_sent (desc_of ?cid s1) \<Longrightarrow> W ?cid i" using w unfolding r by (simp add: keeps_votes_CheckCommit(2))
  then have "server_ok n V W i s1"
    unfolding s1 L using d1 d2 s0 by (auto intro!: server_ok_MaybeSend server_ok_put split: if_splits)
  then show ?thesis unfolding r by (rule server_ok_CheckCommit)
qed

lemma OnLightSlowAck_ok:
  assumes ok: "server_ok n V W i s" and a: "W cid r"
  shows "server_ok n V W i (OnLightSlowAck r b cid s) \<and> keeps_votes s (OnLightSlowAck r b cid s)"
proof -
  let ?d = "desc_of cid s"
  have v: "votes_ok n (V cid) (W cid) ?d" by (rule server_ok_desc [OF ok])
  have s0: "server_ok n V W i (put_desc cid ?d s)" by (rule server_ok_put [OF ok v])
  have "votes_ok n (V cid) (W cid) (?d\<lparr>slow_acks := List.insert r (slow_acks ?d)\<rparr>)" if "\<not> sd_committed ?d"
    using v a that by (auto simp: votes_ok_def)
  then have "server_ok n V W i (OnLightSlowAck r b cid s)"
    using s0 by (auto simp: OnLightSlowAck_def Let_def intro!: server_ok_CheckCommit server_ok_put)
  moreover have "keeps_votes s (put_desc cid ?d s)" "keeps_votes s (put_desc cid (?d\<lparr>slow_acks := x\<rparr>) (put_desc cid ?d s))" for x
    by (simp_all add: keeps_votes_def)
  then have "keeps_votes s (OnLightSlowAck r b cid s)"
    by (simp add: OnLightSlowAck_def Let_def keeps_votes_trans [OF _ keeps_votes_CheckCommit(1)])
  ultimately show ?thesis by simp
qed

lemma self_vote_ok:
  assumes ok: "server_ok n V W i s" and d: "votes_ok n (V cid) (W cid) d" "\<not> my_dep_set (desc_of cid s)"
    "slow_ack_sent (desc_of cid s) \<Longrightarrow> slow_ack_sent d"
    and v: "my_dep_set (desc_of cid (self_vote cid k w d s)) \<Longrightarrow> V cid i = Some (my_dep (desc_of cid (self_vote cid k w d s)))"
    and slow: "slow_ack_sent (desc_of cid (self_vote cid k w d s)) \<Longrightarrow> W cid i"
  shows "server_ok n V W i (self_vote cid k w d s) \<and> keeps_votes s (self_vote cid k w d s)"
proof -
  let ?dep = "GetDep k cid w s"
  obtain seq seq' num where e: "self_vote cid k w d s = EnqueueFastAck
       \<lparr>ack_replica = sw_loc s, ack_ballot = sw_ballot s, ack_cmd_id = cid, ack_dep = ?dep, ack_seqnum = seq', ack_key = k\<rparr>
     (OnFastAck \<lparr>ack_replica = sw_loc s, ack_ballot = sw_ballot s, ack_cmd_id = cid, ack_dep = ?dep, ack_seqnum = seq, ack_key = 0\<rparr>
       (put_desc cid (d\<lparr>sd_seqnum := seq, my_dep := ?dep, my_dep_set := True\<rparr>) ((TrackKey k cid w s)\<lparr>sw_seqnum := num\<rparr>)))"
    by (rule self_vote_eq)
  define X where "X = put_desc cid (d\<lparr>sd_seqnum := seq, my_dep := ?dep, my_dep_set := True\<rparr>) ((TrackKey k cid w s)\<lparr>sw_seqnum := num\<rparr>)"
  define ack where "ack = \<lparr>ack_replica = sw_loc s, ack_ballot = sw_ballot s, ack_cmd_id = cid, ack_dep = ?dep, ack_seqnum = seq, ack_key = 0\<rparr>"
  have loc: "sw_loc s = i" "\<not> batch_enabled s" using ok by (simp_all add: server_ok_def)
  have X: "server_ok n V W i X" unfolding X_def using ok d(1) by (intro server_ok_put) (simp_all add: votes_ok_def endorsers_def)
  have desc: "desc_of cid (self_vote cid k w d s) = desc_of cid (OnFastAck ack X)" by (simp add: e ack_def X_def)
  have kX: "keeps_votes X (OnFastAck ack X)" by (rule keeps_votes_OnFastAck)
  then have "my_dep_set (desc_of cid (OnFastAck ack X))" "my_dep (desc_of cid (OnFastAck ack X)) = ?dep"
    unfolding keeps_votes_def by (simp_all add: X_def)
  then have vi: "V cid i = Some ?dep" using v by (simp add: desc)
  have oX: "server_ok n V W i (OnFastAck ack X)"
    using vi slow unfolding desc by (intro OnFastAck_ok [OF X]) (simp_all add: ack_def loc)
  then have "\<not> batch_enabled (OnFastAck ack X)" by (simp add: server_ok_def)
  then have sv: "self_vote cid k w d s = send_msg (FastAckMsg (ack\<lparr>ack_seqnum := seq', ack_key := k\<rparr>)) (OnFastAck ack X)"
    unfolding e by (simp add: EnqueueFastAck_def ack_def [symmetric] X_def [symmetric]) (simp add: ack_def)
  have "keeps_votes s X" using d by (simp add: keeps_votes_def X_def)
  with kX have "keeps_votes s (self_vote cid k w d s)" unfolding sv by (simp add: keeps_votes_def)
  moreover have "server_ok n V W i (self_vote cid k w d s)"
    unfolding sv using oX vi by (intro server_ok_send_fast) (simp_all add: ack_def loc)
  ultimately show ?thesis by simp
qed

lemma OnPropose_ok:
  assumes ok: "server_ok n V W i s" and p: "OnPropose cmd None s = Some s'" "GetCombinedCmdID (Some cmd) = Some cid" "\<not> my_dep_set (desc_of cid s)"
    and v: "my_dep_set (desc_of cid s') \<Longrightarrow> V cid i = Some (my_dep (desc_of cid s'))" and slow: "slow_ack_sent (desc_of cid s') \<Longrightarrow> W cid i"
  shows "server_ok n V W i s' \<and> keeps_votes s s'"
  using p(1)
proof (cases rule: OnPropose_cases)
  case 1
  then show ?thesis using ok by (simp add: keeps_votes_refl)
next
  case (2 cid' f)
  then show ?thesis using server_ok_put [OF ok server_ok_desc [OF ok]] by (simp add: keeps_votes_def)
next
  case (3 cid' k c s4)
  have cid: "cid' = cid" using 3(2) p(2) by simp
  let ?d = "desc_of cid s" and ?p = "propose_desc cid k cmd None (desc_of cid s)" and ?s0 = "put_desc cid (desc_of cid s) s"
  have s4: "s4 = self_vote cid k (IsWrite c) ?p ?s0" using 3(7) cid by simp
  have s': "s' = s4 \<or> s' = MaybeSendLightSlowAck cid (leader_dep (desc_of cid s4)) s4" using 3(8) cid by (auto split: if_splits)
  have k4: "keeps_votes s4 s'" using s' keeps_votes_refl keeps_votes_MaybeSend by auto
  have s0: "server_ok n V W i ?s0" by (rule server_ok_put [OF ok server_ok_desc [OF ok]])
  have pd: "votes_ok n (V cid) (W cid) ?p" "slow_ack_sent ?p = slow_ack_sent ?d"
    using server_ok_desc [OF ok, of cid] by (simp_all add: propose_desc_def votes_ok_def endorsers_def Let_def)
  have 4: "server_ok n V W i s4 \<and> keeps_votes ?s0 s4" unfolding s4
  proof (rule self_vote_ok [OF s0 pd(1)])
    show "V cid i = Some (my_dep (desc_of cid (self_vote cid k (IsWrite c) ?p ?s0)))"
      if "my_dep_set (desc_of cid (self_vote cid k (IsWrite c) ?p ?s0))"
      using that k4 v unfolding s4 [symmetric] by (simp add: keeps_votes_def)
    show "W cid i" if "slow_ack_sent (desc_of cid (self_vote cid k (IsWrite c) ?p ?s0))"
      using that k4 slow unfolding s4 [symmetric] by (simp add: keeps_votes_def)
  qed (use p(3) pd(2) in simp_all)
  have "server_ok n V W i s'" using s' 4 slow by (auto intro: server_ok_MaybeSend)
  moreover have "keeps_votes s ?s0" by (simp add: keeps_votes_def)
  ultimately show ?thesis using 4 k4 keeps_votes_trans by blast
qed

text \<open>The votes of the replicas as they are.\<close>

definition dep_votes :: "(int \<Rightarrow> swift_server) \<Rightarrow> u64 \<Rightarrow> int \<Rightarrow> u64 list option" where
  "dep_votes S cid r = (if my_dep_set (desc_of cid (S r)) then Some (my_dep (desc_of cid (S r))) else None)"

definition slow_votes :: "(int \<Rightarrow> swift_server) \<Rightarrow> u64 \<Rightarrow> int \<Rightarrow> bool" where
  "slow_votes S cid r = slow_ack_sent (desc_of cid (S r))"

definition net_inv :: "nat \<Rightarrow> (int \<Rightarrow> swift_server) \<Rightarrow> bool" where
  "net_inv n S \<longleftrightarrow> (\<forall>i. server_ok n (dep_votes S) (slow_votes S) i (S i)) \<and> (\<forall>i. \<not> (0 \<le> i \<and> i < int n) \<longrightarrow> S i = new_swift_server n i False)"

lemma net_inv_step:
  assumes "net_inv n S" "0 \<le> i" "i < int n" "keeps_votes (S i) s'"
    "server_ok n (dep_votes (S(i := s'))) (slow_votes (S(i := s'))) i (S i) \<Longrightarrow> server_ok n (dep_votes (S(i := s'))) (slow_votes (S(i := s'))) i s'"
  shows "net_inv n (S(i := s'))"
proof -
  have mono: "server_ok n (dep_votes (S(i := s'))) (slow_votes (S(i := s'))) j (S j)" for j
  proof (rule server_ok_mono)
    show "server_ok n (dep_votes S) (slow_votes S) j (S j)" using assms(1) by (simp add: net_inv_def)
  qed (use assms(4) in \<open>auto simp: dep_votes_def slow_votes_def keeps_votes_def split: if_splits\<close>)
  then show ?thesis using assms(1,2,3,5) by (auto simp: net_inv_def)
qed

lemma swift_net_inv: "swift_net n S \<Longrightarrow> net_inv n S"
proof (induction rule: swift_net.induct)
  case net_init
  then show ?case by (auto simp: net_inv_def server_ok_def new_swift_server_def votes_ok_def desc_of_def)
next
  case (net_submit S i cmd f s')
  then obtain cid where s': "s' = put_desc cid ((desc_of cid (S i))\<lparr>sd_callback := Some f\<rparr>) (S i)" by (auto simp: SwiftSubmit_def bind_eq_Some_conv)
  show ?case
  proof (rule net_inv_step [OF net_submit.IH net_submit.hyps(2,3)])
    show "keeps_votes (S i) s'" by (simp add: s' keeps_votes_def)
    assume "server_ok n (dep_votes (S(i := s'))) (slow_votes (S(i := s'))) i (S i)"
    from server_ok_put [OF this, of cid "(desc_of cid (S i))\<lparr>sd_callback := Some f\<rparr>"] server_ok_desc [OF this, of cid]
    show "server_ok n (dep_votes (S(i := s'))) (slow_votes (S(i := s'))) i s'"
      by (simp add: votes_ok_def endorsers_def s' [symmetric])
  qed
next
  case (net_propose S i cmd cid s')
  have v: "my_dep_set (desc_of cid s') \<Longrightarrow> dep_votes (S(i := s')) cid i = Some (my_dep (desc_of cid s'))"
    "slow_ack_sent (desc_of cid s') \<Longrightarrow> slow_votes (S(i := s')) cid i" by (simp_all add: dep_votes_def slow_votes_def)
  have any: "server_ok n V W i s' \<and> keeps_votes (S i) s'"
    if "server_ok n V W i (S i)" "my_dep_set (desc_of cid s') \<Longrightarrow> V cid i = Some (my_dep (desc_of cid s'))" "slow_ack_sent (desc_of cid s') \<Longrightarrow> W cid i" for V W
    using OnPropose_ok [OF that(1) net_propose.hyps(6,4,5)] that(2,3) by blast
  show ?case
  proof (rule net_inv_step [OF net_propose.IH net_propose.hyps(2,3)])
    show "keeps_votes (S i) s'"
    proof -
      let ?V = "\<lambda>c r. if c = cid \<and> r = i then Some (my_dep (desc_of cid s')) else dep_votes S c r"
      have "server_ok n ?V (\<lambda>c r. c = cid \<and> r = i \<or> slow_votes S c r) i (S i)"
      proof (rule server_ok_mono [of n "dep_votes S" "slow_votes S"])
        show "server_ok n (dep_votes S) (slow_votes S) i (S i)" using net_propose.IH by (simp add: net_inv_def)
      qed (use net_propose.hyps(5) in \<open>auto simp: dep_votes_def\<close>)
      from any [OF this] show ?thesis by simp
    qed
    show "server_ok n (dep_votes (S(i := s'))) (slow_votes (S(i := s'))) i s'" if "server_ok n (dep_votes (S(i := s'))) (slow_votes (S(i := s'))) i (S i)"
      using any [OF that] v by blast
  qed
next
  case (net_fast_ack S i a j)
  then have "server_ok n (dep_votes S) (slow_votes S) j (S j)" by (simp add: net_inv_def)
  then have a: "dep_votes S (ack_cmd_id a) (ack_replica a) = Some (ack_dep a)" using net_fast_ack.hyps by (simp add: server_ok_def)
  show ?case
  proof (rule net_inv_step [OF net_fast_ack.IH net_fast_ack.hyps(2,3) keeps_votes_OnFastAck])
    assume o: "server_ok n (dep_votes (S(i := OnFastAck a (S i)))) (slow_votes (S(i := OnFastAck a (S i)))) i (S i)"
    show "server_ok n (dep_votes (S(i := OnFastAck a (S i)))) (slow_votes (S(i := OnFastAck a (S i)))) i (OnFastAck a (S i))"
      by (rule OnFastAck_ok [OF o]) (use a keeps_votes_OnFastAck [of "S i" a] in \<open>auto simp: dep_votes_def slow_votes_def keeps_votes_def split: if_splits\<close>)
  qed
next
  case (net_slow_ack S i r b cid j)
  then have "server_ok n (dep_votes S) (slow_votes S) j (S j)" by (simp add: net_inv_def)
  then have a: "slow_votes S cid r" using net_slow_ack.hyps by (auto simp: server_ok_def)
  let ?s = "OnLightSlowAck r b cid (S i)"
  have "server_ok n (dep_votes S) (slow_votes S) i (S i)" using net_slow_ack.IH by (simp add: net_inv_def)
  then have k: "keeps_votes (S i) ?s" using OnLightSlowAck_ok a by blast
  then have "slow_votes (S(i := ?s)) cid r" using a by (auto simp: slow_votes_def keeps_votes_def)
  then show ?case using OnLightSlowAck_ok by (intro net_inv_step [OF net_slow_ack.IH net_slow_ack.hyps(2,3) k]) blast
qed

text \<open>
  C27. SwiftPaxos agrees. Among replicas that exchange acknowledgements without a recovery, a command that some replica holds
  as committed is committed with the dependency that the leader computed, and a majority of
  the replicas computed the same dependency or adopted it. Hence two replicas never commit a command with different
  dependencies.
\<close>

theorem swift_commits_agree:
  assumes "swift_net n S" "sd_committed (desc_of cid (S i))"
  shows "my_dep_set (desc_of cid (S 0)) \<and> leader_dep (desc_of cid (S i)) = my_dep (desc_of cid (S 0)) \<and>
    n div 2 + 1 \<le> card {r. 0 \<le> r \<and> r < int n \<and>
       (my_dep_set (desc_of cid (S r)) \<and> DepsEqual (my_dep (desc_of cid (S r))) (my_dep (desc_of cid (S 0))) \<or> slow_ack_sent (desc_of cid (S r)))} \<and>
    (\<forall>j. sd_committed (desc_of cid (S j)) \<longrightarrow> leader_dep (desc_of cid (S j)) = leader_dep (desc_of cid (S i)))"
proof -
  have inv: "net_inv n S" by (rule swift_net_inv [OF assms(1)])
  have v: "votes_ok n (dep_votes S cid) (slow_votes S cid) (desc_of cid (S j))" for j
    using inv by (simp add: net_inv_def server_ok_def)
  have lead: "my_dep_set (desc_of cid (S 0)) \<and> leader_dep (desc_of cid (S j)) = my_dep (desc_of cid (S 0))" if "sd_committed (desc_of cid (S j))" for j
    using v [of j] that by (auto simp: votes_ok_def dep_votes_def split: if_splits)
  let ?d = "desc_of cid (S i)"
  let ?R = "{r. 0 \<le> r \<and> r < int n \<and>
       (my_dep_set (desc_of cid (S r)) \<and> DepsEqual (my_dep (desc_of cid (S r))) (my_dep (desc_of cid (S 0))) \<or> slow_ack_sent (desc_of cid (S r)))}"
  have range: "0 \<le> r \<and> r < int n" if "my_dep_set (desc_of cid (S r)) \<or> slow_ack_sent (desc_of cid (S r))" for r
    using inv that by (auto simp: net_inv_def new_swift_server_def desc_of_def)
  have "set (endorsers ?d) \<subseteq> ?R"
  proof
    fix r assume "r \<in> set (endorsers ?d)"
    then consider "r \<in> set (slow_acks ?d)" | dep where "(r, dep) \<in> set (fast_acks ?d)" "DepsEqual dep (leader_dep ?d)"
      unfolding endorsers_def endorsers_set by blast
    then show "r \<in> ?R"
    proof cases
      case 1
      then have "slow_ack_sent (desc_of cid (S r))" using v [of i] unfolding votes_ok_def slow_votes_def by blast
      with range [of r] show ?thesis by simp
    next
      case 2
      then have "dep_votes S cid r = Some dep" using v [of i] unfolding votes_ok_def by blast
      then have "my_dep_set (desc_of cid (S r))" "my_dep (desc_of cid (S r)) = dep" by (simp_all add: dep_votes_def split: if_splits)
      with range [of r] 2(2) lead [OF assms(2)] show ?thesis by simp
    qed
  qed
  moreover have "finite ?R" by (rule finite_subset [of _ "{0..<int n}"]) auto
  ultimately have "card (set (endorsers ?d)) \<le> card ?R" by (rule card_mono [rotated])
  moreover have "card (set (endorsers ?d)) = length (endorsers ?d)"
    using v [of i] by (simp add: votes_ok_def endorsers_def endorsers_distinct distinct_card)
  moreover have "n div 2 + 1 \<le> length (endorsers ?d)" using v [of i] assms(2) by (simp add: votes_ok_def)
  ultimately have "n div 2 + 1 \<le> card ?R" by linarith
  then show ?thesis using lead [OF assms(2)] lead by (intro conjI allI impI) simp_all
qed

text \<open>A command that replicas 0 and 1 of three get, and the acknowledgement of replica 1.\<close>

lemma example_write_ids [simp]:
  "GetCombinedCmdID (Some (example_write cl n k v)) = Some (CombineInt32 cl n)" "GetKey (Some (example_write cl n k v)) = Some k"
  by (simp_all add: GetCombinedCmdID_def GetKey_def) (simp add: example_write_def SimpleRWCommand_def rw_of_piece_def value_at_def at_default_def)

theorem swift_commits_agree_witness:
  "\<exists>S. swift_net 3 S \<and> sd_committed (desc_of 0x80000001 (S 0)) \<and> leader_dep (desc_of 0x80000001 (S 0)) = my_dep (desc_of 0x80000001 (S 0))"
proof -
  let ?c = "example_write 1 1 7 8"
  let ?s0 = "the (OnPropose ?c None (new_swift_server 3 0 False))" and ?s1 = "the (OnPropose ?c None (new_swift_server 3 1 False))"
  let ?a = "\<lparr>ack_replica = 1, ack_ballot = 0, ack_cmd_id = 0x80000001, ack_dep = [], ack_seqnum = 0, ack_key = 7\<rparr>"
  have p: "OnPropose ?c None (new_swift_server 3 0 False) \<noteq> None" "OnPropose ?c None (new_swift_server 3 1 False) \<noteq> None" by code_simp+
  have c: "GetCombinedCmdID (Some ?c) = Some 0x80000001" "\<not> my_dep_set (desc_of 0x80000001 (new_swift_server 3 0 False))"
    "\<not> my_dep_set (desc_of 0x80000001 (new_swift_server 3 1 False))" "FastAckMsg ?a \<in> set (sw_sent ?s1)"
    "sd_committed (desc_of 0x80000001 (OnFastAck ?a ?s0))" by code_simp+
  let ?S0 = "\<lambda>i. new_swift_server 3 i False"
  let ?S1 = "?S0(0 := ?s0)" let ?S2 = "?S1(1 := ?s1)" let ?S3 = "?S2(0 := OnFastAck ?a (?S2 0))"
  have "swift_net 3 ?S1" using p(1) c by (intro net_propose [OF net_init, where i = 0 and cmd = ?c and cid = "0x80000001"]) auto
  then have "swift_net 3 ?S2" using p(2) c by (intro net_propose [where S = ?S1 and i = 1 and cmd = ?c and cid = "0x80000001"]) auto
  then have S3: "swift_net 3 ?S3" using c by (intro net_fast_ack [where S = ?S2 and i = 0 and a = ?a and j = 1]) auto
  have "sd_committed (desc_of 0x80000001 (?S3 0))" using c(5) by simp
  with S3 swift_commits_agree [OF S3 this] show ?thesis by blast
qed

section \<open>What a recovery loses\<close>

text \<open>
  Three replicas. The command reaches all; replica 0, the leader, gets the acknowledgement of replica 1, commits,
  applies the command and answers. Then replica 1 starts a recovery, replica 2 answers it.
\<close>

definition lost_commit :: "(swift_server \<times> swift_server \<times> swift_server) option" where
  "lost_commit =
     do {let c = example_write 1 1 7 8;
         r0 \<leftarrow> swift_run [EvSubmit c 5, EvPropose c] (new_swift_server 3 0 False);
         r1 \<leftarrow> swift_run [EvPropose c] (new_swift_server 3 1 False);
         r2 \<leftarrow> swift_run [EvPropose c] (new_swift_server 3 2 False);
         r0 \<leftarrow> (case sw_sent r1 of FastAckMsg a # _ \<Rightarrow> swift_handle (EvFastAck a) r0 | _ \<Rightarrow> None);
         r1 \<leftarrow> TriggerRecovery r1;
         r2 \<leftarrow> (case last (sw_sent r1) of NewLeaderMsg rep b \<Rightarrow> swift_handle (EvNewLeader rep b) r2 | _ \<Rightarrow> None);
         r1 \<leftarrow> (case last (sw_sent r2) of NewLeaderAckMsg to rep b cb st \<Rightarrow> swift_handle (EvNewLeaderAck rep b cb st) r1 | _ \<Rightarrow> None);
         r2 \<leftarrow> (case last (sw_sent r1) of SyncMsg rep b st \<Rightarrow> swift_handle (EvSync rep b (Some st)) r2 | _ \<Rightarrow> None);
         Some (r0, r1, r2)}"

definition forgotten :: "u64 \<Rightarrow> swift_server \<Rightarrow> bool" where
  "forgotten cid s \<longleftrightarrow> map_of (sw_descs s) cid = None \<and> sw_keys s = []"


text \<open>The same for any replica: replies without a later phase make it drop everything it has not committed.\<close>

lemma merge_states_preaccepted:
  assumes "\<forall>(r, cb, st) \<in> set acks. \<forall>e \<in> set st. en_phase e < ACCEPT"
  shows "merge_states acks = []"
proof -
  have "fold merge_entry es [] = []" if "\<forall>e \<in> set es. en_phase e < ACCEPT" for es
    using that by (induction es) (auto simp: merge_entry_def)
  moreover have "\<forall>e \<in> set (concat (map (\<lambda>(r, cb, st). if cb = max_cballot acks then st else []) (sort_key fst acks))). en_phase e < ACCEPT"
    using assms by fastforce
  ultimately show ?thesis unfolding merge_states_def Let_def by simp
qed

text \<open>
  Two gaps of the commit rule. A replica that commits from acknowledgements before it gets the proposal counts
  the command as delivered without applying it, and does not apply it later. A replica that adopts the
  dependency of the leader when the proposal comes after the leader's acknowledgement does not look at the quorum again.
\<close>

definition commit_before_proposal :: "swift_server option" where
  "commit_before_proposal =
     (let c = example_write 1 1 7 8; a = \<lparr>ack_replica = 0, ack_ballot = 0, ack_cmd_id = 0x80000001, ack_dep = [], ack_seqnum = 1, ack_key = 7\<rparr>
      in swift_run [EvFastAck a, EvFastAck (a\<lparr>ack_replica := 1, ack_seqnum := 0\<rparr>), EvPropose c] (new_swift_server 3 2 False))"

definition proposal_after_leader :: "swift_server option" where
  "proposal_after_leader =
     (let c = example_write 1 1 7 8; a = \<lparr>ack_replica = 0, ack_ballot = 0, ack_cmd_id = 0x80000001, ack_dep = [9], ack_seqnum = 1, ack_key = 7\<rparr>
      in swift_run [EvFastAck a, EvPropose c] (new_swift_server 3 1 False))"

lemma swift_commit_gaps:
  "\<exists>s. commit_before_proposal = Some s \<and> sd_committed (desc_of 0x80000001 s) \<and> sd_delivered (desc_of 0x80000001 s) \<and> sw_applied s = []"
  "\<exists>s. proposal_after_leader = Some s \<and> leader_acked (desc_of 0x80000001 s) \<and> SlowQuorum s \<le> length (endorsers (desc_of 0x80000001 s)) \<and>
     \<not> sd_committed (desc_of 0x80000001 s)"
proof -
  have "case commit_before_proposal of None \<Rightarrow> False | Some s \<Rightarrow> sd_committed (desc_of 0x80000001 s) \<and> sd_delivered (desc_of 0x80000001 s) \<and> sw_applied s = []"
    "case proposal_after_leader of None \<Rightarrow> False | Some s \<Rightarrow> leader_acked (desc_of 0x80000001 s) \<and>
       SlowQuorum s \<le> length (endorsers (desc_of 0x80000001 s)) \<and> \<not> sd_committed (desc_of 0x80000001 s)"
    by code_simp+
  then show "\<exists>s. commit_before_proposal = Some s \<and> sd_committed (desc_of 0x80000001 s) \<and> sd_delivered (desc_of 0x80000001 s) \<and> sw_applied s = []"
    "\<exists>s. proposal_after_leader = Some s \<and> leader_acked (desc_of 0x80000001 s) \<and> SlowQuorum s \<le> length (endorsers (desc_of 0x80000001 s)) \<and>
     \<not> sd_committed (desc_of 0x80000001 s)"
    by (auto split: option.splits)
qed

end
