(* ===== verification/MultiPaxos.thy ===== *)
theory MultiPaxos
  imports Quorum
begin

text \<open>
  Multi-Paxos (\<^verbatim>\<open>paxos/server.cc\<close>, \<^verbatim>\<open>paxos/coordinator.cc\<close>, \<^verbatim>\<open>paxos/commo.cc\<close>, \<^verbatim>\<open>paxos/frame.cc\<close>): the replica at
  location 0 leads, gives every command a slot and a coordinator, skips the prepare phase, has the
  command accepted by a majority and tells all replicas. Slots are 64-bit counters and are \<open>nat\<close> here. \<^verbatim>\<open>app_next_\<close> is called once per
  applied command: the field \<open>px_applied\<close> is that sequence. \<^verbatim>\<open>Prepare\<close> of the coordinator aborts at once, forwarding
  is not called, and the delays \<^verbatim>\<open>WAN_WAIT\<close> and clock readings for log lines have no effect on the state; they are left out.
\<close>

section \<open>The server\<close>

record paxos_data =
  max_ballot_seen :: ballot_t
  max_ballot_accepted :: ballot_t
  accepted_cmd :: "marshallable option"
  committed_cmd :: "marshallable option"

record paxos_server =
  px_min_active :: nat
  px_executed :: nat
  px_committed :: nat
  px_logs :: "(nat \<times> paxos_data) list"
  n_prepare :: int
  n_accept :: int
  n_commit :: int
  in_applying_logs :: bool
  px_applied :: "marshallable list"

definition new_paxos_data :: paxos_data where
  "new_paxos_data = \<lparr>max_ballot_seen = 0, max_ballot_accepted = 0, accepted_cmd = None, committed_cmd = None\<rparr>"

definition new_paxos_server :: paxos_server where
  "new_paxos_server = \<lparr>px_min_active = 0, px_executed = 0, px_committed = 0, px_logs = [], n_prepare = 0, n_accept = 0, n_commit = 0,
     in_applying_logs = False, px_applied = []\<rparr>"

definition put_instance :: "nat \<Rightarrow> paxos_data \<Rightarrow> paxos_server \<Rightarrow> paxos_server" where
  "put_instance i d s = s\<lparr>px_logs := AList.update i d (px_logs s)\<rparr>"

definition GetInstance :: "nat \<Rightarrow> paxos_server \<Rightarrow> (paxos_data \<times> paxos_server) option" where
  "GetInstance i s =
     do {vrfy (i \<ge> px_min_active s);
         let d = at_default new_paxos_data (px_logs s) i;
         Some (d, put_instance i d s)}"

definition OnPrepare :: "nat \<Rightarrow> ballot_t \<Rightarrow> paxos_server \<Rightarrow> (ballot_t \<times> paxos_server) option" where
  "OnPrepare slot b s =
     do {(d, s1) \<leftarrow> GetInstance slot s;
         vrfy (b \<noteq> max_ballot_seen d);
         vrfy (max_ballot_seen d < b);
         Some (b, (put_instance slot (d\<lparr>max_ballot_seen := b\<rparr>) s1)\<lparr>n_prepare := n_prepare s1 + 1\<rparr>)}"

definition OnAccept :: "nat \<Rightarrow> ballot_t \<Rightarrow> marshallable \<Rightarrow> paxos_server \<Rightarrow> (ballot_t \<times> paxos_server) option" where
  "OnAccept slot b cmd s =
     do {(d, s1) \<leftarrow> GetInstance slot s;
         vrfy (max_ballot_seen d \<le> b);
         let d1 = d\<lparr>max_ballot_seen := b, max_ballot_accepted := b\<rparr>;
         Some (max_ballot_seen d1, (put_instance slot d1 s1)\<lparr>n_accept := n_accept s1 + 1\<rparr>)}"

text \<open>The loop over committed slots; \<open>k\<close> is the number of slots left.\<close>

fun apply_committed :: "nat \<Rightarrow> paxos_server \<Rightarrow> paxos_server option" where
  "apply_committed 0 s = Some s"
| "apply_committed (Suc k) s =
     do {(d, s1) \<leftarrow> GetInstance (px_executed s + 1) s;
         case committed_cmd d of
           None \<Rightarrow> Some s1
         | Some c \<Rightarrow> apply_committed k (s1\<lparr>px_applied := px_applied s1 @ [c], px_executed := px_executed s1 + 1, n_commit := n_commit s1 + 1\<rparr>)}"

fun free_slots :: "nat \<Rightarrow> paxos_server \<Rightarrow> paxos_server" where
  "free_slots 0 s = s"
| "free_slots (Suc k) s = free_slots k (s\<lparr>px_logs := AList.delete (px_min_active s) (px_logs s), px_min_active := px_min_active s + 1\<rparr>)"

definition OnCommit :: "nat \<Rightarrow> ballot_t \<Rightarrow> marshallable \<Rightarrow> paxos_server \<Rightarrow> paxos_server option" where
  "OnCommit slot b cmd s =
     do {(d, s1) \<leftarrow> GetInstance slot s;
         let s2 = put_instance slot (d\<lparr>committed_cmd := Some cmd\<rparr>) s1;
         let s3 = s2\<lparr>px_committed := (if slot > px_committed s2 then slot else px_committed s2)\<rparr>;
         vrfy (slot > px_executed s3);
         if in_applying_logs s3 then Some s3
         else do {s4 \<leftarrow> apply_committed (px_committed s3 - px_executed s3) (s3\<lparr>in_applying_logs := True\<rparr>);
                  let s5 = free_slots (px_executed s4 - 1000 - px_min_active s4) s4;
                  Some (s5\<lparr>in_applying_logs := False\<rparr>)}}"

section \<open>The coordinator\<close>

abbreviation (input) INIT_END :: nat where "INIT_END \<equiv> 0"
abbreviation (input) PREPARE_PHASE :: nat where "PREPARE_PHASE \<equiv> 1"
abbreviation (input) ACCEPT_PHASE :: nat where "ACCEPT_PHASE \<equiv> 2"
abbreviation (input) COMMIT_PHASE :: nat where "COMMIT_PHASE \<equiv> 3"

datatype paxos_call = AcceptCall nat ballot_t marshallable | DecideCall nat ballot_t marshallable

record paxos_coo =
  pc_phase :: nat
  in_submission :: bool
  in_accept :: bool
  pc_cmd :: "marshallable option"
  curr_ballot :: ballot_t
  pc_n :: nat
  pc_slot :: nat
  pc_loc :: nat
  pc_committed :: bool
  pc_event :: "quorum_event option"
  pc_called :: nat

text \<open>\<^verbatim>\<open>CreateCoordinator\<close> of the frame: the slot counter moves on.\<close>

definition CreatePaxosCoordinator :: "nat \<Rightarrow> nat \<Rightarrow> nat \<Rightarrow> paxos_coo \<times> nat" where
  "CreatePaxosCoordinator n loc hint =
     (\<lparr>pc_phase = 0, in_submission = False, in_accept = False, pc_cmd = None, curr_ballot = 1, pc_n = n, pc_slot = hint, pc_loc = loc,
       pc_committed = False, pc_event = None, pc_called = 0\<rparr>, hint + 1)"

definition IsPaxosLeader :: "paxos_coo \<Rightarrow> bool" where
  "IsPaxosLeader c \<longleftrightarrow> pc_loc c = 0"

text \<open>\<^verbatim>\<open>Accept\<close> up to its wait, one reply, and what follows the wait.\<close>

definition Accept_send :: "paxos_coo \<Rightarrow> (paxos_call list \<times> paxos_coo) option" where
  "Accept_send c =
     do {vrfy (\<not> in_accept c);
         cmd \<leftarrow> pc_cmd c;
         Some ([AcceptCall (pc_slot c) (curr_ballot c) cmd],
               c\<lparr>in_accept := True, pc_event := Some (new_quorum_event (int (pc_n c)) (int (pc_n c) div 2 + 1))\<rparr>)}"

definition PaxosAccept_FeedResponse :: "bool \<Rightarrow> quorum_event \<Rightarrow> quorum_event" where
  "PaxosAccept_FeedResponse y e = (if y then VoteYes e else VoteNo e)"

definition accept_reply :: "ballot_t \<Rightarrow> paxos_coo \<Rightarrow> paxos_coo" where
  "accept_reply b c = c\<lparr>pc_event := map_option (PaxosAccept_FeedResponse (b = curr_ballot c)) (pc_event c)\<rparr>"

definition Accept_result :: "paxos_coo \<Rightarrow> paxos_coo option" where
  "Accept_result c = do {e \<leftarrow> pc_event c; if Yes e then Some (c\<lparr>pc_committed := True\<rparr>) else None}"

definition Commit :: "paxos_coo \<Rightarrow> (paxos_call list \<times> paxos_coo) option" where
  "Commit c =
     do {cmd \<leftarrow> pc_cmd c;
         vrfy (pc_phase c = COMMIT_PHASE);
         Some ([DecideCall (pc_slot c) (curr_ballot c) cmd], c\<lparr>pc_called := pc_called c + 1, pc_phase := pc_phase c + 1\<rparr>)}"

definition accept_phase :: "paxos_coo \<Rightarrow> (paxos_call list \<times> paxos_coo) option" where
  "accept_phase c = do {vrfy (pc_phase c mod 4 = COMMIT_PHASE); vrfy (pc_committed c); Commit c}"

text \<open>
  \<^verbatim>\<open>GotoNextPhase\<close> up to the wait in \<^verbatim>\<open>Accept\<close>; \<open>Accept_done\<close> is what the first case does after the wait, falling through to the
  second one. No caller is in the phase \<^verbatim>\<open>PREPARE\<close>.
\<close>

definition PaxosGotoNextPhase :: "paxos_coo \<Rightarrow> (paxos_call list \<times> paxos_coo) option" where
  "PaxosGotoNextPhase c =
     (let current = pc_phase c mod 4; c1 = c\<lparr>pc_phase := pc_phase c + 1\<rparr>
      in if current = INIT_END then
           (if IsPaxosLeader c1
            then let c2 = c1\<lparr>pc_phase := pc_phase c1 + 1\<rparr> in do {vrfy (pc_phase c2 mod 4 = ACCEPT_PHASE); Accept_send c2}
            else None)
         else if current = ACCEPT_PHASE then accept_phase c1
         else if current = PREPARE_PHASE then do {vrfy (pc_phase c1 mod 4 = ACCEPT_PHASE); Accept_send c1}
         else Some ([], c1))"

definition Accept_done :: "paxos_coo \<Rightarrow> (paxos_call list \<times> paxos_coo) option" where
  "Accept_done c =
     do {c1 \<leftarrow> Accept_result c;
         let c2 = c1\<lparr>pc_phase := pc_phase c1 + 1\<rparr>;
         vrfy (pc_phase c2 mod 4 = COMMIT_PHASE);
         accept_phase c2}"

text \<open>\<^verbatim>\<open>UNKNOWN\<close> is the kind 0.\<close>

definition PaxosSubmit :: "marshallable \<Rightarrow> paxos_coo \<Rightarrow> (paxos_call list \<times> paxos_coo) option" where
  "PaxosSubmit cmd c =
     do {vrfy (\<not> in_submission c);
         vrfy (pc_cmd c = None);
         vrfy (cmd \<noteq> OTHER_CMD 0);
         PaxosGotoNextPhase (c\<lparr>in_submission := True, pc_cmd := Some cmd\<rparr>)}"

section \<open>The partition as a step relation\<close>

text \<open>
  The calls from the leader to a replica travel over one connection and arrive in order; replies arrive in any
  order, each once. A step is the submission of a command, the service of a call, a reply, or
  the end of a wait. A broken connection is a channel that is never served again.
\<close>

record paxos_net =
  pn_hint :: nat
  pn_coos :: "nat \<Rightarrow> paxos_coo option"
  pn_replica :: "nat \<Rightarrow> paxos_server"
  pn_chan :: "nat \<Rightarrow> paxos_call list"
  pn_replies :: "(nat \<times> nat \<times> ballot_t) set"

definition paxos_start :: paxos_net where
  "paxos_start = \<lparr>pn_hint = 1, pn_coos = \<lambda>_. None, pn_replica = \<lambda>_. new_paxos_server, pn_chan = \<lambda>_. [], pn_replies = {}\<rparr>"

definition paxos_bcast :: "nat \<Rightarrow> paxos_call list \<Rightarrow> paxos_net \<Rightarrow> paxos_net" where
  "paxos_bcast n calls w = w\<lparr>pn_chan := \<lambda>r. if r < n then pn_chan w r @ calls else pn_chan w r\<rparr>"

definition paxos_serve :: "nat \<Rightarrow> paxos_call \<Rightarrow> paxos_net \<Rightarrow> paxos_net option" where
  "paxos_serve r call w =
     (case call of
        AcceptCall slot b cmd \<Rightarrow>
          do {(b', s) \<leftarrow> OnAccept slot b cmd (pn_replica w r);
              Some (w\<lparr>pn_replica := (pn_replica w)(r := s), pn_replies := insert (r, slot, b') (pn_replies w)\<rparr>)}
      | DecideCall slot b cmd \<Rightarrow>
          do {s \<leftarrow> OnCommit slot b cmd (pn_replica w r); Some (w\<lparr>pn_replica := (pn_replica w)(r := s)\<rparr>)})"

definition waiting_ready :: "paxos_coo \<Rightarrow> bool" where
  "waiting_ready c \<longleftrightarrow> pc_phase c = ACCEPT_PHASE \<and> (case pc_event c of None \<Rightarrow> False | Some e \<Rightarrow> IsReady e = Some True)"

inductive paxos_reach :: "nat \<Rightarrow> paxos_net \<Rightarrow> bool" for n where
  start: "paxos_reach n paxos_start"
| submit: "paxos_reach n w \<Longrightarrow> CreatePaxosCoordinator n 0 (pn_hint w) = (c0, hint) \<Longrightarrow> PaxosSubmit cmd c0 = Some (calls, c) \<Longrightarrow>
    paxos_reach n (paxos_bcast n calls (w\<lparr>pn_hint := hint, pn_coos := (pn_coos w)(pc_slot c \<mapsto> c)\<rparr>))"
| serve: "paxos_reach n w \<Longrightarrow> r < n \<Longrightarrow> pn_chan w r = call # rest \<Longrightarrow>
    paxos_serve r call (w\<lparr>pn_chan := (pn_chan w)(r := rest)\<rparr>) = Some w' \<Longrightarrow> paxos_reach n w'"
| reply: "paxos_reach n w \<Longrightarrow> (r, slot, b) \<in> pn_replies w \<Longrightarrow> pn_coos w slot = Some c \<Longrightarrow>
    paxos_reach n (w\<lparr>pn_replies := pn_replies w - {(r, slot, b)}, pn_coos := (pn_coos w)(slot \<mapsto> accept_reply b c)\<rparr>)"
| resume: "paxos_reach n w \<Longrightarrow> pn_coos w slot = Some c \<Longrightarrow> waiting_ready c \<Longrightarrow> Accept_done c = Some (calls, c') \<Longrightarrow>
    paxos_reach n (paxos_bcast n calls (w\<lparr>pn_coos := (pn_coos w)(slot \<mapsto> c')\<rparr>))"

end
