(* ===== verification/PaxosAgreement.thy ===== *)
theory PaxosAgreement
  imports MultiPaxos "HOL-Library.Sublist"
begin

text \<open>
  Multi-Paxos over all replicas. The invariant of a replica (\<open>server_inv\<close>) relates its slots to the commands of the slots in use, to the
  decided slots and to the calls under way to it; the invariant of the partition (\<open>paxos_inv\<close>) adds the coordinators, whose yes
  votes are the replicas that have answered. From it follow agreement (\<open>paxos_logs_agree\<close>), through the locale of a replicated
  log, and progress (\<open>paxos_completes\<close>).
\<close>

section \<open>The slots of a server\<close>

abbreviation slot_of :: "nat \<Rightarrow> paxos_server \<Rightarrow> paxos_data" where
  "slot_of i s \<equiv> at_default new_paxos_data (px_logs s) i"

lemma put_instance_fields [simp]:
  "px_min_active (put_instance i d s) = px_min_active s" "px_executed (put_instance i d s) = px_executed s"
  "px_committed (put_instance i d s) = px_committed s" "px_applied (put_instance i d s) = px_applied s"
  "in_applying_logs (put_instance i d s) = in_applying_logs s" "px_logs (put_instance i d s) = AList.update i d (px_logs s)"
  by (simp_all add: put_instance_def)

lemma GetInstance_Some:
  "px_min_active s \<le> i \<Longrightarrow> GetInstance i s = Some (slot_of i s, put_instance i (slot_of i s) s)"
  by (simp add: GetInstance_def Let_def)

lemma apply_committed_spec:
  assumes "px_min_active s \<le> px_executed s"
  shows "\<exists>s' k. apply_committed m s = Some s' \<and> k \<le> m \<and> px_executed s' = px_executed s + k \<and>
    px_applied s' = px_applied s @ map (\<lambda>j. the (committed_cmd (slot_of j s))) [Suc (px_executed s)..<Suc (px_executed s + k)] \<and>
    (\<forall>j. px_executed s < j \<and> j \<le> px_executed s + k \<longrightarrow> committed_cmd (slot_of j s) \<noteq> None) \<and>
    (k < m \<longrightarrow> committed_cmd (slot_of (Suc (px_executed s + k)) s) = None) \<and>
    (\<forall>j. slot_of j s' = slot_of j s) \<and> px_min_active s' = px_min_active s \<and> px_committed s' = px_committed s \<and>
    in_applying_logs s' = in_applying_logs s"
  using assms
proof (induction m arbitrary: s)
  case (Suc m)
  let ?i = "Suc (px_executed s)" and ?d = "slot_of (Suc (px_executed s)) s"
  have g: "GetInstance (px_executed s + 1) s = Some (?d, put_instance ?i ?d s)" using Suc.prems by (simp add: GetInstance_Some)
  show ?case
  proof (cases "committed_cmd ?d")
    case None
    then show ?thesis using g by (intro exI [of _ "put_instance ?i ?d s"] exI [of _ 0]) auto
  next
    case (Some c)
    let ?s = "(put_instance ?i ?d s)\<lparr>px_applied := px_applied s @ [c], px_executed := ?i, n_commit := n_commit (put_instance ?i ?d s) + 1\<rparr>"
    have sl: "slot_of j ?s = slot_of j s" for j by simp
    have f: "px_executed ?s = ?i" "px_applied ?s = px_applied s @ [c]" "px_min_active ?s = px_min_active s" "px_committed ?s = px_committed s"
      "in_applying_logs ?s = in_applying_logs s" by simp_all
    have "px_min_active ?s \<le> px_executed ?s" using Suc.prems by simp
    from Suc.IH [OF this, unfolded sl f]
    obtain s' k where IH: "apply_committed m ?s = Some s'" "k \<le> m" "px_executed s' = ?i + k"
      "px_applied s' = px_applied s @ [c] @ map (\<lambda>j. the (committed_cmd (slot_of j s))) [Suc ?i..<Suc (?i + k)]"
      "\<forall>j. ?i < j \<and> j \<le> ?i + k \<longrightarrow> committed_cmd (slot_of j s) \<noteq> None"
      "k < m \<longrightarrow> committed_cmd (slot_of (Suc (?i + k)) s) = None" "\<forall>j. slot_of j s' = slot_of j s"
      "px_min_active s' = px_min_active s" "px_committed s' = px_committed s" "in_applying_logs s' = in_applying_logs s"
      unfolding append_assoc by blast
    have "[?i..<Suc (px_executed s + Suc k)] = ?i # [Suc ?i..<Suc (?i + k)]" by (simp add: upt_conv_Cons)
    then have app: "px_applied s' = px_applied s @ map (\<lambda>j. the (committed_cmd (slot_of j s))) [?i..<Suc (px_executed s + Suc k)]"
      using IH(4) Some by simp
    have fill: "committed_cmd (slot_of j s) \<noteq> None" if "px_executed s < j" "j \<le> px_executed s + Suc k" for j
      using that IH(5) Some by (cases "j = ?i") auto
    show ?thesis
      by (intro exI [of _ s'] exI [of _ "Suc k"] conjI) (use g Some IH app fill in simp_all)
  qed
qed auto

lemma free_slots_spec:
  "px_min_active (free_slots k s) = px_min_active s + k \<and> px_executed (free_slots k s) = px_executed s \<and>
   px_committed (free_slots k s) = px_committed s \<and> px_applied (free_slots k s) = px_applied s \<and>
   (\<forall>j \<ge> px_min_active s + k. slot_of j (free_slots k s) = slot_of j s) \<and>
   (\<forall>j. slot_of j (free_slots k s) = slot_of j s \<or> slot_of j (free_slots k s) = new_paxos_data)"
proof (induction k arbitrary: s)
  case (Suc k)
  let ?s = "s\<lparr>px_logs := AList.delete (px_min_active s) (px_logs s), px_min_active := px_min_active s + 1\<rparr>"
  have "slot_of j (free_slots k ?s) = slot_of j s \<or> slot_of j (free_slots k ?s) = new_paxos_data" for j
    using Suc [of ?s] by (cases "j = px_min_active s") (auto dest: spec [of _ j])
  then show ?case using Suc [of ?s] by auto
qed auto

lemma OnAccept_spec:
  assumes "px_min_active s \<le> slot" "max_ballot_seen (slot_of slot s) \<le> b"
  shows "\<exists>s'. OnAccept slot b cmd s = Some (b, s') \<and> px_min_active s' = px_min_active s \<and> px_executed s' = px_executed s \<and>
    px_committed s' = px_committed s \<and> px_applied s' = px_applied s \<and> in_applying_logs s' = in_applying_logs s \<and>
    (\<forall>j. slot_of j s' = (if j = slot then (slot_of slot s)\<lparr>max_ballot_seen := b, max_ballot_accepted := b\<rparr> else slot_of j s))"
  using assms by (simp add: OnAccept_def GetInstance_Some Let_def)

lemma OnCommit_spec:
  assumes "\<not> in_applying_logs s" "px_min_active s \<le> px_executed s" "px_executed s < slot" "px_executed s \<le> px_committed s"
    and C: "C = (\<lambda>j. if j = slot then Some cmd else committed_cmd (slot_of j s))"
  shows "\<exists>s' k. OnCommit slot b cmd s = Some s' \<and> \<not> in_applying_logs s' \<and> px_executed s' = px_executed s + k \<and>
    px_applied s' = px_applied s @ map (\<lambda>j. the (C j)) [Suc (px_executed s)..<Suc (px_executed s + k)] \<and>
    (\<forall>j. px_executed s < j \<and> j \<le> px_executed s + k \<longrightarrow> C j \<noteq> None) \<and>
    px_committed s' = max slot (px_committed s) \<and> px_executed s' \<le> px_committed s' \<and>
    (px_executed s' < px_committed s' \<longrightarrow> C (Suc (px_executed s')) = None) \<and>
    px_min_active s \<le> px_min_active s' \<and> px_min_active s' \<le> px_executed s' \<and>
    (\<forall>j \<ge> px_min_active s'. slot_of j s' = (slot_of j s)\<lparr>committed_cmd := C j\<rparr>) \<and>
    (\<forall>j. slot_of j s' = (slot_of j s)\<lparr>committed_cmd := C j\<rparr> \<or> slot_of j s' = new_paxos_data)"
proof -
  let ?d = "slot_of slot s"
  define s3 where "s3 = (put_instance slot (?d\<lparr>committed_cmd := Some cmd\<rparr>) (put_instance slot ?d s))\<lparr>px_committed := max slot (px_committed s), in_applying_logs := True\<rparr>"
  have s3: "px_executed s3 = px_executed s" "px_min_active s3 = px_min_active s" "px_applied s3 = px_applied s" "px_committed s3 = max slot (px_committed s)"
    "slot_of j s3 = (slot_of j s)\<lparr>committed_cmd := C j\<rparr>" for j
    by (simp_all add: s3_def C)
  obtain s4 k where s4: "apply_committed (max slot (px_committed s) - px_executed s) s3 = Some s4" "k \<le> max slot (px_committed s) - px_executed s"
    "px_executed s4 = px_executed s + k" "px_applied s4 = px_applied s @ map (\<lambda>j. the (C j)) [Suc (px_executed s)..<Suc (px_executed s + k)]"
    "\<forall>j. px_executed s < j \<and> j \<le> px_executed s + k \<longrightarrow> C j \<noteq> None"
    "k < max slot (px_committed s) - px_executed s \<longrightarrow> C (Suc (px_executed s + k)) = None"
    "\<forall>j. slot_of j s4 = (slot_of j s)\<lparr>committed_cmd := C j\<rparr>" "px_min_active s4 = px_min_active s" "px_committed s4 = max slot (px_committed s)"
    using apply_committed_spec [of s3 "max slot (px_committed s) - px_executed s"] assms(2) by (auto simp: s3)
  define t where "t = free_slots (px_executed s4 - 1000 - px_min_active s4) s4"
  have t: "px_min_active t = px_min_active s + (px_executed s4 - 1000 - px_min_active s)" "px_executed t = px_executed s + k"
    "px_committed t = max slot (px_committed s)" "px_applied t = px_applied s4"
    "\<forall>j \<ge> px_min_active t. slot_of j t = (slot_of j s)\<lparr>committed_cmd := C j\<rparr>"
    "\<forall>j. slot_of j t = (slot_of j s)\<lparr>committed_cmd := C j\<rparr> \<or> slot_of j t = new_paxos_data"
    using free_slots_spec [of "px_executed s4 - 1000 - px_min_active s4" s4] s4 by (simp_all add: t_def)
  have "OnCommit slot b cmd s = Some (t\<lparr>in_applying_logs := False\<rparr>)"
    using assms(1-3) s4(1)
    by (cases "px_committed s < slot") (simp_all add: OnCommit_def GetInstance_Some Let_def t_def s3_def max_def)
  then show ?thesis using t s4 assms(2-4)
    by (intro exI [of _ "t\<lparr>in_applying_logs := False\<rparr>"] exI [of _ k] conjI) auto
qed

section \<open>The invariant of a replica\<close>

text \<open>
  \<open>K\<close> gives the command of every slot in use, \<open>D\<close> the slots whose command is decided, \<open>ch\<close> the calls under way to the replica.
\<close>

definition acc_in :: "paxos_call list \<Rightarrow> nat \<Rightarrow> bool" where
  "acc_in ch j \<longleftrightarrow> (\<exists>b m. AcceptCall j b m \<in> set ch)"

definition dec_in :: "paxos_call list \<Rightarrow> nat \<Rightarrow> bool" where
  "dec_in ch j \<longleftrightarrow> (\<exists>b m. DecideCall j b m \<in> set ch)"

lemma call_in_simps [simp]:
  "\<not> acc_in [] j" "\<not> dec_in [] j"
  "acc_in (AcceptCall i b m # ch) j \<longleftrightarrow> i = j \<or> acc_in ch j" "acc_in (DecideCall i b m # ch) j \<longleftrightarrow> acc_in ch j"
  "dec_in (AcceptCall i b m # ch) j \<longleftrightarrow> dec_in ch j" "dec_in (DecideCall i b m # ch) j \<longleftrightarrow> i = j \<or> dec_in ch j"
  "acc_in (xs @ ys) j \<longleftrightarrow> acc_in xs j \<or> acc_in ys j" "dec_in (xs @ ys) j \<longleftrightarrow> dec_in xs j \<or> dec_in ys j"
  by (auto simp: acc_in_def dec_in_def)

fun fifo :: "paxos_call list \<Rightarrow> bool" where
  "fifo [] \<longleftrightarrow> True"
| "fifo (AcceptCall j b m # ch) \<longleftrightarrow> \<not> acc_in ch j \<and> fifo ch"
| "fifo (DecideCall j b m # ch) \<longleftrightarrow> \<not> acc_in ch j \<and> \<not> dec_in ch j \<and> fifo ch"

lemma fifo_snoc:
  "fifo ch \<Longrightarrow> \<not> acc_in ch j \<Longrightarrow> \<not> dec_in ch j \<Longrightarrow> fifo (ch @ [AcceptCall j b m])"
  "fifo ch \<Longrightarrow> \<not> dec_in ch j \<Longrightarrow> fifo (ch @ [DecideCall j b m])"
  by (induction ch rule: fifo.induct) auto

fun call_ok :: "(nat \<Rightarrow> marshallable option) \<Rightarrow> nat set \<Rightarrow> paxos_call \<Rightarrow> bool" where
  "call_ok K D (AcceptCall j b m) \<longleftrightarrow> b = 1 \<and> K j = Some m"
| "call_ok K D (DecideCall j b m) \<longleftrightarrow> b = 1 \<and> K j = Some m \<and> j \<in> D"

lemma call_ok_in:
  "list_all (call_ok K D) ch \<Longrightarrow> acc_in ch j \<Longrightarrow> K j \<noteq> None"
  "list_all (call_ok K D) ch \<Longrightarrow> dec_in ch j \<Longrightarrow> K j \<noteq> None \<and> j \<in> D"
  by (auto simp: acc_in_def dec_in_def list_all_iff)

definition arrived_decision :: "nat set \<Rightarrow> paxos_call list \<Rightarrow> nat \<Rightarrow> bool" where
  "arrived_decision D ch j \<longleftrightarrow> j \<in> D \<and> \<not> dec_in ch j"

definition server_inv :: "(nat \<Rightarrow> marshallable option) \<Rightarrow> nat set \<Rightarrow> paxos_call list \<Rightarrow> paxos_server \<Rightarrow> bool" where
  "server_inv K D ch s \<longleftrightarrow> \<not> in_applying_logs s \<and> px_min_active s \<le> px_executed s \<and> px_executed s \<le> px_committed s \<and>
     (\<forall>j. max_ballot_seen (slot_of j s) \<le> 1) \<and>
     (\<forall>j > px_executed s. committed_cmd (slot_of j s) = (if arrived_decision D ch j then K j else None)) \<and>
     (\<forall>j. arrived_decision D ch j \<longrightarrow> j \<le> px_committed s) \<and>
     (\<forall>j. 0 < j \<and> j \<le> px_executed s \<longrightarrow> arrived_decision D ch j) \<and>
     px_applied s = map (\<lambda>j. the (K j)) [1..<Suc (px_executed s)] \<and>
     committed_cmd (slot_of (Suc (px_executed s)) s) = None \<and>
     (\<forall>j. K j \<noteq> None \<and> \<not> acc_in ch j \<longrightarrow> j < px_min_active s \<or> max_ballot_accepted (slot_of j s) = 1)"

definition chan_inv :: "(nat \<Rightarrow> marshallable option) \<Rightarrow> nat set \<Rightarrow> paxos_call list \<Rightarrow> bool" where
  "chan_inv K D ch \<longleftrightarrow> list_all (call_ok K D) ch \<and> fifo ch \<and> (\<forall>j. acc_in ch j \<and> j \<in> D \<longrightarrow> dec_in ch j)"

text \<open>A new slot, a new decision.\<close>

lemma list_all_call_ok_mono:
  "list_all (call_ok K D) ch \<Longrightarrow> (\<And>j m. K j = Some m \<Longrightarrow> K' j = Some m) \<Longrightarrow> D \<subseteq> D' \<Longrightarrow> list_all (call_ok K' D') ch"
  by (induction ch rule: fifo.induct) auto

lemma chan_inv_submit:
  assumes "chan_inv K D ch" "K j = None" "D \<subseteq> dom K"
  shows "chan_inv (K(j \<mapsto> m)) D (ch @ [AcceptCall j 1 m])"
proof -
  have l: "list_all (call_ok K D) ch" using assms(1) by (simp add: chan_inv_def)
  have n: "\<not> acc_in ch j" "\<not> dec_in ch j" "j \<notin> D" using call_ok_in [OF l, of j] assms(2,3) by auto
  have "list_all (call_ok (K(j \<mapsto> m)) D) ch" by (rule list_all_call_ok_mono [OF l]) (use assms(2) in auto)
  then show ?thesis using assms(1) n by (auto simp: chan_inv_def fifo_snoc)
qed

lemma chan_inv_decide:
  assumes "chan_inv K D ch" "K j = Some m" "j \<notin> D"
  shows "chan_inv K (insert j D) (ch @ [DecideCall j 1 m])"
proof -
  have l: "list_all (call_ok K D) ch" using assms(1) by (simp add: chan_inv_def)
  have n: "\<not> dec_in ch j" using call_ok_in(2) [OF l, of j] assms(3) by auto
  have "list_all (call_ok K (insert j D)) ch" using list_all_call_ok_mono [OF l, of K "insert j D"] by auto
  then show ?thesis using assms n by (auto simp: chan_inv_def fifo_snoc)
qed

lemma server_inv_submit:
  assumes "server_inv K D ch s" "chan_inv K D ch" "K j = None" "D \<subseteq> dom K"
  shows "server_inv (K(j \<mapsto> m)) D (ch @ [AcceptCall j 1 m]) s"
proof -
  have a: "arrived_decision D (ch @ [AcceptCall j 1 m]) i = arrived_decision D ch i" for i by (simp add: arrived_decision_def)
  have n: "\<not> arrived_decision D ch j" using assms(3,4) by (auto simp: arrived_decision_def)
  have le: "i \<noteq> j" if "0 < i" "i \<le> px_executed s" for i using assms(1) n that by (auto simp: server_inv_def)
  have "the ((K(j \<mapsto> m)) i) = the (K i)" if "i \<in> set [1..<Suc (px_executed s)]" for i
    using le [of i] that by auto
  then have "map (\<lambda>i. the ((K(j \<mapsto> m)) i)) [1..<Suc (px_executed s)] = map (\<lambda>i. the (K i)) [1..<Suc (px_executed s)]"
    by (rule map_cong [OF refl])
  then show ?thesis using assms(1) n by (auto simp: server_inv_def a)
qed

lemma server_inv_decide:
  assumes "server_inv K D ch s" "j \<notin> D" "K j = Some m"
  shows "server_inv K (insert j D) (ch @ [DecideCall j 1 m]) s"
proof -
  have "arrived_decision (insert j D) (ch @ [DecideCall j 1 m]) i = arrived_decision D ch i" for i
    using assms(2) by (auto simp: arrived_decision_def)
  then show ?thesis using assms(1) by (simp add: server_inv_def)
qed

text \<open>Calls that arrive.\<close>

lemma server_inv_accept:
  assumes "server_inv K D (AcceptCall j 1 m # ch) s" "chan_inv K D (AcceptCall j 1 m # ch)" "K 0 = None"
  shows "\<exists>s'. OnAccept j 1 m s = Some (1, s') \<and> server_inv K D ch s' \<and> chan_inv K D ch"
proof -
  have a: "arrived_decision D (AcceptCall j 1 m # ch) i = arrived_decision D ch i" for i by (simp add: arrived_decision_def)
  have j: "0 < j" using assms(2,3) by (cases j) (auto simp: chan_inv_def)
  have "j \<in> D \<Longrightarrow> dec_in ch j" using assms(2) by (auto simp: chan_inv_def)
  then have "\<not> arrived_decision D ch j" by (auto simp: arrived_decision_def)
  then have "px_executed s < j" using assms(1) j by (force simp: server_inv_def a)
  then have "px_min_active s \<le> j" "max_ballot_seen (slot_of j s) \<le> 1" using assms(1) by (auto simp: server_inv_def)
  from OnAccept_spec [OF this, of m]
  obtain s' where s': "OnAccept j 1 m s = Some (1, s')" "px_min_active s' = px_min_active s" "px_executed s' = px_executed s"
    "px_committed s' = px_committed s" "px_applied s' = px_applied s" "in_applying_logs s' = in_applying_logs s"
    "\<And>i. slot_of i s' = (if i = j then (slot_of j s)\<lparr>max_ballot_seen := 1, max_ballot_accepted := 1\<rparr> else slot_of i s)" by auto
  have "committed_cmd (slot_of i s') = committed_cmd (slot_of i s)" "max_ballot_seen (slot_of i s') \<le> 1" for i
    using assms(1) by (simp_all add: s'(7) server_inv_def)
  then have "server_inv K D ch s'" using assms(1) unfolding server_inv_def s'(2-6) a by (auto simp: s'(7))
  moreover have "chan_inv K D ch" using assms(2) by (auto simp: chan_inv_def)
  ultimately show ?thesis using s'(1) by blast
qed

lemma server_inv_commit:
  assumes "server_inv K D (DecideCall j 1 m # ch) s" "chan_inv K D (DecideCall j 1 m # ch)" "K 0 = None" "D \<subseteq> dom K"
  shows "\<exists>s'. OnCommit j 1 m s = Some s' \<and> server_inv K D ch s' \<and> chan_inv K D ch"
proof -
  let ?A = "arrived_decision D (DecideCall j 1 m # ch)" and ?B = "arrived_decision D ch"
  have jD: "j \<in> D" "K j = Some m" "\<not> dec_in ch j" "\<not> acc_in ch j" using assms(2) by (auto simp: chan_inv_def)
  have B: "?B i = (i = j \<or> ?A i)" for i using jD by (auto simp: arrived_decision_def)
  have nA: "\<not> ?A j" by (simp add: arrived_decision_def)
  have j: "0 < j" using jD(2) assms(3) by (cases j) auto
  then have x: "px_executed s < j" using assms(1) nA by (force simp: server_inv_def)
  have pre: "\<not> in_applying_logs s" "px_min_active s \<le> px_executed s" "px_executed s \<le> px_committed s" using assms(1) by (auto simp: server_inv_def)
  define C where "C = (\<lambda>i. if i = j then Some m else committed_cmd (slot_of i s))"
  have C: "C i = (if ?B i then K i else None)" if "px_executed s < i" for i
    using that assms(1) jD by (auto simp: C_def B server_inv_def)
  obtain s' k where s': "OnCommit j 1 m s = Some s'" "\<not> in_applying_logs s'" "px_executed s' = px_executed s + k"
    "px_applied s' = px_applied s @ map (\<lambda>i. the (C i)) [Suc (px_executed s)..<Suc (px_executed s + k)]"
    "\<And>i. px_executed s < i \<Longrightarrow> i \<le> px_executed s + k \<Longrightarrow> C i \<noteq> None" "px_committed s' = max j (px_committed s)" "px_executed s' \<le> px_committed s'"
    "px_executed s' < px_committed s' \<Longrightarrow> C (Suc (px_executed s')) = None" "px_min_active s \<le> px_min_active s'" "px_min_active s' \<le> px_executed s'"
    "\<And>i. px_min_active s' \<le> i \<Longrightarrow> slot_of i s' = (slot_of i s)\<lparr>committed_cmd := C i\<rparr>"
    "\<And>i. slot_of i s' = (slot_of i s)\<lparr>committed_cmd := C i\<rparr> \<or> slot_of i s' = new_paxos_data"
    using OnCommit_spec [OF pre(1,2) x pre(3) C_def, of 1] by blast
  have seen: "max_ballot_seen (slot_of i s') \<le> 1" for i
    using s'(12) [of i] assms(1) by (auto simp: server_inv_def new_paxos_data_def)
  have com: "committed_cmd (slot_of i s') = (if ?B i then K i else None)" if "px_executed s' < i" for i
    using s'(11) [of i] s'(3,10) C [of i] that by simp
  have low: "?B i \<Longrightarrow> i \<le> px_committed s'" for i using assms(1) unfolding B s'(6) server_inv_def by auto
  have up: "?B i" if "0 < i" "i \<le> px_executed s'" for i
  proof (cases "i \<le> px_executed s")
    case True
    then show ?thesis using that assms(1) by (simp add: B server_inv_def)
  next
    case False
    then show ?thesis using s'(5) [of i] C [of i] that s'(3) by (auto split: if_splits)
  qed
  have "map (\<lambda>i. the (C i)) [Suc (px_executed s)..<Suc (px_executed s + k)] = map (\<lambda>i. the (K i)) [Suc (px_executed s)..<Suc (px_executed s + k)]"
    using C up s'(3) by (intro map_cong) auto
  moreover have "[1..<Suc (px_executed s)] @ [Suc (px_executed s)..<Suc (px_executed s + k)] = [1..<Suc (px_executed s + k)]"
    by (metis One_nat_def Suc_le_mono add_Suc le0 upt_add_eq_append)
  ultimately have app: "px_applied s' = map (\<lambda>i. the (K i)) [1..<Suc (px_executed s')]"
    using s'(3,4) assms(1) unfolding server_inv_def by (metis map_append)
  have last: "committed_cmd (slot_of (Suc (px_executed s')) s') = None"
  proof (cases "px_executed s' < px_committed s'")
    case True
    then show ?thesis using s'(8,10) s'(11) [of "Suc (px_executed s')"] by simp
  next
    case False
    then have "\<not> ?B (Suc (px_executed s'))" using low by fastforce
    then show ?thesis by (simp add: com)
  qed
  have acc: "i < px_min_active s' \<or> max_ballot_accepted (slot_of i s') = 1" if "K i \<noteq> None" "\<not> acc_in ch i" for i
    using assms(1) that s'(9) s'(11) [of i] by (cases "px_min_active s' \<le> i") (auto simp: server_inv_def)
  have "server_inv K D ch s'" unfolding server_inv_def
    using s'(2,7,10) seen com low up app last acc by blast
  moreover have "chan_inv K D ch" using assms(2) jD by (auto simp: chan_inv_def)
  ultimately show ?thesis using s'(1) by blast
qed

section \<open>The invariant of the partition\<close>

definition cmd_at :: "paxos_net \<Rightarrow> nat \<Rightarrow> marshallable option" where
  "cmd_at w j = Option.bind (pn_coos w j) pc_cmd"

definition decided_slots :: "paxos_net \<Rightarrow> nat set" where
  "decided_slots w = {j. \<exists>c. pn_coos w j = Some c \<and> pc_committed c}"

definition voters :: "nat \<Rightarrow> paxos_net \<Rightarrow> nat \<Rightarrow> nat set" where
  "voters n w j = {r. r < n \<and> \<not> acc_in (pn_chan w r) j \<and> (\<forall>b. (r, j, b) \<notin> pn_replies w)}"

definition paxos_coo_inv :: "nat \<Rightarrow> nat set \<Rightarrow> nat \<Rightarrow> paxos_coo \<Rightarrow> bool" where
  "paxos_coo_inv n V j c \<longleftrightarrow> pc_slot c = j \<and> curr_ballot c = 1 \<and> pc_n c = n \<and> pc_cmd c \<noteq> None \<and>
     pc_phase c = (if pc_committed c then 4 else 2) \<and> pc_called c = of_bool (pc_committed c) \<and>
     (\<exists>e. pc_event c = Some e \<and> n_total e = int n \<and> quorum e = int n div 2 + 1 \<and> \<not> timeouted e \<and> n_voted_no e = 0 \<and> n_voted_yes e = int (card V)) \<and>
     (pc_committed c \<longrightarrow> n div 2 + 1 \<le> card V)"

definition paxos_inv :: "nat \<Rightarrow> paxos_net \<Rightarrow> bool" where
  "paxos_inv n w \<longleftrightarrow> 0 < pn_hint w \<and> (\<forall>j. pn_coos w j \<noteq> None \<longleftrightarrow> 0 < j \<and> j < pn_hint w) \<and>
     (\<forall>j c. pn_coos w j = Some c \<longrightarrow> paxos_coo_inv n (voters n w j) j c) \<and>
     (\<forall>r < n. server_inv (cmd_at w) (decided_slots w) (pn_chan w r) (pn_replica w r) \<and> chan_inv (cmd_at w) (decided_slots w) (pn_chan w r)) \<and>
     (\<forall>r j b. (r, j, b) \<in> pn_replies w \<longrightarrow> b = 1 \<and> r < n \<and> pn_coos w j \<noteq> None \<and> \<not> acc_in (pn_chan w r) j)"

lemma paxos_invD:
  assumes "paxos_inv n w"
  shows "pn_coos w j = Some c \<Longrightarrow> paxos_coo_inv n (voters n w j) j c"
    "r < n \<Longrightarrow> server_inv (cmd_at w) (decided_slots w) (pn_chan w r) (pn_replica w r)"
    "r < n \<Longrightarrow> chan_inv (cmd_at w) (decided_slots w) (pn_chan w r)"
    "(r, j, b) \<in> pn_replies w \<Longrightarrow> b = 1 \<and> r < n \<and> pn_coos w j \<noteq> None \<and> \<not> acc_in (pn_chan w r) j"
    "cmd_at w 0 = None" "decided_slots w \<subseteq> dom (cmd_at w)" "pn_coos w j \<noteq> None \<longleftrightarrow> 0 < j \<and> j < pn_hint w" "0 < pn_hint w"
proof -
  show "decided_slots w \<subseteq> dom (cmd_at w)"
  proof
    fix j assume "j \<in> decided_slots w"
    then obtain c where c: "pn_coos w j = Some c" by (auto simp: decided_slots_def)
    then have "pc_cmd c \<noteq> None" using assms by (auto simp: paxos_inv_def paxos_coo_inv_def)
    with c show "j \<in> dom (cmd_at w)" by (auto simp: cmd_at_def)
  qed
  have "pn_coos w 0 = None" using assms by (auto simp: paxos_inv_def)
  then show "cmd_at w 0 = None" by (simp add: cmd_at_def)
qed (use assms in \<open>auto simp: paxos_inv_def\<close>)

lemma paxos_inv_start: "paxos_inv n paxos_start"
  by (auto simp: paxos_inv_def paxos_start_def server_inv_def chan_inv_def new_paxos_server_def new_paxos_data_def
      arrived_decision_def decided_slots_def cmd_at_def)

lemma PaxosSubmit_spec:
  "PaxosSubmit cmd (fst (CreatePaxosCoordinator n 0 h)) = Some (calls, c) \<Longrightarrow>
   calls = [AcceptCall h 1 cmd] \<and> pc_cmd c = Some cmd \<and> \<not> pc_committed c \<and> paxos_coo_inv n {} h c"
  by (auto simp: PaxosSubmit_def CreatePaxosCoordinator_def PaxosGotoNextPhase_def IsPaxosLeader_def Accept_send_def paxos_coo_inv_def Let_def)

lemma paxos_inv_submit:
  assumes "paxos_inv n w" "CreatePaxosCoordinator n 0 (pn_hint w) = (c0, hint)" "PaxosSubmit cmd c0 = Some (calls, c)"
  shows "paxos_inv n (paxos_bcast n calls (w\<lparr>pn_hint := hint, pn_coos := (pn_coos w)(pc_slot c \<mapsto> c)\<rparr>))"
proof -
  let ?h = "pn_hint w"
  note I = paxos_invD [OF assms(1)]
  have h: "hint = Suc ?h" using assms(2) by (simp add: CreatePaxosCoordinator_def)
  have c: "calls = [AcceptCall ?h 1 cmd]" "pc_cmd c = Some cmd" "\<not> pc_committed c" "paxos_coo_inv n {} ?h c"
    using PaxosSubmit_spec [of cmd n ?h calls c] assms(2,3) by auto
  then have slot: "pc_slot c = ?h" by (simp add: paxos_coo_inv_def)
  let ?w = "paxos_bcast n calls (w\<lparr>pn_hint := hint, pn_coos := (pn_coos w)(pc_slot c \<mapsto> c)\<rparr>)"
  have coos: "pn_coos ?w = (pn_coos w)(?h \<mapsto> c)" by (simp add: paxos_bcast_def slot)
  have new: "pn_coos w ?h = None" using I(7) [of ?h] by auto
  have K: "cmd_at ?w = (cmd_at w)(?h \<mapsto> cmd)" using c(2) by (auto simp: cmd_at_def paxos_bcast_def slot)
  have D: "decided_slots ?w = decided_slots w" using c(3) new by (auto simp: decided_slots_def paxos_bcast_def slot)
  have ch: "pn_chan ?w r = pn_chan w r @ [AcceptCall ?h 1 cmd]" if "r < n" for r using that by (simp add: paxos_bcast_def c(1))
  have none: "cmd_at w ?h = None" using new by (simp add: cmd_at_def)
  have V: "voters n ?w j = (if j = ?h then {} else voters n w j)" for j using ch by (auto simp: voters_def paxos_bcast_def)
  have "paxos_coo_inv n (voters n ?w j) j d" if "pn_coos ?w j = Some d" for j d
    using that I(1) [of j d] c(4) unfolding V coos by (auto split: if_splits)
  moreover have "server_inv (cmd_at ?w) (decided_slots ?w) (pn_chan ?w r) (pn_replica ?w r) \<and> chan_inv (cmd_at ?w) (decided_slots ?w) (pn_chan ?w r)" if "r < n" for r
    using server_inv_submit [OF I(2) [OF that] I(3) [OF that] none I(6)] chan_inv_submit [OF I(3) [OF that] none I(6)]
    unfolding K D ch [OF that] by (simp add: paxos_bcast_def)
  moreover have "b = 1 \<and> r < n \<and> pn_coos ?w j \<noteq> None \<and> \<not> acc_in (pn_chan ?w r) j" if "(r, j, b) \<in> pn_replies ?w" for r j b
    using I(4) [of r j b] that new by (auto simp: paxos_bcast_def c(1))
  moreover have "pn_coos ?w j \<noteq> None \<longleftrightarrow> 0 < j \<and> j < pn_hint ?w" for j using I(7) [of j] I(8) by (auto simp: paxos_bcast_def slot h)
  moreover have "0 < pn_hint ?w" by (simp add: paxos_bcast_def h)
  ultimately show ?thesis unfolding paxos_inv_def by blast
qed

lemma paxos_serve_inv:
  assumes "paxos_inv n w" "r < n" "pn_chan w r = call # rest"
  shows "\<exists>w'. paxos_serve r call (w\<lparr>pn_chan := (pn_chan w)(r := rest)\<rparr>) = Some w' \<and> paxos_inv n w'"
proof -
  note I = paxos_invD [OF assms(1)]
  have inv: "server_inv (cmd_at w) (decided_slots w) (call # rest) (pn_replica w r)" "chan_inv (cmd_at w) (decided_slots w) (call # rest)"
    using I(2,3) [OF assms(2)] by (simp_all add: assms(3))
  have old: "\<not> acc_in rest i" if "(r, i, b') \<in> pn_replies w" for i b' using I(4) [OF that] assms(3) by (auto simp: acc_in_def)
  have *: "paxos_inv n w'" if w': "pn_hint w' = pn_hint w" "pn_coos w' = pn_coos w" "pn_chan w' = (pn_chan w)(r := rest)"
      "pn_replica w' = (pn_replica w)(r := s')" "\<And>j. voters n w' j = voters n w j"
    and s': "server_inv (cmd_at w) (decided_slots w) rest s'" "chan_inv (cmd_at w) (decided_slots w) rest"
    and rep: "\<And>r' j b. (r', j, b) \<in> pn_replies w' \<Longrightarrow> b = 1 \<and> r' < n \<and> pn_coos w j \<noteq> None \<and> \<not> acc_in (pn_chan w' r') j" for w' s'
  proof -
    have "cmd_at w' = cmd_at w" "decided_slots w' = decided_slots w" by (auto simp: cmd_at_def decided_slots_def w')
    then show ?thesis using assms(1) s' rep unfolding paxos_inv_def w' by auto
  qed
  show ?thesis
  proof (cases call)
    case (AcceptCall j b m)
    have b: "b = 1" "cmd_at w j \<noteq> None" using inv(2) AcceptCall by (auto simp: chan_inv_def)
    then have j: "pn_coos w j \<noteq> None" by (cases "pn_coos w j") (auto simp: cmd_at_def)
    have na: "\<not> acc_in rest j" using inv(2) AcceptCall by (auto simp: chan_inv_def)
    obtain s' where s': "OnAccept j b m (pn_replica w r) = Some (1, s')" "server_inv (cmd_at w) (decided_slots w) rest s'" "chan_inv (cmd_at w) (decided_slots w) rest"
      using server_inv_accept [OF inv(1) [unfolded AcceptCall b(1)] inv(2) [unfolded AcceptCall b(1)] I(5)] b(1) by auto
    let ?w = "w\<lparr>pn_chan := (pn_chan w)(r := rest), pn_replica := (pn_replica w)(r := s'), pn_replies := insert (r, j, 1) (pn_replies w)\<rparr>"
    have V: "voters n ?w i = voters n w i" for i
      using assms(3) AcceptCall by (auto simp: voters_def)
    have "paxos_inv n ?w"
      by (rule * [of ?w s']) (use V s' j na old assms(2,3) I(4) in \<open>auto split: if_splits\<close>)
    then show ?thesis using s'(1) by (simp add: paxos_serve_def AcceptCall)
  next
    case (DecideCall j b m)
    have b: "b = 1" using inv(2) DecideCall by (auto simp: chan_inv_def)
    obtain s' where s': "OnCommit j b m (pn_replica w r) = Some s'" "server_inv (cmd_at w) (decided_slots w) rest s'" "chan_inv (cmd_at w) (decided_slots w) rest"
      using server_inv_commit [OF inv(1) [unfolded DecideCall b] inv(2) [unfolded DecideCall b] I(5,6)] b by auto
    let ?w = "w\<lparr>pn_chan := (pn_chan w)(r := rest), pn_replica := (pn_replica w)(r := s')\<rparr>"
    have V: "voters n ?w i = voters n w i" for i using assms(3) DecideCall by (auto simp: voters_def)
    have "paxos_inv n ?w"
      by (rule * [of ?w s']) (use V s' old assms(2,3) I(4) in \<open>auto split: if_splits\<close>)
    then show ?thesis using s'(1) by (simp add: paxos_serve_def DecideCall)
  qed
qed

lemma paxos_inv_reply:
  assumes "paxos_inv n w" "(r, j, b) \<in> pn_replies w" "pn_coos w j = Some c"
  shows "paxos_inv n (w\<lparr>pn_replies := pn_replies w - {(r, j, b)}, pn_coos := (pn_coos w)(j \<mapsto> accept_reply b c)\<rparr>)"
proof -
  let ?w = "w\<lparr>pn_replies := pn_replies w - {(r, j, b)}, pn_coos := (pn_coos w)(j \<mapsto> accept_reply b c)\<rparr>"
  note I = paxos_invD [OF assms(1)]
  have r: "b = 1" "r < n" "\<not> acc_in (pn_chan w r) j" using I(4) [OF assms(2)] by auto
  have same: "pc_cmd (accept_reply b c) = pc_cmd c" "pc_committed (accept_reply b c) = pc_committed c" by (simp_all add: accept_reply_def)
  have K: "cmd_at ?w = cmd_at w" "decided_slots ?w = decided_slots w" using assms(3) by (auto simp: cmd_at_def decided_slots_def same)
  have only: "(r, j, b') \<in> pn_replies w \<longleftrightarrow> b' = b" for b' using I(4) [of r j b'] assms(2) r(1) by auto
  have V: "voters n ?w i = (if i = j then insert r (voters n w j) else voters n w i)" for i
    using r only by (auto simp: voters_def)
  have fin: "finite (voters n w j)" "r \<notin> voters n w j" using assms(2) by (auto simp: voters_def)
  have "paxos_coo_inv n (insert r (voters n w j)) j (accept_reply b c)"
    using I(1) [OF assms(3)] fin r(1) by (auto simp: paxos_coo_inv_def accept_reply_def PaxosAccept_FeedResponse_def VoteYes_def)
  then have "paxos_coo_inv n (voters n ?w i) i d" if "pn_coos ?w i = Some d" for i d
    using that I(1) [of i d] unfolding V by (auto split: if_splits)
  moreover have "pn_coos ?w i \<noteq> None \<longleftrightarrow> 0 < i \<and> i < pn_hint ?w" for i using I(7) [of i] I(7) [of j] assms(3) by auto
  moreover have "server_inv (cmd_at ?w) (decided_slots ?w) (pn_chan ?w i) (pn_replica ?w i) \<and> chan_inv (cmd_at ?w) (decided_slots ?w) (pn_chan ?w i)" if "i < n" for i
    using I(2,3) [OF that] unfolding K by simp
  moreover have "b' = 1 \<and> r' < n \<and> pn_coos ?w i \<noteq> None \<and> \<not> acc_in (pn_chan ?w r') i" if "(r', i, b') \<in> pn_replies ?w" for r' i b'
    using I(4) [of r' i b'] that by auto
  moreover have "0 < pn_hint ?w" using I(8) by simp
  ultimately show ?thesis unfolding paxos_inv_def by blast
qed

lemma Accept_done_spec:
  assumes "paxos_coo_inv n V j c" "waiting_ready c"
  shows "\<exists>m. pc_cmd c = Some m \<and> \<not> pc_committed c \<and> n div 2 + 1 \<le> card V \<and>
    Accept_done c = Some ([DecideCall j 1 m], c\<lparr>pc_committed := True, pc_phase := 4, pc_called := 1\<rparr>) \<and>
    paxos_coo_inv n V j (c\<lparr>pc_committed := True, pc_phase := 4, pc_called := 1\<rparr>)"
proof -
  obtain e where e: "pc_event c = Some e" "n_total e = int n" "quorum e = int n div 2 + 1" "\<not> timeouted e" "n_voted_no e = 0" "n_voted_yes e = int (card V)"
    using assms(1) by (auto simp: paxos_coo_inv_def)
  have p: "\<not> pc_committed c" "pc_phase c = 2" using assms by (auto simp: paxos_coo_inv_def waiting_ready_def split: if_splits)
  have "Yes e" using assms(2) e by (auto simp: waiting_ready_def IsReady_def No_def split: if_splits)
  moreover from this have "int (n div 2) + 1 \<le> int (card V)" using e by (simp add: Yes_def zdiv_int)
  then have "n div 2 + 1 \<le> card V" by linarith
  moreover obtain m where m: "pc_cmd c = Some m" "pc_slot c = j" "curr_ballot c = 1" "pc_n c = n" "pc_called c = 0"
    using assms(1) p(1) by (auto simp: paxos_coo_inv_def)
  ultimately show ?thesis using e p
    by (simp add: paxos_coo_inv_def Accept_done_def Accept_result_def accept_phase_def Commit_def Let_def)
qed

lemma paxos_inv_resume:
  assumes "paxos_inv n w" "pn_coos w j = Some c" "waiting_ready c" "Accept_done c = Some (calls, c')"
  shows "paxos_inv n (paxos_bcast n calls (w\<lparr>pn_coos := (pn_coos w)(j \<mapsto> c')\<rparr>))"
proof -
  let ?w = "paxos_bcast n calls (w\<lparr>pn_coos := (pn_coos w)(j \<mapsto> c')\<rparr>)"
  note I = paxos_invD [OF assms(1)]
  obtain m where c: "pc_cmd c = Some m" "\<not> pc_committed c" "calls = [DecideCall j 1 m]" "pc_cmd c' = Some m" "pc_committed c'"
    "paxos_coo_inv n (voters n w j) j c'"
    using Accept_done_spec [OF I(1) [OF assms(2)] assms(3)] assms(4) by auto
  have K: "cmd_at ?w = cmd_at w" using assms(2) c by (auto simp: cmd_at_def paxos_bcast_def)
  have D: "decided_slots ?w = insert j (decided_slots w)" using c(5) by (auto simp: decided_slots_def paxos_bcast_def)
  have ch: "pn_chan ?w r = pn_chan w r @ [DecideCall j 1 m]" if "r < n" for r using that by (simp add: paxos_bcast_def c(3))
  have new: "j \<notin> decided_slots w" "cmd_at w j = Some m" using assms(2) c by (auto simp: decided_slots_def cmd_at_def)
  have V: "voters n ?w i = voters n w i" for i using ch by (auto simp: voters_def paxos_bcast_def)
  have "paxos_coo_inv n (voters n ?w i) i d" if "pn_coos ?w i = Some d" for i d
    using that I(1) [of i d] c(6) unfolding V by (auto simp: paxos_bcast_def split: if_splits)
  moreover have "server_inv (cmd_at ?w) (decided_slots ?w) (pn_chan ?w r) (pn_replica ?w r) \<and> chan_inv (cmd_at ?w) (decided_slots ?w) (pn_chan ?w r)" if "r < n" for r
    using server_inv_decide [OF I(2) [OF that] new] chan_inv_decide [OF I(3) [OF that] new(2,1)]
    unfolding K D ch [OF that] by (simp add: paxos_bcast_def)
  moreover have "b = 1 \<and> r < n \<and> pn_coos ?w i \<noteq> None \<and> \<not> acc_in (pn_chan ?w r) i" if "(r, i, b) \<in> pn_replies ?w" for r i b
    using I(4) [of r i b] that by (auto simp: paxos_bcast_def c(3))
  moreover have "pn_coos ?w i \<noteq> None \<longleftrightarrow> 0 < i \<and> i < pn_hint ?w" for i using I(7) [of i] I(7) [of j] assms(2) by (auto simp: paxos_bcast_def)
  moreover have "0 < pn_hint ?w" using I(8) by (simp add: paxos_bcast_def)
  ultimately show ?thesis unfolding paxos_inv_def by blast
qed

lemma paxos_reach_inv: "paxos_reach n w \<Longrightarrow> paxos_inv n w"
proof (induction rule: paxos_reach.induct)
  case (serve w r call rest w')
  then show ?case using paxos_serve_inv [of n w r call rest] by simp
qed (simp_all add: paxos_inv_start paxos_inv_submit paxos_inv_reply paxos_inv_resume)

section \<open>Replicas that apply a common sequence\<close>

text \<open>
  The contract of a replicated log: whatever a member applied at a position is what is decided for that position. It makes the
  logs of two members comparable.
\<close>

locale replicated_log =
  fixes reached :: "'w \<Rightarrow> bool" and member :: "'w \<Rightarrow> 'r \<Rightarrow> bool" and log :: "'w \<Rightarrow> 'r \<Rightarrow> 'c list" and decided :: "'w \<Rightarrow> nat \<Rightarrow> 'c option"
  assumes log_decided: "reached w \<Longrightarrow> member w r \<Longrightarrow> k < length (log w r) \<Longrightarrow> decided w k = Some (log w r ! k)"
begin

lemma log_take:
  assumes "reached w" "member w r" "member w q" "length (log w r) \<le> length (log w q)"
  shows "log w r = take (length (log w r)) (log w q)"
proof (rule nth_equalityI)
  fix k assume k: "k < length (log w r)"
  then have "decided w k = Some (log w r ! k)" "decided w k = Some (log w q ! k)"
    using assms by (auto intro: log_decided)
  then show "log w r ! k = take (length (log w r)) (log w q) ! k" using k by simp
qed (use assms(4) in simp)

lemma logs_comparable:
  assumes "reached w" "member w r" "member w q"
  shows "prefix (log w r) (log w q) \<or> prefix (log w q) (log w r)"
  using log_take [OF assms] log_take [OF assms(1,3,2)] take_is_prefix [of _ "log w q"] take_is_prefix [of _ "log w r"]
  by (metis nle_le)

end

interpretation px: replicated_log "paxos_inv n" "\<lambda>w r. r < n" "\<lambda>w r. px_applied (pn_replica w r)" "\<lambda>w k. cmd_at w (Suc k)"
proof
  fix w r k
  assume a: "paxos_inv n w" "r < n" "k < length (px_applied (pn_replica w r))"
  let ?s = "pn_replica w r"
  have s: "server_inv (cmd_at w) (decided_slots w) (pn_chan w r) ?s" using paxos_invD(2) [OF a(1,2)] .
  then have app: "px_applied ?s = map (\<lambda>j. the (cmd_at w j)) [1..<Suc (px_executed ?s)]" by (simp add: server_inv_def)
  then have k: "k < px_executed ?s" using a(3) by (simp del: upt_Suc)
  then have "0 < Suc k \<and> Suc k \<le> px_executed ?s" by simp
  then have "arrived_decision (decided_slots w) (pn_chan w r) (Suc k)" using s unfolding server_inv_def by blast
  then have "cmd_at w (Suc k) \<noteq> None" using paxos_invD(6) [OF a(1)] by (auto simp: arrived_decision_def)
  then show "cmd_at w (Suc k) = Some (px_applied ?s ! k)" using k by (auto simp: app simp del: upt_Suc)
qed

section \<open>Agreement and progress\<close>

lemma paxos_applied_decided:
  assumes "paxos_inv n w" "r < n" "k < length (px_applied (pn_replica w r))"
  shows "Suc k \<in> decided_slots w"
proof -
  have s: "server_inv (cmd_at w) (decided_slots w) (pn_chan w r) (pn_replica w r)" using paxos_invD(2) [OF assms(1,2)] .
  then have "k < px_executed (pn_replica w r)" using assms(3) by (simp add: server_inv_def del: upt_Suc)
  then have "0 < Suc k \<and> Suc k \<le> px_executed (pn_replica w r)" by simp
  then have "arrived_decision (decided_slots w) (pn_chan w r) (Suc k)" using s unfolding server_inv_def by blast
  then show ?thesis by (simp add: arrived_decision_def)
qed

lemma paxos_decided_accepted:
  assumes "paxos_inv n w" "pn_coos w j = Some c" "pc_committed c"
  shows "n div 2 + 1 \<le> card {r. r < n \<and> (j < px_min_active (pn_replica w r) \<or> max_ballot_accepted (slot_of j (pn_replica w r)) = 1)}"
proof -
  let ?A = "{r. r < n \<and> (j < px_min_active (pn_replica w r) \<or> max_ballot_accepted (slot_of j (pn_replica w r)) = 1)}"
  have c: "paxos_coo_inv n (voters n w j) j c" using paxos_invD(1) [OF assms(1,2)] .
  then have m: "n div 2 + 1 \<le> card (voters n w j)" "cmd_at w j \<noteq> None"
    using assms(2,3) by (auto simp: paxos_coo_inv_def cmd_at_def)
  have "voters n w j \<subseteq> ?A"
  proof
    fix r assume r: "r \<in> voters n w j"
    then have "server_inv (cmd_at w) (decided_slots w) (pn_chan w r) (pn_replica w r)" using paxos_invD(2) [OF assms(1)] by (simp add: voters_def)
    then show "r \<in> ?A" using r m(2) by (simp add: voters_def server_inv_def)
  qed
  then have "card (voters n w j) \<le> card ?A" by (intro card_mono) simp_all
  with m show ?thesis by linarith
qed

text \<open>
  C29. Multi-Paxos replicas agree. In every state of the partition, of the sequences that two replicas have applied one is a prefix of the
  other; the command at position \<open>k\<close> is the one that was submitted for slot \<open>k + 1\<close>, its callback ran once,
  and a majority of the replicas has accepted it (a replica may have freed the slot since).
\<close>

theorem paxos_logs_agree:
  assumes "paxos_reach n w" "i < n" "j < n"
  shows "(prefix (px_applied (pn_replica w i)) (px_applied (pn_replica w j)) \<or> prefix (px_applied (pn_replica w j)) (px_applied (pn_replica w i))) \<and>
    (\<forall>k < length (px_applied (pn_replica w i)). \<exists>c. pn_coos w (Suc k) = Some c \<and> pc_cmd c = Some (px_applied (pn_replica w i) ! k) \<and> pc_called c = 1 \<and>
       n div 2 + 1 \<le> card {r. r < n \<and> (Suc k < px_min_active (pn_replica w r) \<or> max_ballot_accepted (slot_of (Suc k) (pn_replica w r)) = 1)})"
proof (intro conjI allI impI)
  have inv: "paxos_inv n w" using assms(1) by (rule paxos_reach_inv)
  show "prefix (px_applied (pn_replica w i)) (px_applied (pn_replica w j)) \<or> prefix (px_applied (pn_replica w j)) (px_applied (pn_replica w i))"
    using px.logs_comparable [OF inv assms(2,3)] .
  fix k assume k: "k < length (px_applied (pn_replica w i))"
  obtain c where c: "pn_coos w (Suc k) = Some c" "pc_committed c"
    using paxos_applied_decided [OF inv assms(2) k] by (auto simp: decided_slots_def)
  have called: "pc_called c = 1" using paxos_invD(1) [OF inv c(1)] c(2) by (simp add: paxos_coo_inv_def)
  have cmd: "pc_cmd c = Some (px_applied (pn_replica w i) ! k)" using px.log_decided [OF inv assms(2) k] c(1) by (simp add: cmd_at_def)
  show "\<exists>c. pn_coos w (Suc k) = Some c \<and> pc_cmd c = Some (px_applied (pn_replica w i) ! k) \<and> pc_called c = 1 \<and>
       n div 2 + 1 \<le> card {r. r < n \<and> (Suc k < px_min_active (pn_replica w r) \<or> max_ballot_accepted (slot_of (Suc k) (pn_replica w r)) = 1)}"
    by (rule exI [of _ c]) (intro conjI c(1) cmd called paxos_decided_accepted [OF inv c])
qed

definition paxos_quiet :: "nat \<Rightarrow> paxos_net \<Rightarrow> bool" where
  "paxos_quiet n w \<longleftrightarrow> (\<forall>r < n. pn_chan w r = []) \<and> pn_replies w = {} \<and> (\<forall>j c. pn_coos w j = Some c \<longrightarrow> \<not> waiting_ready c)"

lemma paxos_quiet_decided:
  assumes "paxos_inv n w" "0 < n" "paxos_quiet n w" "pn_coos w j = Some c"
  shows "pc_committed c"
proof (rule ccontr)
  assume nc: "\<not> pc_committed c"
  have "voters n w j = {..<n}" using assms(3) by (auto simp: voters_def paxos_quiet_def)
  then have V: "card (voters n w j) = n" by simp
  obtain e where e: "pc_event c = Some e" "quorum e = int n div 2 + 1" "\<not> timeouted e" "n_voted_yes e = int n"
    using paxos_invD(1) [OF assms(1,4)] unfolding paxos_coo_inv_def V by blast
  have "int n div 2 + 1 \<le> int n" using assms(2) by linarith
  then have "IsReady e = Some True" using e by (simp add: IsReady_def Yes_def)
  moreover have "pc_phase c = 2" using paxos_invD(1) [OF assms(1,4)] nc by (simp add: paxos_coo_inv_def)
  ultimately have "waiting_ready c" using e(1) by (simp add: waiting_ready_def)
  with assms(3,4) show False by (simp add: paxos_quiet_def)
qed

lemma paxos_quiet_applied:
  assumes "paxos_inv n w" "paxos_quiet n w" "r < n"
  shows "px_applied (pn_replica w r) = map (\<lambda>j. the (cmd_at w j)) [1..<pn_hint w]"
proof -
  let ?s = "pn_replica w r"
  note I = paxos_invD [OF assms(1)]
  have s: "server_inv (cmd_at w) (decided_slots w) [] ?s" using I(2) [OF assms(3)] assms(2,3) by (simp add: paxos_quiet_def)
  have dec: "j \<in> decided_slots w \<longleftrightarrow> 0 < j \<and> j < pn_hint w" for j
  proof
    assume "j \<in> decided_slots w"
    then show "0 < j \<and> j < pn_hint w" using I(7) [of j] by (auto simp: decided_slots_def)
  next
    assume "0 < j \<and> j < pn_hint w"
    then obtain c where "pn_coos w j = Some c" using I(7) [of j] by auto
    then show "j \<in> decided_slots w" using paxos_quiet_decided [OF assms(1) _ assms(2)] assms(3) by (auto simp: decided_slots_def)
  qed
  have "Suc (px_executed ?s) = pn_hint w"
  proof (rule antisym)
    show "Suc (px_executed ?s) \<le> pn_hint w"
    proof (cases "px_executed ?s = 0")
      case False
      then have "arrived_decision (decided_slots w) [] (px_executed ?s)" using s unfolding server_inv_def by blast
      then show ?thesis by (simp add: arrived_decision_def dec)
    qed (use I(8) in simp)
    show "pn_hint w \<le> Suc (px_executed ?s)"
    proof (rule ccontr)
      assume "\<not> ?thesis"
      then have d: "Suc (px_executed ?s) \<in> decided_slots w" by (simp add: dec)
      then have "arrived_decision (decided_slots w) [] (Suc (px_executed ?s))" by (simp add: arrived_decision_def)
      moreover have "\<forall>j > px_executed ?s. committed_cmd (slot_of j ?s) = (if arrived_decision (decided_slots w) [] j then cmd_at w j else None)"
        "committed_cmd (slot_of (Suc (px_executed ?s)) ?s) = None" using s by (simp_all add: server_inv_def)
      ultimately have "cmd_at w (Suc (px_executed ?s)) = None" by (metis lessI)
      with d I(6) show False by auto
    qed
  qed
  then show ?thesis using s by (simp add: server_inv_def del: upt_Suc)
qed

text \<open>
  C36. Multi-Paxos makes progress. Calls that arrive in order never abort a replica, and the end of a wait never aborts the
  leader; when nothing is under way any more, every replica has applied all submitted commands in the order of their slots,
  and every submitter has been called back exactly once.
\<close>

theorem paxos_completes:
  assumes "paxos_reach n w" "0 < n"
  shows "(\<forall>r call rest. r < n \<and> pn_chan w r = call # rest \<longrightarrow> paxos_serve r call (w\<lparr>pn_chan := (pn_chan w)(r := rest)\<rparr>) \<noteq> None) \<and>
    (\<forall>j c. pn_coos w j = Some c \<and> waiting_ready c \<longrightarrow> Accept_done c \<noteq> None) \<and>
    (paxos_quiet n w \<longrightarrow> (\<forall>r < n. px_applied (pn_replica w r) = map (\<lambda>j. the (cmd_at w j)) [1..<pn_hint w]) \<and>
       (\<forall>j c. pn_coos w j = Some c \<longrightarrow> pc_called c = 1))"
proof (intro conjI allI impI)
  have inv: "paxos_inv n w" using assms(1) by (rule paxos_reach_inv)
  show "paxos_serve r call (w\<lparr>pn_chan := (pn_chan w)(r := rest)\<rparr>) \<noteq> None" if "r < n \<and> pn_chan w r = call # rest" for r call rest
    using paxos_serve_inv [OF inv] that by blast
  show "Accept_done c \<noteq> None" if "pn_coos w j = Some c \<and> waiting_ready c" for j c
    using Accept_done_spec [of n "voters n w j" j c] paxos_invD(1) [OF inv, of j c] that by auto
  show "px_applied (pn_replica w r) = map (\<lambda>j. the (cmd_at w j)) [1..<pn_hint w]" if "paxos_quiet n w" "r < n" for r
    using that by (rule paxos_quiet_applied [OF inv])
  show "pc_called c = 1" if "paxos_quiet n w" "pn_coos w j = Some c" for j c
    using paxos_quiet_decided [OF inv assms(2) that] paxos_invD(1) [OF inv that(2)] by (simp add: paxos_coo_inv_def)
qed

section \<open>Runs\<close>

text \<open>Sequences of steps as a function, to evaluate a run.\<close>

datatype paxos_event = SubmitEv marshallable | ServeEv nat | ReplyEv nat nat ballot_t | ResumeEv nat

fun paxos_exec :: "nat \<Rightarrow> paxos_event \<Rightarrow> paxos_net \<Rightarrow> paxos_net option" where
  "paxos_exec n (SubmitEv cmd) w =
     (let (c0, hint) = CreatePaxosCoordinator n 0 (pn_hint w)
      in do {(calls, c) \<leftarrow> PaxosSubmit cmd c0; Some (paxos_bcast n calls (w\<lparr>pn_hint := hint, pn_coos := (pn_coos w)(pc_slot c \<mapsto> c)\<rparr>))})"
| "paxos_exec n (ServeEv r) w =
     (case pn_chan w r of
        call # rest \<Rightarrow> if r < n then paxos_serve r call (w\<lparr>pn_chan := (pn_chan w)(r := rest)\<rparr>) else None
      | [] \<Rightarrow> None)"
| "paxos_exec n (ReplyEv r slot b) w =
     do {c \<leftarrow> pn_coos w slot;
         if (r, slot, b) \<in> pn_replies w
         then Some (w\<lparr>pn_replies := pn_replies w - {(r, slot, b)}, pn_coos := (pn_coos w)(slot \<mapsto> accept_reply b c)\<rparr>) else None}"
| "paxos_exec n (ResumeEv slot) w =
     do {c \<leftarrow> pn_coos w slot;
         if waiting_ready c then do {(calls, c') \<leftarrow> Accept_done c; Some (paxos_bcast n calls (w\<lparr>pn_coos := (pn_coos w)(slot \<mapsto> c')\<rparr>))} else None}"

fun paxos_run :: "nat \<Rightarrow> paxos_event list \<Rightarrow> paxos_net \<Rightarrow> paxos_net option" where
  "paxos_run n [] w = Some w"
| "paxos_run n (e # es) w = do {w1 \<leftarrow> paxos_exec n e w; paxos_run n es w1}"

lemma paxos_exec_reach:
  assumes "paxos_reach n w" "paxos_exec n e w = Some w'"
  shows "paxos_reach n w'"
proof (cases e)
  case (SubmitEv cmd)
  then show ?thesis using assms
    by (auto simp: bind_eq_Some_conv split: prod.splits intro: paxos_reach.submit)
next
  case (ServeEv r)
  then show ?thesis using assms by (auto split: list.splits if_splits intro: paxos_reach.serve)
next
  case (ReplyEv r slot b)
  then show ?thesis using assms by (auto simp: bind_eq_Some_conv split: if_splits intro: paxos_reach.reply)
next
  case (ResumeEv slot)
  then show ?thesis using assms by (auto simp: bind_eq_Some_conv split: if_splits intro: paxos_reach.resume)
qed

lemma paxos_run_reach: "paxos_reach n w \<Longrightarrow> paxos_run n es w = Some w' \<Longrightarrow> paxos_reach n w'"
  by (induction es arbitrary: w) (auto simp: bind_eq_Some_conv intro: paxos_exec_reach)

text \<open>Two commands among three replicas; the second is decided first, and replica 1 has not yet heard of the first decision.\<close>

definition paxos_example :: "paxos_net option" where
  "paxos_example = paxos_run 3 [SubmitEv (example_write 1 1 7 8), SubmitEv (example_write 2 1 7 9), ServeEv 0, ServeEv 1, ServeEv 0, ServeEv 1,
     ReplyEv 0 2 1, ReplyEv 1 2 1, ResumeEv 2, ReplyEv 0 1 1, ReplyEv 1 1 1, ResumeEv 1,
     ServeEv 0, ServeEv 0, ServeEv 1, ServeEv 2, ServeEv 2, ServeEv 2, ServeEv 2, ReplyEv 2 1 1, ReplyEv 2 2 1] paxos_start"

theorem paxos_logs_agree_witness:
  "\<exists>w. paxos_reach 3 w \<and> px_applied (pn_replica w 0) = [example_write 1 1 7 8, example_write 2 1 7 9] \<and> px_applied (pn_replica w 1) = [] \<and>
     prefix (px_applied (pn_replica w 1)) (px_applied (pn_replica w 0)) \<and>
     2 \<le> card {r. r < 3 \<and> (1 < px_min_active (pn_replica w r) \<or> max_ballot_accepted (slot_of 1 (pn_replica w r)) = 1)}"
proof -
  have "case paxos_example of None \<Rightarrow> False | Some w \<Rightarrow> px_applied (pn_replica w 0) = [example_write 1 1 7 8, example_write 2 1 7 9] \<and> px_applied (pn_replica w 1) = []"
    by code_simp
  then obtain w where w: "paxos_example = Some w" "px_applied (pn_replica w 0) = [example_write 1 1 7 8, example_write 2 1 7 9]" "px_applied (pn_replica w 1) = []"
    by (auto split: option.splits)
  then have r: "paxos_reach 3 w" unfolding paxos_example_def by (intro paxos_run_reach [OF paxos_reach.start])
  have "3 div 2 + 1 \<le> card {r. r < 3 \<and> (1 < px_min_active (pn_replica w r) \<or> max_ballot_accepted (slot_of 1 (pn_replica w r)) = 1)}"
    using paxos_logs_agree [OF r, of 0 1] w(2) by auto
  with r w show ?thesis by (intro exI [of _ w]) simp
qed

theorem paxos_completes_witness:
  "\<exists>w. paxos_reach 3 w \<and> paxos_quiet 3 w \<and> pn_hint w = 3 \<and> px_applied (pn_replica w 2) = map (\<lambda>j. the (cmd_at w j)) [1..<3]"
proof -
  have "case Option.bind paxos_example (paxos_run 3 [ServeEv 1]) of None \<Rightarrow> False
    | Some w \<Rightarrow> list_all (\<lambda>r. pn_chan w r = []) [0..<3] \<and> pn_replies w = {} \<and> pn_hint w = 3 \<and> list_all (\<lambda>j. \<not> waiting_ready (the (pn_coos w j))) [1..<3]"
    by code_simp
  then obtain w0 w where w: "paxos_example = Some w0" "paxos_run 3 [ServeEv 1] w0 = Some w" "list_all (\<lambda>r. pn_chan w r = []) [0..<3]" "pn_replies w = {}"
    "pn_hint w = 3" "list_all (\<lambda>j. \<not> waiting_ready (the (pn_coos w j))) [1..<3]"
    by (auto simp: bind_eq_Some_conv split: option.splits simp del: paxos_run.simps upt_Suc)
  have r: "paxos_reach 3 w"
    using w(1) unfolding paxos_example_def by (intro paxos_run_reach [OF paxos_run_reach [OF paxos_reach.start] w(2)])
  have "\<not> waiting_ready c" if "pn_coos w j = Some c" for j c
  proof -
    have "j \<in> set [1..<3]" using paxos_invD(7) [OF paxos_reach_inv [OF r], of j] that w(5) by auto
    then show ?thesis using w(6) that by (metis list_all_iff option.sel)
  qed
  then have q: "paxos_quiet 3 w" using w(3,4) by (simp add: paxos_quiet_def list_all_iff)
  have "\<forall>r < 3. px_applied (pn_replica w r) = map (\<lambda>j. the (cmd_at w j)) [1..<pn_hint w]" using paxos_completes [OF r] q by simp
  then have "px_applied (pn_replica w 2) = map (\<lambda>j. the (cmd_at w j)) [1..<3]" using w(5) by simp
  with r q w(5) show ?thesis by blast
qed

end
