(* ===== verification/Mencius.thy ===== *)
theory Mencius
  imports RuleServer
begin

text \<open>
  Mencius (\<^verbatim>\<open>mencius/server.cc\<close>, \<^verbatim>\<open>mencius/service.cc\<close>, \<^verbatim>\<open>mencius/commo.cc\<close>, \<^verbatim>\<open>mencius/frame.cc\<close>): slots belong to the replicas in turn, each
  replica leads its own slots. A replica applies decided slots in order, and out of order when it knows of no other command on the
  same key. Slots are \<open>nat\<close>; \<open>mn_applied\<close> records the calls of \<^verbatim>\<open>app_next_\<close> with their slots. The phases of
  the coordinator are those of Multi-Paxos. Delays, log lines, \<^verbatim>\<open>executed_slots_\<close> and \<^verbatim>\<open>accepted_cmd_\<close>, which nothing uses, are left out.
\<close>

section \<open>The server\<close>

record menc_data =
  md_seen :: ballot_t
  md_suggested :: ballot_t
  md_is_skip :: bool
  md_cmd :: "marshallable option"
  md_committed_cmd :: "marshallable option"
  md_executed :: bool

record menc_server =
  mn_min_active :: nat
  mn_executed :: nat
  mn_committed :: nat
  mn_active :: nat
  mn_logs :: "(nat \<times> menc_data) list"
  skip_potentials_recd :: "(nat \<times> nat list) list"
  unexecuted_keys :: "(key_t \<times> int) list"
  mn_in_applying :: bool
  mn_rule :: rule_server
  mn_applied :: "(nat \<times> marshallable) list"

definition new_menc_data :: menc_data where
  "new_menc_data = \<lparr>md_seen = 0, md_suggested = 0, md_is_skip = False, md_cmd = None, md_committed_cmd = None, md_executed = False\<rparr>"

definition new_menc_server :: "rule_server \<Rightarrow> menc_server" where
  "new_menc_server rs = \<lparr>mn_min_active = 0, mn_executed = 0, mn_committed = 0, mn_active = 0, mn_logs = [], skip_potentials_recd = [],
     unexecuted_keys = [], mn_in_applying = False, mn_rule = rs, mn_applied = []\<rparr>"

definition menc_put :: "nat \<Rightarrow> menc_data \<Rightarrow> menc_server \<Rightarrow> menc_server" where
  "menc_put i d s = s\<lparr>mn_logs := AList.update i d (mn_logs s)\<rparr>"

definition Menc_GetInstance :: "nat \<Rightarrow> menc_server \<Rightarrow> (menc_data \<times> menc_server) option" where
  "Menc_GetInstance i s =
     do {vrfy (i \<ge> mn_min_active s);
         let d = at_default new_menc_data (mn_logs s) i;
         Some (d, menc_put i d s)}"

definition Menc_OnPrepare :: "nat \<Rightarrow> ballot_t \<Rightarrow> menc_server \<Rightarrow> (ballot_t \<times> menc_server) option" where
  "Menc_OnPrepare sl b s =
     do {(d, s1) \<leftarrow> Menc_GetInstance sl s;
         vrfy (b \<noteq> md_seen d);
         vrfy (md_seen d < b);
         Some (b, menc_put sl (d\<lparr>md_seen := b\<rparr>) s1)}"

definition OnSuggest :: "nat \<Rightarrow> ballot_t \<Rightarrow> marshallable \<Rightarrow> menc_server \<Rightarrow> (ballot_t \<times> menc_server) option" where
  "OnSuggest sl b cmd s =
     do {(d, s1) \<leftarrow> Menc_GetInstance sl s;
         vrfy (md_seen d \<le> b);
         Some (b, (menc_put sl (d\<lparr>md_seen := b, md_suggested := b, md_cmd := Some cmd\<rparr>) s1)\<lparr>mn_active := max (mn_active s1) sl\<rparr>)}"

text \<open>
  Setting \<^verbatim>\<open>kind_\<close> to \<^verbatim>\<open>CMD_TPC_COMMIT\<close> (5) has no effect on a commit command; an object of another class under that kind cannot be read
  any more, as \<open>OTHER_CMD\<close> cannot.
\<close>

definition kind_commit :: "marshallable \<Rightarrow> marshallable" where
  "kind_commit cmd = (case cmd of CMD_TPC_COMMIT t c \<Rightarrow> cmd | _ \<Rightarrow> OTHER_CMD 5)"

text \<open>Applying the command of a slot, the same steps in both loops.\<close>

definition apply_slot :: "rule_cfg \<Rightarrow> nat \<Rightarrow> menc_data \<Rightarrow> marshallable \<Rightarrow> menc_server \<Rightarrow> menc_server option" where
  "apply_slot cfg i d c s =
     do {rs \<leftarrow> RuleCommandPoolGC cfg c (mn_rule s);
         let s1 = (menc_put i (d\<lparr>md_executed := True\<rparr>) s)\<lparr>mn_rule := rs, mn_applied := mn_applied s @ [(i, c)]\<rparr>;
         p \<leftarrow> SimpleRWCommand (Some c);
         let u = at_default 0 (unexecuted_keys s1) (rw_key p) - 1;
         vrfy (u \<ge> 0);
         Some (s1\<lparr>unexecuted_keys := AList.update (rw_key p) u (unexecuted_keys s1)\<rparr>)}"

fun skip_appeared :: "nat \<Rightarrow> nat \<Rightarrow> menc_server \<Rightarrow> menc_server option" where
  "skip_appeared 0 i s = Some s"
| "skip_appeared (Suc k) i s =
     do {(d, s1) \<leftarrow> Menc_GetInstance i s;
         (b, p) \<leftarrow> (case md_cmd d of None \<Rightarrow> Some (False, rs_pool (mn_rule s1)) | Some c \<Rightarrow> pool_has_appeared c (rs_pool (mn_rule s1)));
         let s2 = s1\<lparr>mn_rule := (mn_rule s1)\<lparr>rs_pool := p\<rparr>, mn_committed := (if b then mn_committed s1 + 1 else mn_committed s1)\<rparr>;
         skip_appeared k (i + 1) s2}"

fun apply_in_order :: "rule_cfg \<Rightarrow> nat \<Rightarrow> menc_server \<Rightarrow> menc_server option" where
  "apply_in_order cfg 0 s = Some s"
| "apply_in_order cfg (Suc k) s =
     do {(d, s1) \<leftarrow> Menc_GetInstance (mn_executed s + 1) s;
         case md_committed_cmd d of
           None \<Rightarrow> Some s1
         | Some c \<Rightarrow> do {s2 \<leftarrow> (if md_executed d then Some s1 else apply_slot cfg (mn_executed s + 1) d c s1);
                         apply_in_order cfg k (s2\<lparr>mn_executed := mn_executed s2 + 1\<rparr>)}}"

fun apply_out_of_order :: "rule_cfg \<Rightarrow> nat \<Rightarrow> nat \<Rightarrow> menc_server \<Rightarrow> menc_server option" where
  "apply_out_of_order cfg 0 i s = Some s"
| "apply_out_of_order cfg (Suc k) i s =
     do {(d, s1) \<leftarrow> Menc_GetInstance i s;
         s2 \<leftarrow> (case md_committed_cmd d of
                  None \<Rightarrow> Some s1
                | Some c \<Rightarrow> do {p \<leftarrow> SimpleRWCommand (Some c);
                                if \<not> md_executed d \<and> at_default 0 (unexecuted_keys s1) (rw_key p) = 1 then apply_slot cfg i d c s1 else Some s1});
         apply_out_of_order cfg k (i + 1) s2}"

fun menc_free :: "nat \<Rightarrow> menc_server \<Rightarrow> menc_server" where
  "menc_free 0 s = s"
| "menc_free (Suc k) s = menc_free k (s\<lparr>mn_logs := AList.delete (mn_min_active s) (mn_logs s), mn_min_active := mn_min_active s + 1\<rparr>)"

definition Menc_OnCommit :: "rule_cfg \<Rightarrow> nat \<Rightarrow> marshallable \<Rightarrow> menc_server \<Rightarrow> menc_server option" where
  "Menc_OnCommit cfg sl cmd s =
     do {(d, s1) \<leftarrow> Menc_GetInstance sl s;
         let s2 = menc_put sl (d\<lparr>md_committed_cmd := Some (kind_commit cmd), md_is_skip := True\<rparr>) s1;
         let s3 = s2\<lparr>mn_committed := (if sl > mn_committed s2 then sl else mn_committed s2)\<rparr>;
         vrfy (sl > mn_executed s3);
         if mn_in_applying s3 then Some s3
         else do {s4 \<leftarrow> skip_appeared (mn_active s3 - mn_committed s3) (mn_committed s3) (s3\<lparr>mn_in_applying := True\<rparr>);
                  s5 \<leftarrow> apply_in_order cfg (mn_committed s4 - mn_executed s4) s4;
                  s6 \<leftarrow> apply_out_of_order cfg (mn_committed s5 - mn_executed s5) (mn_executed s5 + 1) s5;
                  let s7 = menc_free (mn_executed s6 - 1000 - mn_min_active s6) s6;
                  Some (s7\<lparr>mn_in_applying := False\<rparr>)}}"

section \<open>The service\<close>

definition Menc_Decide :: "rule_cfg \<Rightarrow> nat \<Rightarrow> marshallable \<Rightarrow> menc_server \<Rightarrow> menc_server option" where
  "Menc_Decide cfg sl cmd s =
     do {p \<leftarrow> SimpleRWCommand (Some cmd);
         let s1 = s\<lparr>unexecuted_keys := AList.update (rw_key p) (at_default 0 (unexecuted_keys s) (rw_key p) + 1) (unexecuted_keys s)\<rparr>;
         Menc_OnCommit cfg sl cmd s1}"

text \<open>
  \<^verbatim>\<open>Suggest\<close> holds \<^verbatim>\<open>g_mutex\<close> when it commits the slots to skip, and \<^verbatim>\<open>GetInstance\<close> locks the same mutex, which is not
  recursive: with a slot to skip the call does not return.
\<close>

definition Menc_Suggest :: "nat \<Rightarrow> nat \<Rightarrow> ballot_t \<Rightarrow> nat list \<Rightarrow> nat list \<Rightarrow> marshallable \<Rightarrow> menc_server \<Rightarrow> (ballot_t \<times> menc_server) option" where
  "Menc_Suggest n sl b skips potentials cmd s =
     (let s1 = (if length potentials > 100
                then s\<lparr>skip_potentials_recd := AList.update ((sl - 1) mod n) (remdups potentials) (skip_potentials_recd s)\<rparr> else s)
      in if skips \<noteq> [] then None else OnSuggest sl b cmd s1)"

section \<open>The slots to skip\<close>

definition skip_votes :: "nat \<Rightarrow> nat \<Rightarrow> menc_server \<Rightarrow> nat" where
  "skip_votes n i s =
     length (filter (\<lambda>r. case map_of (skip_potentials_recd s) r of None \<Rightarrow> False | Some xs \<Rightarrow> i \<in> set xs) [0..<n])"

text \<open>The loop of \<^verbatim>\<open>BroadcastSuggest\<close> as it is written: a slot that can be skipped is added, and looked at again.\<close>

partial_function (option) skip_loop :: "nat \<Rightarrow> nat \<Rightarrow> menc_server \<Rightarrow> nat \<Rightarrow> nat list \<Rightarrow> nat list option" where
  "skip_loop n sl s i acc =
     (if (i - 1) mod n = (sl - 1) mod n
      then if skip_votes n i s \<ge> n div 2 + 1 then skip_loop n sl s i (acc @ [i]) else Some acc
      else skip_loop n sl s (i + 1) acc)"

declare skip_loop.simps [code]

definition skip_commits :: "nat \<Rightarrow> nat \<Rightarrow> menc_server \<Rightarrow> nat list option" where
  "skip_commits n sl s =
     do {xs \<leftarrow> skip_loop n sl s (mn_executed s + 1) [];
         Some (if length xs < 10 then [] else xs)}"

definition skip_potentials :: "menc_server \<Rightarrow> nat list" where
  "skip_potentials s = filter (\<lambda>i. map_of (mn_logs s) i = None) [mn_executed s + 1..<mn_committed s + 1]"

text \<open>What \<^verbatim>\<open>BroadcastSuggest\<close> sends to every replica, and the slots of a replica (\<^verbatim>\<open>CreateCoordinator\<close>, \<^verbatim>\<open>IsLeader\<close>).\<close>

definition BroadcastSuggest :: "nat \<Rightarrow> nat \<Rightarrow> ballot_t \<Rightarrow> marshallable \<Rightarrow> menc_server \<Rightarrow> (nat \<times> ballot_t \<times> nat list \<times> nat list \<times> marshallable) option" where
  "BroadcastSuggest n sl b cmd s = do {xs \<leftarrow> skip_commits n sl s; Some (sl, b, xs, skip_potentials s, cmd)}"

definition menc_next_slot :: "nat \<Rightarrow> nat \<Rightarrow> nat \<Rightarrow> nat \<times> nat" where
  "menc_next_slot n site hint = (hint + site, hint + n)"

definition menc_leads :: "nat \<Rightarrow> nat \<Rightarrow> nat \<Rightarrow> bool" where
  "menc_leads n loc sl \<longleftrightarrow> (sl - 1) mod n = loc"

end
