(* ===== verification/MenciusOrder.thy ===== *)
theory MenciusOrder
  imports Mencius
begin

text \<open>
  What a Mencius replica does with decisions: it never skips a slot (\<open>mencius_never_skips\<close>), applies each decided slot once and all of
  them when no slot is missing (\<open>mencius_applies_once\<close>), but may apply conflicting writes in another order than other replicas
  (\<open>mencius_reorders_writes\<close>).
\<close>

section \<open>The slots to skip\<close>

lemma skip_loop_stuck:
  assumes "skip_loop n sl s i acc = Some y"
  shows "\<not> ((i - 1) mod n = (sl - 1) mod n \<and> n div 2 + 1 \<le> skip_votes n i s)"
proof (rule skip_loop.raw_induct [OF _ assms, where P = "\<lambda>n sl s i acc y. \<not> ((i - 1) mod n = (sl - 1) mod n \<and> n div 2 + 1 \<le> skip_votes n i s)"])
  fix f n sl s i acc y
  assume IH: "\<And>n sl s i acc y. f n sl s i acc = Some y \<Longrightarrow> \<not> ((i - 1) mod n = (sl - 1) mod n \<and> n div 2 + 1 \<le> skip_votes n i s)"
    and body: "(if (i - 1) mod n = (sl - 1) mod n then if n div 2 + 1 \<le> skip_votes n i s then f n sl s i (acc @ [i]) else Some acc else f n sl s (i + 1) acc) = Some y"
  show "\<not> ((i - 1) mod n = (sl - 1) mod n \<and> n div 2 + 1 \<le> skip_votes n i s)"
  proof
    assume a: "(i - 1) mod n = (sl - 1) mod n \<and> n div 2 + 1 \<le> skip_votes n i s"
    then have "f n sl s i (acc @ [i]) = Some y" using body by simp
    from IH [OF this] a show False by blast
  qed
qed

lemma skip_loop_walk:
  "\<forall>j < k. (i + j - 1) mod n \<noteq> (sl - 1) mod n \<Longrightarrow> skip_loop n sl s i acc = skip_loop n sl s (i + k) acc"
proof (induction k arbitrary: i)
  case (Suc k)
  have "skip_loop n sl s i acc = skip_loop n sl s (i + 1) acc" using Suc.prems [rule_format, of 0] by (subst skip_loop.simps) simp
  also have "\<dots> = skip_loop n sl s (i + 1 + k) acc"
    using Suc.prems by (intro Suc.IH) (metis Suc_less_eq add.assoc add.commute plus_1_eq_Suc)
  finally show ?case by (simp add: ac_simps)
qed simp

lemma shift_to_residue:
  fixes n :: nat assumes "r < n"
  shows "(a + (r + (n - a mod n)) mod n) mod n = r"
proof -
  define q m where "q = a div n" "m = a mod n"
  have m: "a = q * n + m" "m < n" using assms by (simp_all add: q_m_def)
  have "a + (r + (n - m)) = r + (q + 1) * n" using m by (simp add: algebra_simps)
  then have "(a + (r + (n - m))) mod n = r" by (simp only: mod_mult_self1) (use assms in simp)
  then show ?thesis unfolding q_m_def(2) by (simp add: mod_add_right_eq)
qed

lemma next_own_slot:
  fixes n :: nat assumes "0 < n" "0 < i"
  obtains k where "k < n" "(i + k - 1) mod n = (sl - 1) mod n" "\<forall>j < k. (i + j - 1) mod n \<noteq> (sl - 1) mod n"
proof -
  let ?P = "\<lambda>k. (i + k - 1) mod n = (sl - 1) mod n"
  let ?d = "((sl - 1) mod n + (n - (i - 1) mod n)) mod n"
  have ex: "?P ?d" using shift_to_residue [of "(sl - 1) mod n" n "i - 1"] assms by simp
  show thesis
  proof (rule that [of "LEAST k. ?P k"])
    have "?d < n" using assms(1) by (rule mod_less_divisor)
    with Least_le [of ?P, OF ex] show "(LEAST k. ?P k) < n" by (rule le_less_trans)
    show "?P (LEAST k. ?P k)" using ex by (rule LeastI)
    show "\<forall>j < (LEAST k. ?P k). \<not> ?P j" using not_less_Least [of _ ?P] by blast
  qed
qed

text \<open>
  C37. Mencius never skips a slot. Whatever slots the others offer to skip, the loop that collects the slots of the own replica to skip either
  finds none, or it does not end: it ends exactly when no majority offers the first own slot after the executed ones. So a suggestion carries no
  skipped slots, and enough offers block the replica that suggests.
\<close>

theorem mencius_never_skips:
  assumes "0 < n"
  shows "\<exists>i. mn_executed s < i \<and> i \<le> mn_executed s + n \<and> (i - 1) mod n = (sl - 1) mod n \<and>
    BroadcastSuggest n sl b cmd s = (if n div 2 + 1 \<le> skip_votes n i s then None else Some (sl, b, [], skip_potentials s, cmd))"
proof -
  obtain k where k: "k < n" "(mn_executed s + 1 + k - 1) mod n = (sl - 1) mod n"
    "\<forall>j < k. (mn_executed s + 1 + j - 1) mod n \<noteq> (sl - 1) mod n" using next_own_slot [OF assms, of "mn_executed s + 1" sl] by auto
  let ?i = "mn_executed s + 1 + k"
  have walk: "skip_loop n sl s (mn_executed s + 1) [] = skip_loop n sl s ?i []" using k(3) by (rule skip_loop_walk)
  have "skip_loop n sl s ?i [] = (if n div 2 + 1 \<le> skip_votes n ?i s then None else Some [])"
  proof (cases "n div 2 + 1 \<le> skip_votes n ?i s")
    case True
    then show ?thesis using skip_loop_stuck [of n sl s ?i "[]"] k(2) by (cases "skip_loop n sl s ?i []") auto
  next
    case False
    then show ?thesis using k(2) by (subst skip_loop.simps) simp
  qed
  then show ?thesis using k walk by (intro exI [of _ ?i]) (simp add: BroadcastSuggest_def skip_commits_def)
qed

text \<open>Three replicas; two of them offer slot 1.\<close>

theorem mencius_never_skips_witness:
  "(0 :: nat) < 3 \<and> BroadcastSuggest 3 1 1 (example_write 1 1 7 8) ((new_menc_server (new_rule_server True))\<lparr>skip_potentials_recd := [(1, [1]), (2, [1])]\<rparr>) = None"
proof -
  let ?s = "(new_menc_server (new_rule_server True))\<lparr>skip_potentials_recd := [(1, [1]), (2, [1])]\<rparr>"
  obtain i where i: "mn_executed ?s < i" "i \<le> mn_executed ?s + 3" "(i - 1) mod 3 = (1 - 1) mod 3"
    "BroadcastSuggest 3 1 1 (example_write 1 1 7 8) ?s = (if 3 div 2 + 1 \<le> skip_votes 3 i ?s then None else Some (1, 1, [], skip_potentials ?s, example_write 1 1 7 8))"
    using mencius_never_skips [of 3 ?s 1 1 "example_write 1 1 7 8"] by (meson zero_less_numeral)
  have "0 < i" "i \<le> 3" using i(1,2) by (simp_all add: new_menc_server_def)
  then have "i = 1" using i(3) by (cases "i = 2"; cases "i = 3") auto
  moreover have "skip_votes 3 1 ?s = 2" by (simp add: skip_votes_def upt_rec)
  ultimately show ?thesis using i(4) by simp
qed

section \<open>Reordering\<close>

definition commit_write :: "u64 \<Rightarrow> u32 \<Rightarrow> u32 \<Rightarrow> int \<Rightarrow> int \<Rightarrow> marshallable" where
  "commit_write t cl m k v = CMD_TPC_COMMIT t (Some (example_write cl m k v))"

definition plain_cfg :: rule_cfg where
  "plain_cfg = \<lparr>cfg_is_curp = False, cfg_mode_rule = False, cfg_skip_pool = False\<rparr>"

definition menc_order :: "(nat \<times> marshallable) list \<Rightarrow> menc_server \<Rightarrow> menc_server option" where
  "menc_order ds s = fold (\<lambda>(sl, c) r. Option.bind r (Menc_Decide plain_cfg sl c)) ds (Some s)"


section \<open>What a replica applies\<close>

abbreviation menc_slot :: "nat \<Rightarrow> menc_server \<Rightarrow> menc_data" where
  "menc_slot i s \<equiv> at_default new_menc_data (mn_logs s) i"

abbreviation applied_slots :: "menc_server \<Rightarrow> nat set" where
  "applied_slots s \<equiv> fst ` set (mn_applied s)"

definition commit_key :: "marshallable \<Rightarrow> key_t option" where
  "commit_key c = (case c of CMD_TPC_COMMIT t x \<Rightarrow> map_option rw_key (SimpleRWCommand (Some c)) | _ \<Rightarrow> None)"

lemma commit_keyD:
  "commit_key c = Some k \<Longrightarrow> \<exists>p. SimpleRWCommand (Some c) = Some p \<and> rw_key p = k"
  "commit_key c = Some k \<Longrightarrow> kind_commit c = c"
  "commit_key c = Some k \<Longrightarrow> \<exists>b p'. pool_has_appeared c p = Some (b, p')"
  by (auto simp: commit_key_def kind_commit_def pool_has_appeared_one_def Let_def split: marshallable.splits prod.splits)

text \<open>\<open>D\<close> are the decisions that the replica has learned.\<close>

definition open_slots :: "(nat \<Rightarrow> marshallable option) \<Rightarrow> menc_server \<Rightarrow> key_t \<Rightarrow> nat set" where
  "open_slots D s k = {j. \<exists>c. D j = Some c \<and> commit_key c = Some k \<and> j \<notin> applied_slots s}"

definition menc_core :: "(nat \<Rightarrow> marshallable option) \<Rightarrow> menc_server \<Rightarrow> bool" where
  "menc_core D s \<longleftrightarrow> mn_min_active s \<le> mn_executed s \<and> finite (dom D) \<and> D 0 = None \<and> (\<forall>j c. D j = Some c \<longrightarrow> commit_key c \<noteq> None) \<and>
     (\<forall>j \<ge> mn_min_active s. md_committed_cmd (menc_slot j s) = D j \<and> (md_executed (menc_slot j s) \<longleftrightarrow> j \<in> applied_slots s)) \<and>
     (\<forall>j c. (j, c) \<in> set (mn_applied s) \<longrightarrow> D j = Some c) \<and> distinct (map fst (mn_applied s)) \<and>
     (\<forall>j. 0 < j \<and> j \<le> mn_executed s \<longrightarrow> j \<in> applied_slots s) \<and>
     (\<forall>k. at_default 0 (unexecuted_keys s) k = int (card (open_slots D s k))) \<and>
     (\<forall>j c. md_cmd (menc_slot j s) = Some c \<longrightarrow> commit_key c \<noteq> None) \<and> (\<forall>j. md_seen (menc_slot j s) \<le> 1) \<and> (\<forall>j. D j \<noteq> None \<longrightarrow> j \<le> mn_committed s)"

lemma menc_coreD:
  assumes "menc_core D s"
  shows "mn_min_active s \<le> mn_executed s" "finite (dom D)" "D 0 = None" "D j = Some c \<Longrightarrow> commit_key c \<noteq> None"
    "mn_min_active s \<le> j \<Longrightarrow> md_committed_cmd (menc_slot j s) = D j" "mn_min_active s \<le> j \<Longrightarrow> md_executed (menc_slot j s) \<longleftrightarrow> j \<in> applied_slots s"
    "(j, c) \<in> set (mn_applied s) \<Longrightarrow> D j = Some c" "distinct (map fst (mn_applied s))" "0 < j \<Longrightarrow> j \<le> mn_executed s \<Longrightarrow> j \<in> applied_slots s"
    "at_default 0 (unexecuted_keys s) k = int (card (open_slots D s k))" "md_cmd (menc_slot j s) = Some c \<Longrightarrow> commit_key c \<noteq> None"
    "md_seen (menc_slot j s) \<le> 1" "D j \<noteq> None \<Longrightarrow> j \<le> mn_committed s"
  using assms unfolding menc_core_def by blast+

lemma menc_put_fields [simp]:
  "mn_min_active (menc_put i d s) = mn_min_active s" "mn_executed (menc_put i d s) = mn_executed s" "mn_committed (menc_put i d s) = mn_committed s"
  "mn_active (menc_put i d s) = mn_active s" "mn_applied (menc_put i d s) = mn_applied s" "mn_in_applying (menc_put i d s) = mn_in_applying s"
  "unexecuted_keys (menc_put i d s) = unexecuted_keys s" "mn_rule (menc_put i d s) = mn_rule s" "mn_logs (menc_put i d s) = AList.update i d (mn_logs s)"
  by (simp_all add: menc_put_def)

lemma menc_core_put_same: "menc_core D (menc_put i (menc_slot i s) s) = menc_core D s"
proof -
  have "menc_slot j (menc_put i (menc_slot i s) s) = menc_slot j s" for j by simp
  then show ?thesis unfolding menc_core_def open_slots_def menc_put_fields(1-8) by presburger
qed

lemma Menc_GetInstance_Some:
  "mn_min_active s \<le> i \<Longrightarrow> Menc_GetInstance i s = Some (menc_slot i s, menc_put i (menc_slot i s) s)"
  by (simp add: Menc_GetInstance_def Let_def)

text \<open>Fields that the loops leave alone.\<close>

definition same_frame :: "menc_server \<Rightarrow> menc_server \<Rightarrow> bool" where
  "same_frame s s' \<longleftrightarrow> mn_min_active s' = mn_min_active s \<and> mn_active s' = mn_active s \<and> mn_in_applying s' = mn_in_applying s"

lemma open_slots_applied:
  assumes "D i = Some c" "commit_key c = Some k" "i \<notin> applied_slots s" "mn_applied s' = mn_applied s @ [(i, c)]"
  shows "open_slots D s' k' = (if k' = k then open_slots D s k - {i} else open_slots D s k')" "i \<in> open_slots D s k"
  using assms by (auto simp: open_slots_def)

lemma finite_open: "finite (dom D) \<Longrightarrow> finite (open_slots D s k)"
  by (rule finite_subset [of _ "dom D"]) (auto simp: open_slots_def)

lemma apply_slot_core:
  assumes "menc_core D s" "\<not> cfg_mode_rule cfg" "mn_min_active s \<le> i" "D i = Some c" "i \<notin> applied_slots s"
  shows "\<exists>s'. apply_slot cfg i (menc_slot i s) c s = Some s' \<and> menc_core D s' \<and> mn_applied s' = mn_applied s @ [(i, c)] \<and>
    mn_executed s' = mn_executed s \<and> mn_committed s' = mn_committed s \<and> same_frame s s'"
proof -
  note I = menc_coreD [OF assms(1)]
  obtain k p where k: "commit_key c = Some k" "SimpleRWCommand (Some c) = Some p" "rw_key p = k"
    using I(4) [OF assms(4)] commit_keyD(1) by blast
  define s' where "s' = (menc_put i ((menc_slot i s)\<lparr>md_executed := True\<rparr>) s)\<lparr>mn_applied := mn_applied s @ [(i, c)],
    unexecuted_keys := AList.update k (at_default 0 (unexecuted_keys s) k - 1) (unexecuted_keys s)\<rparr>"
  have f: "mn_min_active s' = mn_min_active s" "mn_executed s' = mn_executed s" "mn_committed s' = mn_committed s" "mn_applied s' = mn_applied s @ [(i, c)]"
    "same_frame s s'" by (simp_all add: s'_def same_frame_def)
  have sl: "menc_slot j s' = (if j = i then (menc_slot i s)\<lparr>md_executed := True\<rparr> else menc_slot j s)" for j by (simp add: s'_def)
  have keys: "unexecuted_keys s' = AList.update k (at_default 0 (unexecuted_keys s) k - 1) (unexecuted_keys s)" by (simp add: s'_def)
  note o = open_slots_applied [of D i c k s s', OF assms(4) k(1) assms(5) f(4)]
  have pos: "0 < card (open_slots D s k)" using finite_open [OF I(2)] o(2) by (auto simp: card_gt_0_iff)
  have un: "at_default 0 (unexecuted_keys s') k' = int (card (open_slots D s' k'))" for k'
    using I(10) [of k'] I(10) [of k] pos o(2) finite_open [OF I(2), of s k] by (auto simp: keys o(1))
  have "apply_slot cfg i (menc_slot i s) c s = Some s'"
    using k pos I(10) [of k] assms(2) by (simp add: apply_slot_def RuleCommandPoolGC_def Let_def s'_def menc_put_def)
  moreover have "menc_core D s'" unfolding menc_core_def f
    using I un assms(4,5) by (auto simp: sl f)
  ultimately show ?thesis using f by blast
qed

lemma skip_appeared_core:
  assumes "menc_core D s" "mn_min_active s \<le> i"
  shows "\<exists>s'. skip_appeared k i s = Some s' \<and> menc_core D s' \<and> mn_applied s' = mn_applied s \<and> mn_executed s' = mn_executed s \<and>
    mn_committed s \<le> mn_committed s' \<and> same_frame s s'"
  using assms
proof (induction k arbitrary: i s)
  case (Suc k)
  note I = menc_coreD [OF Suc.prems(1)]
  let ?s1 = "menc_put i (menc_slot i s) s"
  obtain b p where bp: "(case md_cmd (menc_slot i s) of None \<Rightarrow> Some (False, rs_pool (mn_rule ?s1)) | Some c \<Rightarrow> pool_has_appeared c (rs_pool (mn_rule ?s1))) = Some (b, p)"
    using I(11) [of i] commit_keyD(3) by (cases "md_cmd (menc_slot i s)") fastforce+
  define s2 where "s2 = ?s1\<lparr>mn_rule := (mn_rule ?s1)\<lparr>rs_pool := p\<rparr>, mn_committed := (if b then mn_committed ?s1 + 1 else mn_committed ?s1)\<rparr>"
  have f: "mn_min_active s2 = mn_min_active s" "mn_executed s2 = mn_executed s" "mn_applied s2 = mn_applied s" "mn_committed s \<le> mn_committed s2" "same_frame s s2"
    by (simp_all add: s2_def same_frame_def)
  have sl: "menc_slot j s2 = menc_slot j s" "unexecuted_keys s2 = unexecuted_keys s" for j by (simp_all add: s2_def)
  have "j \<le> mn_committed s2" if "D j \<noteq> None" for j using I(13) [OF that] f(4) by linarith
  then have c: "menc_core D s2" using Suc.prems(1) unfolding menc_core_def open_slots_def f sl by blast
  from Suc.IH [OF c, of "i + 1"] Suc.prems(2) f
  obtain s' where s': "skip_appeared k (i + 1) s2 = Some s'" "menc_core D s'" "mn_applied s' = mn_applied s" "mn_executed s' = mn_executed s"
    "mn_committed s \<le> mn_committed s'" "same_frame s s'" by (auto simp: same_frame_def)
  moreover have "skip_appeared (Suc k) i s = skip_appeared k (i + 1) s2"
    using bp by (simp add: Menc_GetInstance_Some [OF Suc.prems(2)] s2_def Let_def)
  ultimately show ?case by auto
qed (simp add: same_frame_def)

lemma apply_in_order_core:
  assumes "menc_core D s" "\<not> cfg_mode_rule cfg"
  shows "\<exists>s'. apply_in_order cfg k s = Some s' \<and> menc_core D s' \<and> mn_executed s \<le> mn_executed s' \<and> mn_executed s' \<le> mn_executed s + k \<and>
    (mn_executed s' < mn_executed s + k \<longrightarrow> D (Suc (mn_executed s')) = None) \<and> mn_committed s' = mn_committed s \<and> same_frame s s'"
  using assms(1)
proof (induction k arbitrary: s)
  case (Suc k)
  note I = menc_coreD [OF Suc.prems]
  let ?i = "mn_executed s + 1"
  let ?s1 = "menc_put ?i (menc_slot ?i s) s"
  have i: "mn_min_active s \<le> ?i" using I(1) by simp
  note g = Menc_GetInstance_Some [OF i]
  have c1: "menc_core D ?s1" using Suc.prems by (simp add: menc_core_put_same)
  show ?case
  proof (cases "D ?i")
    case None
    then show ?thesis using I(5) [OF i] c1 g by (intro exI [of _ ?s1]) (simp add: same_frame_def)
  next
    case (Some c)
    have "\<exists>s2. (if md_executed (menc_slot ?i s) then Some ?s1 else apply_slot cfg ?i (menc_slot ?i s) c ?s1) = Some s2 \<and> menc_core D s2 \<and>
      ?i \<in> applied_slots s2 \<and> mn_executed s2 = mn_executed s \<and> mn_committed s2 = mn_committed s \<and> same_frame s s2"
    proof (cases "md_executed (menc_slot ?i s)")
      case True
      then show ?thesis using I(6) [OF i] c1 by (intro exI [of _ ?s1]) (simp add: same_frame_def)
    next
      case False
      then have n: "?i \<notin> applied_slots ?s1" using I(6) [OF i] by simp
      have "menc_slot ?i ?s1 = menc_slot ?i s" by simp
      from apply_slot_core [OF c1 assms(2) _ Some n, unfolded this] i False show ?thesis by (auto simp: same_frame_def)
    qed
    then obtain s2 where s2: "(if md_executed (menc_slot ?i s) then Some ?s1 else apply_slot cfg ?i (menc_slot ?i s) c ?s1) = Some s2" "menc_core D s2"
      "?i \<in> applied_slots s2" "mn_executed s2 = mn_executed s" "mn_committed s2 = mn_committed s" "same_frame s s2" by blast
    let ?s3 = "s2\<lparr>mn_executed := ?i\<rparr>"
    note J = menc_coreD [OF s2(2)]
    have "j \<in> applied_slots s2" if "0 < j" "j \<le> ?i" for j
      using J(9) [of j] that s2(3,4) by (cases "j = ?i") auto
    then have "menc_core D ?s3" using s2(2,4) unfolding menc_core_def open_slots_def by auto
    from Suc.IH [OF this]
    obtain s' where s': "apply_in_order cfg k ?s3 = Some s'" "menc_core D s'" "?i \<le> mn_executed s'" "mn_executed s' \<le> ?i + k"
      "mn_executed s' < ?i + k \<longrightarrow> D (Suc (mn_executed s')) = None" "mn_committed s' = mn_committed s" "same_frame s s'"
      using s2 by (auto simp: same_frame_def)
    moreover have "apply_in_order cfg (Suc k) s = Some s'"
      using g I(5) [OF i] Some s2(1,4) s'(1) by (auto split: if_splits)
    ultimately show ?thesis by auto
  qed
qed (simp add: same_frame_def)

lemma apply_out_of_order_core:
  assumes "menc_core D s" "\<not> cfg_mode_rule cfg" "mn_min_active s \<le> i"
  shows "\<exists>s'. apply_out_of_order cfg k i s = Some s' \<and> menc_core D s' \<and> mn_executed s' = mn_executed s \<and> mn_committed s' = mn_committed s \<and> same_frame s s'"
  using assms(1,3)
proof (induction k arbitrary: i s)
  case (Suc k)
  note I = menc_coreD [OF Suc.prems(1)]
  let ?s1 = "menc_put i (menc_slot i s) s"
  have c1: "menc_core D ?s1" using Suc.prems(1) by (simp add: menc_core_put_same)
  let ?step = "case md_committed_cmd (menc_slot i s) of None \<Rightarrow> Some ?s1
      | Some c \<Rightarrow> do {p \<leftarrow> SimpleRWCommand (Some c);
           if \<not> md_executed (menc_slot i s) \<and> at_default 0 (unexecuted_keys ?s1) (rw_key p) = 1 then apply_slot cfg i (menc_slot i s) c ?s1 else Some ?s1}"
  have "\<exists>s2. ?step = Some s2 \<and> menc_core D s2 \<and> mn_executed s2 = mn_executed s \<and> mn_committed s2 = mn_committed s \<and> same_frame s s2"
  proof (cases "D i")
    case None
    then show ?thesis using I(5) [OF Suc.prems(2)] c1 by (intro exI [of _ ?s1]) (simp add: same_frame_def)
  next
    case (Some c)
    obtain p where p: "SimpleRWCommand (Some c) = Some p" using I(4) [OF Some] commit_keyD(1) by blast
    show ?thesis
    proof (cases "\<not> md_executed (menc_slot i s) \<and> at_default 0 (unexecuted_keys ?s1) (rw_key p) = 1")
      case True
      then have n: "i \<notin> applied_slots ?s1" using I(6) [OF Suc.prems(2)] by simp
      have "menc_slot i ?s1 = menc_slot i s" by simp
      from apply_slot_core [OF c1 assms(2) _ Some n, unfolded this] Suc.prems(2) True p Some I(5) [OF Suc.prems(2)]
      show ?thesis by (auto simp: same_frame_def)
    next
      case False
      then show ?thesis using I(5) [OF Suc.prems(2)] Some p c1 by (intro exI [of _ ?s1]) (auto simp: same_frame_def)
    qed
  qed
  then obtain s2 where s2: "?step = Some s2" "menc_core D s2" "mn_executed s2 = mn_executed s" "mn_committed s2 = mn_committed s" "same_frame s s2" by blast
  from Suc.IH [OF s2(2), of "i + 1"] s2 Suc.prems(2)
  obtain s' where s': "apply_out_of_order cfg k (i + 1) s2 = Some s'" "menc_core D s'" "mn_executed s' = mn_executed s" "mn_committed s' = mn_committed s" "same_frame s s'"
    by (auto simp: same_frame_def)
  moreover have "apply_out_of_order cfg (Suc k) i s = Option.bind ?step (apply_out_of_order cfg k (i + 1))"
    by (simp add: Menc_GetInstance_Some [OF Suc.prems(2)])
  ultimately show ?case using s2(1) by auto
qed (simp add: same_frame_def)

lemma menc_free_core:
  assumes "menc_core D s" "mn_min_active s + k \<le> mn_executed s"
  shows "menc_core D (menc_free k s) \<and> mn_executed (menc_free k s) = mn_executed s \<and> mn_applied (menc_free k s) = mn_applied s"
  using assms
proof (induction k arbitrary: s)
  case (Suc k)
  let ?s = "s\<lparr>mn_logs := AList.delete (mn_min_active s) (mn_logs s), mn_min_active := mn_min_active s + 1\<rparr>"
  note I = menc_coreD [OF Suc.prems(1)]
  have f: "mn_min_active ?s = mn_min_active s + 1" "mn_executed ?s = mn_executed s" "mn_committed ?s = mn_committed s" "mn_applied ?s = mn_applied s"
    "unexecuted_keys ?s = unexecuted_keys s" by simp_all
  have sl: "menc_slot j ?s = (if j = mn_min_active s then new_menc_data else menc_slot j s)" for j by simp
  have a: "mn_min_active s + 1 \<le> mn_executed s" using Suc.prems(2) by simp
  have b: "\<forall>j \<ge> mn_min_active s + 1. md_committed_cmd (menc_slot j ?s) = D j \<and> (md_executed (menc_slot j ?s) \<longleftrightarrow> j \<in> applied_slots s)"
    using I(5,6) unfolding sl by auto
  have c: "\<forall>j c. md_cmd (menc_slot j ?s) = Some c \<longrightarrow> commit_key c \<noteq> None" "\<forall>j. md_seen (menc_slot j ?s) \<le> 1"
    unfolding sl using I(11,12) by (auto simp: new_menc_data_def)
  have "menc_core D ?s" unfolding menc_core_def open_slots_def f
    using Suc.prems(1) a b c unfolding menc_core_def open_slots_def by blast
  then show ?case using Suc.IH [of ?s] Suc.prems(2) by simp
qed simp

definition menc_inv :: "(nat \<Rightarrow> marshallable option) \<Rightarrow> menc_server \<Rightarrow> bool" where
  "menc_inv D s \<longleftrightarrow> menc_core D s \<and> \<not> mn_in_applying s \<and> D (Suc (mn_executed s)) = None"

lemma menc_fresh_slot:
  assumes "menc_core D s" "D i = None" "0 < i"
  shows "mn_executed s < i" "i \<notin> applied_slots s" "mn_min_active s \<le> i"
proof -
  note I = menc_coreD [OF assms(1)]
  show n: "i \<notin> applied_slots s" using I(7) assms(2) by force
  then show "mn_executed s < i" using I(9) [of i] assms(3) by (meson linorder_not_less)
  then show "mn_min_active s \<le> i" using I(1) by linarith
qed

lemma menc_core_learn:
  assumes "menc_core D s" "D i = None" "0 < i" "commit_key c = Some k"
  defines "s' \<equiv> (menc_put i ((menc_slot i s)\<lparr>md_committed_cmd := Some c, md_is_skip := True\<rparr>) s)\<lparr>mn_committed := max i (mn_committed s),
    unexecuted_keys := AList.update k (at_default 0 (unexecuted_keys s) k + 1) (unexecuted_keys s), mn_in_applying := True\<rparr>"
  shows "menc_core (D(i \<mapsto> c)) s'"
proof -
  note I = menc_coreD [OF assms(1)] and F = menc_fresh_slot [OF assms(1-3)]
  have f: "mn_min_active s' = mn_min_active s" "mn_executed s' = mn_executed s" "mn_applied s' = mn_applied s" "mn_committed s' = max i (mn_committed s)"
    by (simp_all add: s'_def)
  have sl: "menc_slot j s' = (if j = i then (menc_slot i s)\<lparr>md_committed_cmd := Some c, md_is_skip := True\<rparr> else menc_slot j s)" for j by (simp add: s'_def)
  have o: "open_slots (D(i \<mapsto> c)) s' k' = (if k' = k then insert i (open_slots D s k) else open_slots D s k')" for k'
    using assms(2,4) F(2) by (auto simp: open_slots_def f split: if_splits)
  have "i \<notin> open_slots D s k" using assms(2) by (simp add: open_slots_def)
  then have un: "at_default 0 (unexecuted_keys s') k' = int (card (open_slots (D(i \<mapsto> c)) s' k'))" for k'
    using I(10) [of k'] I(10) [of k] finite_open [OF I(2), of s k] unfolding o by (simp add: s'_def)
  have a: "\<forall>j d. (D(i \<mapsto> c)) j = Some d \<longrightarrow> commit_key d \<noteq> None" using I(4) assms(4) by auto
  have b: "\<forall>j \<ge> mn_min_active s. md_committed_cmd (menc_slot j s') = (D(i \<mapsto> c)) j \<and> (md_executed (menc_slot j s') \<longleftrightarrow> j \<in> applied_slots s)"
    using I(5,6) unfolding sl by auto
  have d: "\<forall>j d. (j, d) \<in> set (mn_applied s) \<longrightarrow> (D(i \<mapsto> c)) j = Some d" using I(7) assms(2) by fastforce
  have e: "\<forall>j d. md_cmd (menc_slot j s') = Some d \<longrightarrow> commit_key d \<noteq> None" "\<forall>j. md_seen (menc_slot j s') \<le> 1"
    unfolding sl using I(11,12) by auto
  have g: "\<forall>j. (D(i \<mapsto> c)) j \<noteq> None \<longrightarrow> j \<le> max i (mn_committed s)" using I(13) by (auto simp: le_max_iff_disj)
  show ?thesis unfolding menc_core_def f
    using I(1-3,8,9) assms(3) un a b d e g by simp
qed

lemma Menc_Decide_inv:
  assumes "menc_inv D s" "\<not> cfg_mode_rule cfg" "D i = None" "0 < i" "commit_key c \<noteq> None"
  shows "\<exists>s'. Menc_Decide cfg i c s = Some s' \<and> menc_inv (D(i \<mapsto> c)) s'"
proof -
  have core: "menc_core D s" "\<not> mn_in_applying s" using assms(1) by (simp_all add: menc_inv_def)
  note F = menc_fresh_slot [OF core(1) assms(3,4)]
  obtain k p where k: "commit_key c = Some k" "SimpleRWCommand (Some c) = Some p" "rw_key p = k" "kind_commit c = c"
    using assms(5) commit_keyD(1,2) by blast
  define s3 where "s3 = (menc_put i ((menc_slot i s)\<lparr>md_committed_cmd := Some c, md_is_skip := True\<rparr>) s)\<lparr>mn_committed := max i (mn_committed s),
    unexecuted_keys := AList.update k (at_default 0 (unexecuted_keys s) k + 1) (unexecuted_keys s), mn_in_applying := True\<rparr>"
  have c3: "menc_core (D(i \<mapsto> c)) s3" unfolding s3_def by (rule menc_core_learn [OF core(1) assms(3,4) k(1)])
  note J = menc_coreD [OF c3]
  have m3: "mn_min_active s3 \<le> mn_committed s3" using J(1) J(13) [of i] F(1) by (simp add: s3_def)
  obtain s4 where s4: "skip_appeared (mn_active s3 - mn_committed s3) (mn_committed s3) s3 = Some s4" "menc_core (D(i \<mapsto> c)) s4" "same_frame s3 s4"
    using skip_appeared_core [OF c3 m3] by blast
  obtain s5 where s5: "apply_in_order cfg (mn_committed s4 - mn_executed s4) s4 = Some s5" "menc_core (D(i \<mapsto> c)) s5"
    "mn_executed s4 \<le> mn_executed s5" "mn_executed s5 < mn_executed s4 + (mn_committed s4 - mn_executed s4) \<longrightarrow> (D(i \<mapsto> c)) (Suc (mn_executed s5)) = None"
    "mn_committed s5 = mn_committed s4" "same_frame s4 s5"
    using apply_in_order_core [OF s4(2) assms(2)] by blast
  have last: "(D(i \<mapsto> c)) (Suc (mn_executed s5)) = None"
  proof (cases "mn_executed s5 < mn_executed s4 + (mn_committed s4 - mn_executed s4)")
    case False
    then have "mn_committed s5 < Suc (mn_executed s5)" using s5(3,5) by linarith
    then show ?thesis using menc_coreD(13) [OF s5(2), of "Suc (mn_executed s5)"] by (metis linorder_not_less)
  qed (use s5(4) in blast)
  have m5: "mn_min_active s5 \<le> mn_executed s5 + 1" using menc_coreD(1) [OF s5(2)] by simp
  obtain s6 where s6: "apply_out_of_order cfg (mn_committed s5 - mn_executed s5) (mn_executed s5 + 1) s5 = Some s6" "menc_core (D(i \<mapsto> c)) s6"
    "mn_executed s6 = mn_executed s5" "same_frame s5 s6"
    using apply_out_of_order_core [OF s5(2) assms(2) m5] by blast
  define s7 where "s7 = menc_free (mn_executed s6 - 1000 - mn_min_active s6) s6"
  have s7: "menc_core (D(i \<mapsto> c)) s7" "mn_executed s7 = mn_executed s5"
    using menc_free_core [OF s6(2), of "mn_executed s6 - 1000 - mn_min_active s6"] menc_coreD(1) [OF s6(2)] s6(3) by (simp_all add: s7_def)
  let ?s1 = "s\<lparr>unexecuted_keys := AList.update k (at_default 0 (unexecuted_keys s) k + 1) (unexecuted_keys s)\<rparr>"
  have "menc_put i ((menc_slot i s)\<lparr>md_committed_cmd := Some c, md_is_skip := True\<rparr>) (menc_put i (menc_slot i s) ?s1)
      \<lparr>mn_committed := (if i > mn_committed s then i else mn_committed s), mn_in_applying := True\<rparr> = s3"
    by (simp add: s3_def menc_put_def max_def)
  moreover have "mn_active s3 = mn_active s" "mn_committed s3 = max i (mn_committed s)" by (simp_all add: s3_def)
  ultimately have "Menc_Decide cfg i c s = Some (s7\<lparr>mn_in_applying := False\<rparr>)"
    using k F core(2) s4(1) s5(1) s6(1)
    by (cases "mn_committed s < i") (simp_all add: max_def Menc_Decide_def Menc_OnCommit_def Menc_GetInstance_Some Let_def s7_def)
  moreover have "menc_core (D(i \<mapsto> c)) (s7\<lparr>mn_in_applying := False\<rparr>)" using s7(1) by (simp add: menc_core_def open_slots_def)
  ultimately show ?thesis using last s7(2) by (auto simp: menc_inv_def)
qed

lemma Menc_Suggest_inv:
  assumes "menc_inv D s" "D i = None" "0 < i" "commit_key c \<noteq> None"
  shows "\<exists>s'. Menc_Suggest n i 1 [] ps c s = Some (1, s') \<and> menc_inv D s'"
proof -
  have core: "menc_core D s" "\<not> mn_in_applying s" "D (Suc (mn_executed s)) = None" using assms(1) by (simp_all add: menc_inv_def)
  note F = menc_fresh_slot [OF core(1) assms(2,3)] and I = menc_coreD [OF core(1)]
  define s' where "s' = (menc_put i ((menc_slot i s)\<lparr>md_seen := 1, md_suggested := 1, md_cmd := Some c\<rparr>)
     (if length ps > 100 then s\<lparr>skip_potentials_recd := AList.update ((i - 1) mod n) (remdups ps) (skip_potentials_recd s)\<rparr> else s))\<lparr>mn_active := max (mn_active s) i\<rparr>"
  have f: "mn_min_active s' = mn_min_active s" "mn_executed s' = mn_executed s" "mn_applied s' = mn_applied s" "mn_committed s' = mn_committed s"
    "unexecuted_keys s' = unexecuted_keys s" "mn_in_applying s' = mn_in_applying s" by (simp_all add: s'_def)
  have sl: "menc_slot j s' = (if j = i then (menc_slot i s)\<lparr>md_seen := 1, md_suggested := 1, md_cmd := Some c\<rparr> else menc_slot j s)" for j by (simp add: s'_def)
  have b: "\<forall>j \<ge> mn_min_active s. md_committed_cmd (menc_slot j s') = D j \<and> (md_executed (menc_slot j s') \<longleftrightarrow> j \<in> applied_slots s)"
    using I(5,6) unfolding sl by auto
  have e: "\<forall>j d. md_cmd (menc_slot j s') = Some d \<longrightarrow> commit_key d \<noteq> None" "\<forall>j. md_seen (menc_slot j s') \<le> 1"
    unfolding sl using I(11,12) assms(4) by auto
  have "menc_core D s'" unfolding menc_core_def open_slots_def f
    using core(1) b e unfolding menc_core_def open_slots_def by blast
  moreover have "Menc_Suggest n i 1 [] ps c s = Some (1, s')"
    using F(3) I(12) [of i] by (simp add: Menc_Suggest_def OnSuggest_def Menc_GetInstance_def Let_def s'_def menc_put_def)
  ultimately show ?thesis using core(2,3) by (auto simp: menc_inv_def f)
qed

text \<open>
  Messages as a replica gets them: the suggestion of a slot comes before its decision, over one connection, and each slot is decided once.
  The ballot of every suggestion is 1.
\<close>

datatype menc_event = SuggestMsg nat "nat list" marshallable | DecideMsg nat marshallable

fun menc_events_ok :: "nat list \<Rightarrow> menc_event list \<Rightarrow> bool" where
  "menc_events_ok ds [] \<longleftrightarrow> True"
| "menc_events_ok ds (SuggestMsg i ps c # es) \<longleftrightarrow> 0 < i \<and> i \<notin> set ds \<and> commit_key c \<noteq> None \<and> menc_events_ok ds es"
| "menc_events_ok ds (DecideMsg i c # es) \<longleftrightarrow> 0 < i \<and> i \<notin> set ds \<and> commit_key c \<noteq> None \<and> menc_events_ok (i # ds) es"

fun menc_run :: "rule_cfg \<Rightarrow> nat \<Rightarrow> menc_event list \<Rightarrow> menc_server \<Rightarrow> menc_server option" where
  "menc_run cfg n [] s = Some s"
| "menc_run cfg n (SuggestMsg i ps c # es) s = do {(b, s1) \<leftarrow> Menc_Suggest n i 1 [] ps c s; menc_run cfg n es s1}"
| "menc_run cfg n (DecideMsg i c # es) s = do {s1 \<leftarrow> Menc_Decide cfg i c s; menc_run cfg n es s1}"

fun decisions :: "menc_event list \<Rightarrow> (nat \<times> marshallable) list" where
  "decisions [] = []"
| "decisions (SuggestMsg i ps c # es) = decisions es"
| "decisions (DecideMsg i c # es) = (i, c) # decisions es"

lemma menc_run_inv:
  assumes "\<not> cfg_mode_rule cfg" "menc_inv D s" "menc_events_ok ds es" "dom D = set ds"
  shows "\<exists>s' D'. menc_run cfg n es s = Some s' \<and> menc_inv D' s' \<and> (\<forall>j c. D' j = Some c \<longleftrightarrow> D j = Some c \<or> (j, c) \<in> set (decisions es))"
  using assms(2-4)
proof (induction es arbitrary: D s ds rule: decisions.induct)
  case (2 i ps c es)
  have "D i = None" using 2(3,4) by auto
  from Menc_Suggest_inv [OF 2(2) this, of c n ps] 2(3) obtain s1 where "Menc_Suggest n i 1 [] ps c s = Some (1, s1)" "menc_inv D s1" by auto
  with 2(1) [OF this(2) _ 2(4)] 2(3) show ?case by auto
next
  case (3 i c es)
  have D: "D i = None" using 3(3,4) by auto
  from Menc_Decide_inv [OF 3(2) assms(1) this, of c] 3(3) obtain s1 where s1: "Menc_Decide cfg i c s = Some s1" "menc_inv (D(i \<mapsto> c)) s1" by auto
  have "dom (D(i \<mapsto> c)) = set (i # ds)" using 3(4) by simp
  from 3(1) [OF s1(2) _ this] 3(3) obtain s' D' where "menc_run cfg n es s1 = Some s'" "menc_inv D' s'"
    "\<forall>j d. D' j = Some d \<longleftrightarrow> (D(i \<mapsto> c)) j = Some d \<or> (j, d) \<in> set (decisions es)" by auto
  moreover have "(D(i \<mapsto> c)) j = Some d \<longleftrightarrow> D j = Some d \<or> (j, d) = (i, c)" for j d using D by auto
  ultimately show ?case using s1(1) by auto
qed auto

text \<open>
  C30. A Mencius replica applies each decision once. For any such messages, without the fast path, no \<^verbatim>\<open>verify\<close> of the replica fails, every command
  it applied was decided for its slot, no slot is applied twice, and once all slots up to \<open>m\<close> are decided all of them have been applied.
\<close>

theorem mencius_applies_once:
  assumes "\<not> cfg_mode_rule cfg" "menc_events_ok [] es"
  shows "\<exists>s. menc_run cfg n es (new_menc_server rs) = Some s \<and> distinct (map fst (mn_applied s)) \<and> set (mn_applied s) \<subseteq> set (decisions es) \<and>
    (\<forall>m. {1..m} \<subseteq> fst ` set (decisions es) \<longrightarrow> {1..m} \<subseteq> fst ` set (mn_applied s) \<and> m \<le> mn_executed s)"
proof -
  have "menc_core Map.empty (new_menc_server rs)" by (auto simp: menc_core_def new_menc_server_def open_slots_def new_menc_data_def)
  then have "menc_inv Map.empty (new_menc_server rs)" by (simp add: menc_inv_def) (simp add: new_menc_server_def)
  from menc_run_inv [OF assms(1) this assms(2), of n] obtain s D where s: "menc_run cfg n es (new_menc_server rs) = Some s" "menc_inv D s"
    "\<And>j c. D j = Some c \<longleftrightarrow> (j, c) \<in> set (decisions es)" by auto
  have core: "menc_core D s" "D (Suc (mn_executed s)) = None" using s(2) by (simp_all add: menc_inv_def)
  note I = menc_coreD [OF core(1)]
  have m: "{1..m} \<subseteq> applied_slots s \<and> m \<le> mn_executed s" if "{1..m} \<subseteq> fst ` set (decisions es)" for m
  proof -
    have "m \<le> mn_executed s"
    proof (rule ccontr)
      assume "\<not> m \<le> mn_executed s"
      then have "Suc (mn_executed s) \<in> fst ` set (decisions es)" using that by (intro subsetD [OF that]) simp
      then show False using s(3) core(2) by force
    qed
    then show ?thesis using I(9) by auto
  qed
  have "set (mn_applied s) \<subseteq> set (decisions es)" using I(7) s(3) by auto
  with s(1) I(8) m show ?thesis by blast
qed

theorem mencius_applies_once_witness:
  "\<exists>s. menc_run plain_cfg 3 [SuggestMsg 1 [] (commit_write 1 1 1 7 8), DecideMsg 2 (commit_write 2 2 1 7 9), DecideMsg 1 (commit_write 1 1 1 7 8)]
       (new_menc_server (new_rule_server True)) = Some s \<and> {1..2} \<subseteq> fst ` set (mn_applied s) \<and> distinct (map fst (mn_applied s))"
proof -
  let ?es = "[SuggestMsg 1 [] (commit_write 1 1 1 7 8), DecideMsg 2 (commit_write 2 2 1 7 9), DecideMsg 1 (commit_write 1 1 1 7 8)]"
  have "menc_events_ok [] ?es" by code_simp
  moreover have "\<not> cfg_mode_rule plain_cfg" by (simp add: plain_cfg_def)
  moreover have "{1..2} \<subseteq> fst ` set (decisions ?es)" by auto
  ultimately show ?thesis using mencius_applies_once [of plain_cfg ?es 3 "new_rule_server True"] by blast
qed

end
