(* ===== verification/ALock.thy ===== *)
theory ALock
  imports Prelude
begin

text \<open>
  The asynchronous locks of two-phase locking (\<^verbatim>\<open>rrr/misc/alock.hpp\<close>, \<^verbatim>\<open>alock.cpp\<close>, \<^verbatim>\<open>alarm.hpp\<close>) and the lock of a row
  (\<^verbatim>\<open>memdb/locking.h\<close>). A request is answered by a callback; \<open>al_calls\<close> records the calls with the request they are for. The callbacks of
  \<^verbatim>\<open>ALock::Lock\<close> set an event and do not enter the lock again. Identifiers are \<open>nat\<close>, counters \<open>int\<close>. Priorities arrive as
  unsigned and are compared as signed words of 64 bits. The base class of \<^verbatim>\<open>WaitDieALock\<close> and \<^verbatim>\<open>WoundDieALock\<close> is one record here; the two
  classes have the same code for \<^verbatim>\<open>read_acquire\<close>, \<^verbatim>\<open>write_acquire\<close>, \<^verbatim>\<open>abort\<close> and the destructor, but for two counters.
\<close>

section \<open>The lock\<close>

datatype lock_type = RLOCK | WLOCK

datatype lock_status = FREE | WLOCKED | RLOCKED

datatype req_status = REQ_WAIT | REQ_LOCK

datatype lock_call = YesCall nat | NoCall nat | WoundCall nat

record lock_req =
  lr_id :: nat
  lr_priority :: int
  lr_type :: lock_type
  lr_status :: req_status

record alock =
  al_next :: nat
  al_status :: lock_status
  al_n_rlock :: int
  al_done :: bool
  al_requests :: "lock_req list"
  al_calls :: "lock_call list"

definition new_req :: "nat \<Rightarrow> u64 \<Rightarrow> lock_type \<Rightarrow> lock_req" where
  "new_req i p t = \<lparr>lr_id = i, lr_priority = sint p, lr_type = t, lr_status = REQ_WAIT\<rparr>"

definition new_alock :: alock where
  "new_alock = \<lparr>al_next = 1, al_status = FREE, al_n_rlock = 0, al_done = False, al_requests = [], al_calls = []\<rparr>"

definition write_acquire :: "lock_req \<Rightarrow> 'a alock_scheme \<Rightarrow> (lock_req \<times> 'a alock_scheme) option" where
  "write_acquire r s =
     do {vrfy (lr_type r = WLOCK \<and> lr_status r = REQ_WAIT);
         Some (r\<lparr>lr_status := REQ_LOCK\<rparr>, s\<lparr>al_status := WLOCKED, al_calls := al_calls s @ [YesCall (lr_id r)]\<rparr>)}"

definition read_acquire :: "lock_req \<Rightarrow> 'a alock_scheme \<Rightarrow> (lock_req \<times> 'a alock_scheme) option" where
  "read_acquire r s =
     do {vrfy (lr_type r = RLOCK \<and> lr_status r = REQ_WAIT);
         Some (r\<lparr>lr_status := REQ_LOCK\<rparr>, s\<lparr>al_status := (if al_n_rlock s = 0 then RLOCKED else al_status s),
           al_n_rlock := al_n_rlock s + 1, al_calls := al_calls s @ [YesCall (lr_id r)]\<rparr>)}"

definition read_acquire_all :: "lock_req list \<Rightarrow> 'a alock_scheme \<Rightarrow> (lock_req list \<times> 'a alock_scheme) option" where
  "read_acquire_all rs s =
     (if rs = [] then Some ([], s)
      else do {vrfy (\<forall>r\<in>set rs. lr_type r = RLOCK \<and> lr_status r = REQ_WAIT);
               Some (map (\<lambda>r. r\<lparr>lr_status := REQ_LOCK\<rparr>) rs,
                 s\<lparr>al_status := (if al_n_rlock s = 0 then RLOCKED else al_status s), al_n_rlock := al_n_rlock s + int (length rs),
                   al_calls := al_calls s @ map (\<lambda>r. YesCall (lr_id r)) rs\<rparr>)})"

text \<open>The loop that collects the reads up to the next write, and their grant.\<close>

definition grant_reads :: "lock_req list \<Rightarrow> lock_req list \<Rightarrow> 'a alock_scheme \<Rightarrow> 'a alock_scheme option" where
  "grant_reads before rest s =
     do {(rs, s1) \<leftarrow> read_acquire_all (takeWhile (\<lambda>r. lr_type r = RLOCK) rest) s;
         Some (s1\<lparr>al_requests := before @ rs @ dropWhile (\<lambda>r. lr_type r = RLOCK) rest\<rparr>)}"

text \<open>What follows the release of the last holder: the queue is empty, or its next request is a write that gets the lock.\<close>

definition grant_write :: "lock_req list \<Rightarrow> lock_req list \<Rightarrow> 'a alock_scheme \<Rightarrow> 'a alock_scheme option" where
  "grant_write before rest s =
     (case rest of
        [] \<Rightarrow> do {vrfy (before = []); Some (s\<lparr>al_status := FREE\<rparr>)}
      | r # rs \<Rightarrow> do {(r1, s1) \<leftarrow> write_acquire r s; Some (s1\<lparr>al_requests := before @ r1 # rs\<rparr>)})"

definition alock_abort :: "nat \<Rightarrow> 'a alock_scheme \<Rightarrow> 'a alock_scheme option" where
  "alock_abort i s =
     (if al_done s then Some s
      else let before = takeWhile (\<lambda>r. lr_id r \<noteq> i) (al_requests s)
           in case dropWhile (\<lambda>r. lr_id r \<noteq> i) (al_requests s) of
                [] \<Rightarrow> Some s
              | it # rest \<Rightarrow>
                  let s1 = s\<lparr>al_requests := before @ rest\<rparr>
                  in if lr_status it = REQ_WAIT then
                       do {s2 \<leftarrow> (if lr_type it = WLOCK \<and> (\<forall>r\<in>set before. lr_type r \<noteq> WLOCK)
                                  then do {vrfy (al_status s1 = RLOCKED); grant_reads before rest s1} else Some s1);
                           Some (s2\<lparr>al_calls := al_calls s2 @ [NoCall i]\<rparr>)}
                     else if lr_type it = RLOCK then
                       (let s2 = s1\<lparr>al_n_rlock := al_n_rlock s1 - 1\<rparr>
                        in if al_n_rlock s2 = 0 then grant_write before rest s2 else Some s2)
                     else (case rest of
                             r # _ \<Rightarrow> if lr_type r = WLOCK then grant_write before rest s1
                                      else do {s2 \<leftarrow> grant_reads before rest s1; vrfy (al_status s2 = RLOCKED); Some s2}
                           | [] \<Rightarrow> grant_write before rest s1))"

definition alock_destroy :: "'a alock_scheme \<Rightarrow> 'a alock_scheme option" where
  "alock_destroy s =
     do {vrfy (\<not> al_done s);
         vrfy (al_status s \<noteq> RLOCKED);
         Some (s\<lparr>al_done := True, al_requests := [],
           al_calls := al_calls s @ map (\<lambda>r. NoCall (lr_id r)) (filter (\<lambda>r. lr_status r = REQ_WAIT) (al_requests s))\<rparr>)}"

section \<open>Wait-die\<close>

record wd_lock = alock +
  n_r_in_queue :: int
  n_w_in_queue :: int

datatype wd_status = WD_WAIT | WD_DIE

definition new_wd_lock :: wd_lock where
  "new_wd_lock = alock.extend new_alock \<lparr>n_r_in_queue = 0, n_w_in_queue = 0\<rparr>"

text \<open>\<^verbatim>\<open>wait_die\<close> for a write and for a read; the list is the queue from its end.\<close>

fun wait_die_write :: "int \<Rightarrow> lock_req list \<Rightarrow> wd_status" where
  "wait_die_write p [] = WD_WAIT"
| "wait_die_write p (r # rs) = (if p \<ge> lr_priority r then WD_DIE else if lr_type r = WLOCK then WD_WAIT else wait_die_write p rs)"

fun wait_die_read :: "int \<Rightarrow> lock_req list \<Rightarrow> wd_status option" where
  "wait_die_read p [] = None"
| "wait_die_read p (r # rs) =
     (if lr_type r = WLOCK then Some (if p < lr_priority r then WD_WAIT else WD_DIE) else wait_die_read p rs)"

definition wait_die :: "lock_type \<Rightarrow> int \<Rightarrow> lock_req list \<Rightarrow> wd_status option" where
  "wait_die t p rs = (case t of WLOCK \<Rightarrow> Some (wait_die_write p (rev rs)) | RLOCK \<Rightarrow> wait_die_read p (rev rs))"

definition count_in_queue :: "lock_type \<Rightarrow> int \<Rightarrow> wd_lock \<Rightarrow> wd_lock" where
  "count_in_queue t d s =
     (case t of RLOCK \<Rightarrow> s\<lparr>n_r_in_queue := n_r_in_queue s + d\<rparr> | WLOCK \<Rightarrow> s\<lparr>n_w_in_queue := n_w_in_queue s + d\<rparr>)"

definition wd_vlock :: "lock_type \<Rightarrow> u64 \<Rightarrow> wd_lock \<Rightarrow> wd_lock option" where
  "wd_vlock t p s =
     (let i = al_next s; s1 = s\<lparr>al_next := i + 1\<rparr>; r = new_req i p t
      in if al_done s1 then Some (s1\<lparr>al_calls := al_calls s1 @ [NoCall i]\<rparr>)
         else if al_status s1 = FREE \<or> (al_status s1 = RLOCKED \<and> t = RLOCK \<and> n_w_in_queue s1 = 0) then
           do {(r1, s2) \<leftarrow> (case t of RLOCK \<Rightarrow> read_acquire r (count_in_queue t 1 s1) | WLOCK \<Rightarrow> write_acquire r (count_in_queue t 1 s1));
               Some (s2\<lparr>al_requests := al_requests s2 @ [r1]\<rparr>)}
         else do {wd \<leftarrow> wait_die t (sint p) (al_requests s1);
                  case wd of
                    WD_WAIT \<Rightarrow> Some ((count_in_queue t 1 s1)\<lparr>al_requests := al_requests s1 @ [r]\<rparr>)
                  | WD_DIE \<Rightarrow> Some (s1\<lparr>al_calls := al_calls s1 @ [NoCall i]\<rparr>)})"

text \<open>\<^verbatim>\<open>WaitDieALock::abort\<close> takes the request out of the counters, and is otherwise as above.\<close>

definition wd_abort :: "nat \<Rightarrow> wd_lock \<Rightarrow> wd_lock option" where
  "wd_abort i s =
     (if al_done s then Some s
      else case find (\<lambda>r. lr_id r = i) (al_requests s) of
             None \<Rightarrow> Some s
           | Some it \<Rightarrow> alock_abort i (count_in_queue (lr_type it) (-1) s))"

text \<open>
  \<^verbatim>\<open>sanity_check\<close> of \<^verbatim>\<open>WaitDieALock\<close>: the loop over the queue with its variables \<^verbatim>\<open>acquired_check\<close>, \<^verbatim>\<open>big\<close>, \<^verbatim>\<open>tmp_big\<close>,
  \<^verbatim>\<open>n_r_locked\<close>, \<^verbatim>\<open>num_w\<close> and \<^verbatim>\<open>num_r\<close>; \<open>first\<close> is \<^verbatim>\<open>it == requests_.begin()\<close>.
\<close>

record sanity =
  acquired_check :: bool
  sc_big :: int
  tmp_big :: int
  n_r_locked :: int
  num_w :: int
  num_r :: int

definition sanity_acquired :: "bool \<Rightarrow> wd_lock \<Rightarrow> lock_req \<Rightarrow> sanity \<Rightarrow> sanity option" where
  "sanity_acquired first s r v =
     (if \<not> acquired_check v then
        (if al_status s = WLOCKED
         then do {vrfy first; vrfy (lr_type r = WLOCK); vrfy (lr_status r = REQ_LOCK); Some (v\<lparr>acquired_check := True\<rparr>)}
         else do {vrfy (al_status s = RLOCKED);
                  if lr_type r = RLOCK
                  then do {vrfy (lr_status r = REQ_LOCK); Some (v\<lparr>n_r_locked := n_r_locked v + 1\<rparr>)}
                  else do {vrfy (lr_status r = REQ_WAIT); vrfy (n_r_locked v = al_n_rlock s); Some (v\<lparr>acquired_check := True\<rparr>)}})
      else do {vrfy (lr_status r = REQ_WAIT); Some v})"

definition sanity_order :: "lock_req \<Rightarrow> sanity \<Rightarrow> sanity option" where
  "sanity_order r v =
     do {vrfy (sc_big v > lr_priority r);
         if lr_type r = RLOCK
         then Some (v\<lparr>num_r := num_r v + 1,
                tmp_big := (if tmp_big v = -1 \<or> tmp_big v > lr_priority r then lr_priority r else tmp_big v)\<rparr>)
         else if tmp_big v = -1 then Some (v\<lparr>num_w := num_w v + 1, sc_big := lr_priority r\<rparr>)
         else do {vrfy (tmp_big v > lr_priority r); Some (v\<lparr>num_w := num_w v + 1, sc_big := tmp_big v, tmp_big := -1\<rparr>)}}"

fun sanity_loop :: "bool \<Rightarrow> wd_lock \<Rightarrow> lock_req list \<Rightarrow> sanity \<Rightarrow> sanity option" where
  "sanity_loop first s [] v = Some v"
| "sanity_loop first s (r # rs) v =
     do {v1 \<leftarrow> sanity_acquired first s r v; v2 \<leftarrow> sanity_order r v1; sanity_loop False s rs v2}"

definition sanity_check :: "wd_lock \<Rightarrow> unit option" where
  "sanity_check s =
     do {vrfy (al_status s = FREE \<longrightarrow> al_requests s = []);
         v \<leftarrow> sanity_loop True s (al_requests s)
           \<lparr>acquired_check = False, sc_big = 2 ^ 63 - 1, tmp_big = -1, n_r_locked = 0, num_w = 0, num_r = 0\<rparr>;
         vrfy (num_w v = n_w_in_queue s);
         vrfy (num_r v = n_r_in_queue s)}"

section \<open>Wound-wait\<close>

text \<open>
  \<open>w i\<close> is the answer of the wound callback of request \<open>i\<close>: 0 if its transaction is wounded. The loops of \<^verbatim>\<open>wound_die\<close> take the queue
  from its end; \<open>kept\<close> are the requests passed and not erased.
\<close>

definition wound :: "(nat \<Rightarrow> int) \<Rightarrow> lock_req \<Rightarrow> alock \<Rightarrow> (int \<times> alock) option" where
  "wound w r s =
     (let ret = w (lr_id r); s1 = s\<lparr>al_calls := al_calls s @ [WoundCall (lr_id r)]\<rparr>
      in if lr_status r = REQ_WAIT
         then do {vrfy (ret = 0); Some (0, s1\<lparr>al_calls := al_calls s1 @ [NoCall (lr_id r)]\<rparr>)}
         else if ret = 0
         then (if lr_type r = WLOCK
               then do {vrfy (al_status s1 = WLOCKED); Some (0, s1\<lparr>al_status := FREE\<rparr>)}
               else do {vrfy (al_status s1 = RLOCKED);
                        let n = al_n_rlock s1 - 1;
                        Some (0, s1\<lparr>al_n_rlock := n, al_status := (if n = 0 then FREE else al_status s1)\<rparr>)})
         else Some (ret, s1))"

fun wound_die_write :: "(nat \<Rightarrow> int) \<Rightarrow> int \<Rightarrow> lock_req list \<Rightarrow> lock_req list \<Rightarrow> alock \<Rightarrow> (lock_req list \<times> alock) option" where
  "wound_die_write w p [] kept s = Some (kept, s)"
| "wound_die_write w p (r # rs) kept s =
     (if lr_priority r \<ge> p
      then do {(ret, s1) \<leftarrow> wound w r s;
               if ret = 0 then wound_die_write w p rs kept s1 else wound_die_write w p rs (r # kept) s1}
      else wound_die_write w p rs (r # kept) s)"

text \<open>The loop for a read as it is written: a request of smaller value is looked at again.\<close>

partial_function (option) wound_die_read ::
  "(nat \<Rightarrow> int) \<Rightarrow> int \<Rightarrow> lock_req list \<Rightarrow> lock_req list \<Rightarrow> alock \<Rightarrow> (lock_req list \<times> alock) option" where
  "wound_die_read w p todo kept s =
     (case todo of
        [] \<Rightarrow> Some (kept, s)
      | r # rs \<Rightarrow>
          if lr_priority r < p then wound_die_read w p todo kept s
          else if lr_type r = WLOCK
          then do {(ret, s1) \<leftarrow> wound w r s;
                   if ret = 0 then wound_die_read w p rs kept s1 else wound_die_read w p rs (r # kept) s1}
          else wound_die_read w p rs (r # kept) s)"

declare wound_die_read.simps [code]

definition wound_die :: "(nat \<Rightarrow> int) \<Rightarrow> lock_type \<Rightarrow> int \<Rightarrow> alock \<Rightarrow> alock option" where
  "wound_die w t p s =
     do {(kept, s1) \<leftarrow> (case t of WLOCK \<Rightarrow> wound_die_write w p (rev (al_requests s)) [] s
                            | RLOCK \<Rightarrow> wound_die_read w p (rev (al_requests s)) [] s);
         Some (s1\<lparr>al_requests := kept\<rparr>)}"

text \<open>The grants of \<^verbatim>\<open>vlock\<close> after the request was added: the loop of the case \<^verbatim>\<open>RLOCKED\<close> passes the holders and takes the reads after them.\<close>

definition grant_front :: "alock \<Rightarrow> alock option" where
  "grant_front s =
     (case al_requests s of
        [] \<Rightarrow> None
      | front # rest \<Rightarrow>
          (case al_status s of
             FREE \<Rightarrow> if lr_type front = WLOCK then grant_write [] (front # rest) s else grant_reads [] (front # rest) s
           | RLOCKED \<Rightarrow>
               do {vrfy (lr_type front = RLOCK \<and> lr_status front = REQ_LOCK);
                   let locked = takeWhile (\<lambda>r. lr_status r = REQ_LOCK) (front # rest);
                   let more = dropWhile (\<lambda>r. lr_status r = REQ_LOCK) (front # rest);
                   vrfy (\<forall>r\<in>set locked. lr_type r = RLOCK);
                   let stop = dropWhile (\<lambda>r. lr_status r = REQ_WAIT \<and> lr_type r = RLOCK) more;
                   vrfy (case stop of [] \<Rightarrow> True | r # _ \<Rightarrow> lr_status r = REQ_WAIT);
                   (rs, s1) \<leftarrow> read_acquire_all (takeWhile (\<lambda>r. lr_status r = REQ_WAIT \<and> lr_type r = RLOCK) more) s;
                   Some (s1\<lparr>al_requests := locked @ rs @ stop\<rparr>)}
           | WLOCKED \<Rightarrow> do {vrfy (lr_type front = WLOCK \<and> lr_status front = REQ_LOCK); Some s}))"

definition wound_vlock :: "(nat \<Rightarrow> int) \<Rightarrow> lock_type \<Rightarrow> u64 \<Rightarrow> alock \<Rightarrow> alock option" where
  "wound_vlock w t p s =
     (let i = al_next s; s1 = s\<lparr>al_next := i + 1\<rparr>
      in if al_done s1 then Some (s1\<lparr>al_calls := al_calls s1 @ [NoCall i]\<rparr>)
         else do {s2 \<leftarrow> wound_die w t (sint p) s1;
                  grant_front (s2\<lparr>al_requests := al_requests s2 @ [new_req i p t]\<rparr>)})"

section \<open>Time-outs\<close>

text \<open>The alarms, sorted by identifier; an alarm of a lock is a call of \<^verbatim>\<open>do_timeout\<close> for the request named. Other locks share the alarm object, with other identifiers.\<close>

record alarm =
  am_next :: nat
  am_waiting :: "(nat \<times> nat \<times> nat) list"

definition alarm_add :: "nat \<Rightarrow> nat \<Rightarrow> alarm \<Rightarrow> nat \<times> alarm" where
  "alarm_add time i a = (am_next a, a\<lparr>am_next := am_next a + 1, am_waiting := am_waiting a @ [(am_next a, time, i)]\<rparr>)"

definition alarm_remove :: "nat \<Rightarrow> alarm \<Rightarrow> alarm" where
  "alarm_remove i a = a\<lparr>am_waiting := filter (\<lambda>x. fst x \<noteq> i) (am_waiting a)\<rparr>"

datatype timeout_status = TR_WAIT | TR_LOCK | TR_UNLOCK | TR_ABORT | TR_TIMEOUT

record timeout_req =
  tr_id :: nat
  tr_alarm :: nat
  tr_type :: lock_type
  tr_status :: timeout_status

record timeout_lock =
  tl_next :: nat
  tl_status :: lock_status
  tl_n_rlock :: int
  tl_requests :: "timeout_req list"
  tm_wait :: nat
  tl_alarm :: alarm
  tl_calls :: "lock_call list"

definition new_timeout_lock :: "nat \<Rightarrow> timeout_lock" where
  "new_timeout_lock tm = \<lparr>tl_next = 1, tl_status = FREE, tl_n_rlock = 0, tl_requests = [], tm_wait = tm,
     tl_alarm = \<lparr>am_next = 1, am_waiting = []\<rparr>, tl_calls = []\<rparr>"

definition timeout_vlock :: "nat \<Rightarrow> lock_type \<Rightarrow> timeout_lock \<Rightarrow> timeout_lock" where
  "timeout_vlock now t s =
     (let i = tl_next s; s1 = s\<lparr>tl_next := i + 1\<rparr>
      in if tl_status s1 = FREE \<or> (tl_status s1 = RLOCKED \<and> t = RLOCK)
         then s1\<lparr>tl_requests := tl_requests s1 @ [\<lparr>tr_id = i, tr_alarm = 0, tr_type = t, tr_status = TR_LOCK\<rparr>],
                tl_status := (case t of RLOCK \<Rightarrow> RLOCKED | WLOCK \<Rightarrow> WLOCKED),
                tl_n_rlock := (case t of RLOCK \<Rightarrow> tl_n_rlock s1 + 1 | WLOCK \<Rightarrow> tl_n_rlock s1),
                tl_calls := tl_calls s1 @ [YesCall i]\<rparr>
         else if tm_wait s1 > 0
         then let (k, a) = alarm_add (now + tm_wait s1) i (tl_alarm s1)
              in s1\<lparr>tl_requests := tl_requests s1 @ [\<lparr>tr_id = i, tr_alarm = k, tr_type = t, tr_status = TR_WAIT\<rparr>], tl_alarm := a\<rparr>
         else s1\<lparr>tl_calls := tl_calls s1 @ [NoCall i]\<rparr>)"

text \<open>The two loops of \<^verbatim>\<open>lock_all\<close>; the identifiers of the granted requests are collected for the callbacks.\<close>

definition grant_timeout :: "timeout_req \<Rightarrow> timeout_lock \<Rightarrow> timeout_lock" where
  "grant_timeout r s = s\<lparr>tl_alarm := alarm_remove (tr_alarm r) (tl_alarm s),
     tl_status := (case tr_type r of RLOCK \<Rightarrow> RLOCKED | WLOCK \<Rightarrow> WLOCKED),
     tl_n_rlock := (case tr_type r of RLOCK \<Rightarrow> tl_n_rlock s + 1 | WLOCK \<Rightarrow> tl_n_rlock s)\<rparr>"

fun lock_more :: "timeout_req list \<Rightarrow> timeout_lock \<Rightarrow> nat list \<times> timeout_req list \<times> timeout_lock" where
  "lock_more [] s = ([], [], s)"
| "lock_more (r # rs) s =
     (if tl_status s = RLOCKED \<and> tr_type r = RLOCK \<and> tr_status r = TR_WAIT
      then let (is, rs', s') = lock_more rs (grant_timeout r s) in (tr_id r # is, r\<lparr>tr_status := TR_LOCK\<rparr> # rs', s')
      else let (is, rs', s') = lock_more rs s in (is, r # rs', s'))"

fun lock_first :: "timeout_req list \<Rightarrow> timeout_lock \<Rightarrow> nat list \<times> timeout_req list \<times> timeout_lock" where
  "lock_first [] s = ([], [], s)"
| "lock_first (r # rs) s =
     (if tr_status r = TR_WAIT
      then let (is, rs', s') = lock_more rs (grant_timeout r s) in (tr_id r # is, r\<lparr>tr_status := TR_LOCK\<rparr> # rs', s')
      else let (is, rs', s') = lock_first rs s in (is, r # rs', s'))"

definition timeout_lock_all :: "timeout_lock \<Rightarrow> (nat list \<times> timeout_lock) option" where
  "timeout_lock_all s =
     do {vrfy (tl_status s = FREE \<and> tl_n_rlock s = 0);
         let (is, rs, s1) = lock_first (tl_requests s) s;
         Some (is, s1\<lparr>tl_requests := rs\<rparr>)}"

definition timeout_abort :: "nat \<Rightarrow> timeout_lock \<Rightarrow> timeout_lock option" where
  "timeout_abort i s =
     (case dropWhile (\<lambda>r. tr_id r \<noteq> i) (tl_requests s) of
        [] \<Rightarrow> Some s
      | it # rest \<Rightarrow>
          let s1 = s\<lparr>tl_requests := takeWhile (\<lambda>r. tr_id r \<noteq> i) (tl_requests s) @ rest\<rparr>
          in (case tr_status it of
                TR_LOCK \<Rightarrow>
                  let n = (case tr_type it of RLOCK \<Rightarrow> tl_n_rlock s1 - 1 | WLOCK \<Rightarrow> tl_n_rlock s1);
                      s2 = s1\<lparr>tl_n_rlock := n, tl_status := (if n = 0 then FREE else tl_status s1)\<rparr>
                  in if tl_status s2 = FREE
                     then do {(is, s3) \<leftarrow> timeout_lock_all s2; Some (s3\<lparr>tl_calls := tl_calls s3 @ map YesCall is\<rparr>)}
                     else Some s2
              | TR_WAIT \<Rightarrow> Some (s1\<lparr>tl_alarm := alarm_remove (tr_alarm it) (tl_alarm s1)\<rparr>)
              | TR_TIMEOUT \<Rightarrow> Some s1
              | _ \<Rightarrow> None))"

text \<open>\<^verbatim>\<open>do_timeout\<close>, and \<^verbatim>\<open>exe_next\<close>, which looks at the alarm of the smallest identifier only. An alarm of an erased request would be a dangling reference.\<close>

definition do_timeout :: "nat \<Rightarrow> timeout_lock \<Rightarrow> timeout_lock option" where
  "do_timeout i s =
     (case find (\<lambda>r. tr_id r = i) (tl_requests s) of
        None \<Rightarrow> None
      | Some r \<Rightarrow> Some (if tr_status r = TR_WAIT
          then s\<lparr>tl_requests := map (\<lambda>r. if tr_id r = i then r\<lparr>tr_status := TR_TIMEOUT\<rparr> else r) (tl_requests s),
                 tl_calls := tl_calls s @ [NoCall i]\<rparr>
          else s))"

definition exe_next :: "nat \<Rightarrow> timeout_lock \<Rightarrow> (bool \<times> timeout_lock) option" where
  "exe_next now s =
     (case am_waiting (tl_alarm s) of
        [] \<Rightarrow> Some (False, s)
      | (k, time, i) # as \<Rightarrow>
          if now > time
          then do {s1 \<leftarrow> do_timeout i s; Some (True, s1\<lparr>tl_alarm := alarm_remove k (tl_alarm s1)\<rparr>)}
          else Some (False, s))"

lemma exe_next_shrinks:
  "exe_next now s = Some (True, s') \<Longrightarrow> length (am_waiting (tl_alarm s')) < length (am_waiting (tl_alarm s))"
  by (auto simp: exe_next_def do_timeout_def alarm_remove_def bind_eq_Some_conv le_imp_less_Suc
      split: list.splits if_splits option.splits prod.splits)

function alarm_Work :: "nat \<Rightarrow> timeout_lock \<Rightarrow> timeout_lock option" where
  "alarm_Work now s =
     (case exe_next now s of None \<Rightarrow> None | Some (b, s') \<Rightarrow> if b then alarm_Work now s' else Some s')"
  by pat_completeness auto
termination
  by (relation "measure (\<lambda>(now, s). length (am_waiting (tl_alarm s)))") (auto simp: exe_next_shrinks)

declare alarm_Work.simps [simp del]

text \<open>The destructor; requests in other states would abort.\<close>

definition timeout_destroy :: "timeout_lock \<Rightarrow> timeout_lock option" where
  "timeout_destroy s =
     do {vrfy (\<forall>r\<in>set (tl_requests s). tr_status r \<in> {TR_LOCK, TR_WAIT, TR_TIMEOUT});
         let waiting = filter (\<lambda>r. tr_status r = TR_WAIT) (tl_requests s);
         Some (s\<lparr>tl_requests := [], tl_alarm := fold (\<lambda>r. alarm_remove (tr_alarm r)) waiting (tl_alarm s),
           tl_calls := tl_calls s @ map (\<lambda>r. NoCall (tr_id r)) waiting\<rparr>)}"

section \<open>The lock of a row\<close>

text \<open>\<open>rw_readers\<close> lists the set \<^verbatim>\<open>r_\<close> without repetition.\<close>

record rw_lock =
  rw_wlocked :: bool
  rw_w :: int
  rw_readers :: "int list"

definition new_rw_lock :: rw_lock where
  "new_rw_lock = \<lparr>rw_wlocked = False, rw_w = 0, rw_readers = []\<rparr>"

definition wlock_by :: "int \<Rightarrow> rw_lock \<Rightarrow> bool \<times> rw_lock" where
  "wlock_by w s =
     (if rw_wlocked s then (w = rw_w s, s)
      else if rw_readers s = [] then (True, s\<lparr>rw_wlocked := True, rw_w := w\<rparr>)
      else if w \<in> set (rw_readers s) \<and> length (rw_readers s) = 1
      then (True, s\<lparr>rw_readers := removeAll w (rw_readers s), rw_wlocked := True, rw_w := w\<rparr>)
      else (False, s))"

definition rlock_by :: "int \<Rightarrow> rw_lock \<Rightarrow> bool \<times> rw_lock" where
  "rlock_by w s =
     (if rw_wlocked s then (w = rw_w s, s) else (True, s\<lparr>rw_readers := List.insert w (rw_readers s)\<rparr>))"

definition unlock_by :: "int \<Rightarrow> rw_lock \<Rightarrow> bool \<times> rw_lock" where
  "unlock_by w s =
     (let mine = rw_wlocked s \<and> w = rw_w s; s1 = (if mine then s\<lparr>rw_wlocked := False\<rparr> else s)
      in (mine \<or> w \<in> set (rw_readers s1), s1\<lparr>rw_readers := removeAll w (rw_readers s1)\<rparr>))"

end
