(* ===== verification/ALockQueue.thy ===== *)
theory ALockQueue
  imports ALock
begin

text \<open>
  The queue of \<^verbatim>\<open>WaitDieALock\<close> and \<^verbatim>\<open>WoundDieALock\<close>: it starts with the holders and goes on with the waiting requests, the first of which
  cannot have the lock; identifiers are answered once. Every operation of the two locks keeps this, and wait-die its order of priorities.
\<close>

section \<open>The queue\<close>

definition lock_ok :: "'a alock_scheme \<Rightarrow> lock_req list \<Rightarrow> lock_req list \<Rightarrow> bool" where
  "lock_ok s locked waiting \<longleftrightarrow>
     al_requests s = locked @ waiting \<and> (\<forall>r\<in>set locked. lr_status r = REQ_LOCK) \<and> (\<forall>r\<in>set waiting. lr_status r = REQ_WAIT) \<and>
     (case al_status s of
        FREE \<Rightarrow> locked = [] \<and> al_n_rlock s = 0
      | WLOCKED \<Rightarrow> al_n_rlock s = 0 \<and> (\<exists>r. locked = [r] \<and> lr_type r = WLOCK)
      | RLOCKED \<Rightarrow> locked \<noteq> [] \<and> (\<forall>r\<in>set locked. lr_type r = RLOCK) \<and> al_n_rlock s = int (length locked))"

text \<open>No waiting request could have the lock.\<close>

definition settled :: "'a alock_scheme \<Rightarrow> lock_req list \<Rightarrow> bool" where
  "settled s waiting \<longleftrightarrow> waiting = [] \<or> al_status s = WLOCKED \<or> (al_status s = RLOCKED \<and> lr_type (hd waiting) = WLOCK)"

abbreviation lock_it :: "lock_req \<Rightarrow> lock_req" where
  "lock_it r \<equiv> r\<lparr>lr_status := REQ_LOCK\<rparr>"

abbreviation is_read :: "lock_req \<Rightarrow> bool" where
  "is_read r \<equiv> lr_type r = RLOCK"

lemma not_read [simp]: "lr_type r \<noteq> RLOCK \<longleftrightarrow> lr_type r = WLOCK" "lr_type r \<noteq> WLOCK \<longleftrightarrow> lr_type r = RLOCK"
  by (cases "lr_type r"; simp)+

lemma not_wait [simp]: "lr_status r \<noteq> REQ_WAIT \<longleftrightarrow> lr_status r = REQ_LOCK" "lr_status r \<noteq> REQ_LOCK \<longleftrightarrow> lr_status r = REQ_WAIT"
  by (cases "lr_status r"; simp)+

lemma dropWhile_hd_write: "dropWhile is_read rs = [] \<or> lr_type (hd (dropWhile is_read rs)) = WLOCK"
  by (induction rs) auto

lemma grant_reads_eq:
  assumes "\<forall>r\<in>set rest. lr_status r = REQ_WAIT" "al_n_rlock s = int (length before)" "before \<noteq> [] \<Longrightarrow> al_status s = RLOCKED"
    "before = [] \<Longrightarrow> rest \<noteq> [] \<and> is_read (hd rest)"
  shows "grant_reads before rest s = Some (s\<lparr>al_status := RLOCKED, al_n_rlock := int (length (before @ takeWhile is_read rest)),
    al_calls := al_calls s @ map (\<lambda>r. YesCall (lr_id r)) (takeWhile is_read rest),
    al_requests := before @ map lock_it (takeWhile is_read rest) @ dropWhile is_read rest\<rparr>)"
proof -
  have w: "\<forall>r\<in>set (takeWhile is_read rest). lr_type r = RLOCK \<and> lr_status r = REQ_WAIT"
    using assms(1) by (auto dest: set_takeWhileD)
  show ?thesis
  proof (cases "takeWhile is_read rest = []")
    case True
    then have "before \<noteq> []" using assms(4) by (cases rest) auto
    moreover from this have "s\<lparr>al_status := RLOCKED, al_n_rlock := int (length before)\<rparr> = s" using assms(2,3) by simp
    ultimately show ?thesis using True assms(2,3) by (simp add: grant_reads_def read_acquire_all_def)
  next
    case False
    moreover have "(if al_n_rlock s = 0 then RLOCKED else al_status s) = RLOCKED" using assms(2,3) by auto
    ultimately show ?thesis using w assms(2) by (simp add: grant_reads_def read_acquire_all_def)
  qed
qed

lemma grant_reads_ok:
  assumes "\<forall>r\<in>set rest. lr_status r = REQ_WAIT" "\<forall>r\<in>set before. lr_status r = REQ_LOCK \<and> is_read r"
    "before = [] \<Longrightarrow> rest \<noteq> [] \<and> is_read (hd rest)"
  shows "lock_ok (s\<lparr>al_status := RLOCKED, al_n_rlock := int (length (before @ takeWhile is_read rest)), al_calls := cs,
      al_requests := before @ map lock_it (takeWhile is_read rest) @ dropWhile is_read rest\<rparr>)
      (before @ map lock_it (takeWhile is_read rest)) (dropWhile is_read rest) \<and>
    settled (s\<lparr>al_status := RLOCKED, al_n_rlock := int (length (before @ takeWhile is_read rest)), al_calls := cs,
      al_requests := before @ map lock_it (takeWhile is_read rest) @ dropWhile is_read rest\<rparr>) (dropWhile is_read rest)"
proof -
  have "before @ map lock_it (takeWhile is_read rest) \<noteq> []" using assms(3) by (cases rest) auto
  then show ?thesis using assms(1,2) dropWhile_hd_write [of rest]
    by (auto simp: lock_ok_def settled_def dest: set_takeWhileD set_dropWhileD)
qed

text \<open>A request of the queue, found by its identifier, among the holders or the waiting ones.\<close>

lemma split_locked:
  assumes "locked @ waiting = before @ it # rest" "\<forall>r\<in>set waiting. lr_status r = REQ_WAIT" "lr_status it = REQ_LOCK"
  obtains l2 where "locked = before @ it # l2" "rest = l2 @ waiting"
  using assms by (auto simp: append_eq_append_conv2 append_eq_Cons_conv Cons_eq_append_conv)

lemma split_waiting:
  assumes "locked @ waiting = before @ it # rest" "\<forall>r\<in>set locked. lr_status r = REQ_LOCK" "lr_status it = REQ_WAIT"
  obtains w1 where "waiting = w1 @ it # rest" "before = locked @ w1"
  using assms by (auto simp: append_eq_append_conv2 append_eq_Cons_conv Cons_eq_append_conv)

lemma find_split:
  assumes "dropWhile (\<lambda>r. lr_id r \<noteq> i) rs = it # rest"
  shows "rs = takeWhile (\<lambda>r. lr_id r \<noteq> i) rs @ it # rest" "lr_id it = i" "\<forall>r\<in>set (takeWhile (\<lambda>r. lr_id r \<noteq> i) rs). lr_id r \<noteq> i"
proof -
  show "rs = takeWhile (\<lambda>r. lr_id r \<noteq> i) rs @ it # rest" using assms takeWhile_dropWhile_id [of "\<lambda>r. lr_id r \<noteq> i" rs] by simp
  show "lr_id it = i" using hd_dropWhile [of "\<lambda>r. lr_id r \<noteq> i" rs] assms by simp
  show "\<forall>r\<in>set (takeWhile (\<lambda>r. lr_id r \<noteq> i) rs). lr_id r \<noteq> i" by (auto dest: set_takeWhileD)
qed

section \<open>The answers\<close>

definition answers :: "nat \<Rightarrow> lock_call list \<Rightarrow> nat" where
  "answers i cs = length (filter (\<lambda>c. c = YesCall i \<or> c = NoCall i) cs)"

lemma answers_simps [simp]:
  "answers i [] = 0" "answers i (c # cs) = (if c = YesCall i \<or> c = NoCall i then 1 else 0) + answers i cs"
  "answers i (cs @ ds) = answers i cs + answers i ds"
  by (auto simp: answers_def)

lemma answers_grant: "distinct (map lr_id rs) \<Longrightarrow> answers i (map (\<lambda>r. YesCall (lr_id r)) rs) = (if i \<in> lr_id ` set rs then 1 else 0)"
  by (induction rs) auto

definition waiting_ids :: "lock_req list \<Rightarrow> nat set" where
  "waiting_ids rs = lr_id ` {r \<in> set rs. lr_status r = REQ_WAIT}"

definition holders :: "lock_req list \<Rightarrow> (nat \<times> lock_type) set" where
  "holders rs = (\<lambda>r. (lr_id r, lr_type r)) ` {r \<in> set rs. lr_status r = REQ_LOCK}"

lemma queue_sets [simp]:
  "waiting_ids [] = {}" "waiting_ids (rs @ ts) = waiting_ids rs \<union> waiting_ids ts"
  "waiting_ids (r # rs) = (if lr_status r = REQ_WAIT then insert (lr_id r) (waiting_ids rs) else waiting_ids rs)"
  "waiting_ids (map lock_it rs) = {}"
  "holders [] = {}" "holders (rs @ ts) = holders rs \<union> holders ts"
  "holders (r # rs) = (if lr_status r = REQ_LOCK then insert (lr_id r, lr_type r) (holders rs) else holders rs)"
  by (auto simp: waiting_ids_def holders_def)

lemma queue_sets_uniform:
  "\<forall>r\<in>set rs. lr_status r = REQ_WAIT \<Longrightarrow> waiting_ids rs = lr_id ` set rs"
  "\<forall>r\<in>set rs. lr_status r = REQ_LOCK \<Longrightarrow> waiting_ids rs = {}"
  "\<forall>r\<in>set rs. lr_status r = REQ_WAIT \<Longrightarrow> holders rs = {}"
  "\<forall>r\<in>set rs. lr_status r = REQ_LOCK \<Longrightarrow> holders rs = (\<lambda>r. (lr_id r, lr_type r)) ` set rs"
  by (auto simp: waiting_ids_def holders_def)

lemma waiting_ids_subset: "waiting_ids rs \<subseteq> lr_id ` set rs"
  by (auto simp: waiting_ids_def)

definition ids_ok :: "'a alock_scheme \<Rightarrow> bool" where
  "ids_ok s \<longleftrightarrow> 0 < al_next s \<and> distinct (map lr_id (al_requests s)) \<and> (\<forall>r\<in>set (al_requests s). 0 < lr_id r \<and> lr_id r < al_next s) \<and>
     (\<forall>i. answers i (al_calls s) = (if 0 < i \<and> i < al_next s \<and> i \<notin> waiting_ids (al_requests s) then 1 else 0)) \<and>
     (\<forall>(i, t) \<in> holders (al_requests s). YesCall i \<in> set (al_calls s))"

definition alock_inv :: "'a alock_scheme \<Rightarrow> bool" where
  "alock_inv s \<longleftrightarrow> \<not> al_done s \<and> ids_ok s \<and> (\<exists>locked waiting. lock_ok s locked waiting \<and> settled s waiting)"

lemma ids_ok_step:
  assumes "ids_ok s" "al_next s' = al_next s" "al_calls s' = al_calls s @ ds" "distinct (map lr_id (al_requests s'))"
    "lr_id ` set (al_requests s') \<subseteq> lr_id ` set (al_requests s)" "waiting_ids (al_requests s') \<subseteq> waiting_ids (al_requests s)"
    "\<And>i. answers i ds = (if i \<in> waiting_ids (al_requests s) - waiting_ids (al_requests s') then 1 else 0)"
    "\<And>i t. (i, t) \<in> holders (al_requests s') \<Longrightarrow> (i, t) \<in> holders (al_requests s) \<or> YesCall i \<in> set ds"
  shows "ids_ok s'"
proof -
  have ids: "0 < lr_id r \<and> lr_id r < al_next s" if "r \<in> set (al_requests s')" for r
  proof -
    have "lr_id r \<in> lr_id ` set (al_requests s)" using assms(5) that by blast
    then show ?thesis using assms(1) by (auto simp: ids_ok_def)
  qed
  have pos: "0 < i \<and> i < al_next s" if "i \<in> waiting_ids (al_requests s)" for i
    using that assms(1) waiting_ids_subset [of "al_requests s"] by (auto simp: ids_ok_def)
  have old: "answers i (al_calls s) = (if 0 < i \<and> i < al_next s \<and> i \<notin> waiting_ids (al_requests s) then 1 else 0)" for i
    using assms(1) by (simp add: ids_ok_def)
  have "answers i (al_calls s') = (if 0 < i \<and> i < al_next s \<and> i \<notin> waiting_ids (al_requests s') then 1 else 0)" for i
    using old [of i] assms(6,7) pos [of i] by (auto simp: assms(3))
  moreover have "YesCall i \<in> set (al_calls s')" if "(i, t) \<in> holders (al_requests s')" for i t
    using assms(8) [OF that] assms(1) by (auto simp: assms(3) ids_ok_def)
  ultimately show ?thesis using ids assms(1,2,4) by (auto simp: ids_ok_def)
qed

lemma ids_ok_grant:
  assumes "ids_ok s" "al_requests s = K @ G @ R" "\<forall>r\<in>set G. lr_status r = REQ_WAIT" "al_next s' = al_next s"
    "al_requests s' = K @ map lock_it G @ R" "al_calls s' = al_calls s @ map (\<lambda>r. YesCall (lr_id r)) G"
  shows "ids_ok s'"
proof (rule ids_ok_step [OF assms(1,4,6)])
  have d: "distinct (map lr_id (K @ G @ R))" using assms(1,2) by (simp add: ids_ok_def)
  show "distinct (map lr_id (al_requests s'))" using d by (simp add: assms(5) comp_def image_image)
  show "lr_id ` set (al_requests s') \<subseteq> lr_id ` set (al_requests s)" by (auto simp: assms(2,5))
  show "waiting_ids (al_requests s') \<subseteq> waiting_ids (al_requests s)" by (auto simp: assms(2,5))
  show "answers i (map (\<lambda>r. YesCall (lr_id r)) G) = (if i \<in> waiting_ids (al_requests s) - waiting_ids (al_requests s') then 1 else 0)" for i
    using d waiting_ids_subset [of K] waiting_ids_subset [of R]
    by (auto simp: assms(2,5) answers_grant queue_sets_uniform(1) [OF assms(3)])
  show "(i, t) \<in> holders (al_requests s) \<or> YesCall i \<in> set (map (\<lambda>r. YesCall (lr_id r)) G)" if "(i, t) \<in> holders (al_requests s')" for i t
    using that by (auto simp: assms(2,5) holders_def)
qed

lemma ids_ok_remove:
  assumes "ids_ok s" "al_requests s = K @ it # R" "al_next s' = al_next s" "al_requests s' = K @ R"
    "al_calls s' = al_calls s @ (if lr_status it = REQ_WAIT then [NoCall (lr_id it)] else [])"
  shows "ids_ok s'"
proof (rule ids_ok_step [OF assms(1,3,5)])
  have "distinct (map lr_id (K @ it # R))" using assms(1,2) by (simp add: ids_ok_def)
  then show "answers i (if lr_status it = REQ_WAIT then [NoCall (lr_id it)] else []) =
      (if i \<in> waiting_ids (al_requests s) - waiting_ids (al_requests s') then 1 else 0)"
    "distinct (map lr_id (al_requests s'))" for i
    using waiting_ids_subset [of K] waiting_ids_subset [of R] by (auto simp: assms(2,4))
qed (auto simp: assms(2,4) split: if_splits)

section \<open>Release\<close>

lemma abort_waiting_ok:
  assumes "alock_inv s" "dropWhile (\<lambda>r. lr_id r \<noteq> i) (al_requests s) = it # rest" "lr_status it = REQ_WAIT"
  shows "\<exists>s'. alock_abort i s = Some s' \<and> alock_inv s'"
proof -
  let ?before = "takeWhile (\<lambda>r. lr_id r \<noteq> i) (al_requests s)"
  obtain locked waiting where s: "lock_ok s locked waiting" "settled s waiting" using assms(1) by (auto simp: alock_inv_def)
  have ids: "ids_ok s" "\<not> al_done s" using assms(1) by (auto simp: alock_inv_def)
  note f = find_split [OF assms(2)]
  have L: "\<forall>r\<in>set locked. lr_status r = REQ_LOCK" "\<forall>r\<in>set waiting. lr_status r = REQ_WAIT" "al_requests s = locked @ waiting"
    using s(1) by (auto simp: lock_ok_def)
  obtain w1 where w: "waiting = w1 @ it # rest" "?before = locked @ w1"
    using split_waiting [of locked waiting ?before it rest] L f(1) assms(3) by auto
  have rq: "al_requests s = locked @ w1 @ it # rest" using L(3) w(1) by simp
  show ?thesis
  proof (cases "lr_type it = WLOCK \<and> (\<forall>r\<in>set (locked @ w1). lr_type r \<noteq> WLOCK)")
    case True
    have st: "al_status s = RLOCKED" using s True w(1) by (auto simp: lock_ok_def settled_def split: lock_status.splits)
    have w1: "w1 = []" using s(2) True st w(1) by (cases w1) (auto simp: settled_def)
    have lk: "locked \<noteq> []" "\<forall>r\<in>set locked. is_read r" "al_n_rlock s = int (length locked)" using s(1) st by (auto simp: lock_ok_def)
    let ?reads = "takeWhile is_read rest" and ?later = "dropWhile is_read rest"
    let ?s1 = "s\<lparr>al_requests := locked @ rest\<rparr>"
    let ?s2 = "?s1\<lparr>al_status := RLOCKED, al_n_rlock := int (length (locked @ ?reads)),
      al_calls := al_calls s @ map (\<lambda>r. YesCall (lr_id r)) ?reads, al_requests := locked @ map lock_it ?reads @ ?later\<rparr>"
    let ?s3 = "?s1\<lparr>al_status := RLOCKED, al_n_rlock := int (length (locked @ ?reads)),
      al_calls := (al_calls s @ map (\<lambda>r. YesCall (lr_id r)) ?reads) @ [NoCall i], al_requests := locked @ map lock_it ?reads @ ?later\<rparr>"
    have rest: "\<forall>r\<in>set rest. lr_status r = REQ_WAIT" using L(2) w(1) by auto
    have "grant_reads locked rest ?s1 = Some ?s2" using grant_reads_eq [OF rest, of ?s1 locked] lk st by simp
    then have "alock_abort i s = Some ?s3"
      using True st w(2) w1 assms(2,3) ids(2) by (simp add: alock_abort_def)
    moreover have "lock_ok ?s3 (locked @ map lock_it ?reads) ?later \<and> settled ?s3 ?later"
      by (rule grant_reads_ok) (use rest L(1) lk in auto)
    moreover have "ids_ok ?s3"
    proof (rule ids_ok_remove [where K = locked and it = it and R = "map lock_it ?reads @ ?later"])
      let ?t = "s\<lparr>al_calls := al_calls s @ map (\<lambda>r. YesCall (lr_id r)) ?reads, al_requests := (locked @ [it]) @ map lock_it ?reads @ ?later\<rparr>"
      show "ids_ok ?t" by (rule ids_ok_grant [OF ids(1), where K = "locked @ [it]" and G = ?reads and R = ?later])
        (use rest w1 in \<open>auto simp: rq dest: set_takeWhileD\<close>)
    qed (use assms(3) f(2) in auto)
    ultimately show ?thesis using ids(2) unfolding alock_inv_def by (intro exI [of _ ?s3]) auto
  next
    case False
    let ?s2 = "s\<lparr>al_requests := locked @ w1 @ rest, al_calls := al_calls s @ [NoCall i]\<rparr>"
    have "alock_abort i s = Some ?s2" using False w(2) assms(2,3) ids(2) by (auto simp: alock_abort_def Let_def)
    moreover have "lock_ok ?s2 locked (w1 @ rest)" using s(1) w(1) by (auto simp: lock_ok_def split: lock_status.splits)
    moreover have "settled ?s2 (w1 @ rest)"
      using s False w(1) by (cases w1) (auto simp: settled_def lock_ok_def)
    moreover have "ids_ok ?s2" by (rule ids_ok_remove [OF ids(1), where K = "locked @ w1" and it = it and R = rest]) (use assms(3) f(2) in \<open>auto simp: rq\<close>)
    ultimately show ?thesis using ids(2) unfolding alock_inv_def by (intro exI [of _ ?s2]) auto
  qed
qed

text \<open>Granting the lock after its last holder is gone.\<close>

lemma grant_next_ok:
  assumes "ids_ok s" "\<not> al_done s" "al_requests s = waiting" "\<forall>r\<in>set waiting. lr_status r = REQ_WAIT" "al_n_rlock s = 0"
  shows "waiting = [] \<or> lr_type (hd waiting) = WLOCK \<Longrightarrow> \<exists>s'. grant_write [] waiting s = Some s' \<and> alock_inv s'"
    and "waiting \<noteq> [] \<Longrightarrow> lr_type (hd waiting) = RLOCK \<Longrightarrow> \<exists>s'. grant_reads [] waiting s = Some s' \<and> al_status s' = RLOCKED \<and> alock_inv s'"
proof -
  show "\<exists>s'. grant_write [] waiting s = Some s' \<and> alock_inv s'" if "waiting = [] \<or> lr_type (hd waiting) = WLOCK"
  proof (cases waiting)
    case Nil
    have "ids_ok (s\<lparr>al_status := FREE\<rparr>)" using assms(1) by (simp add: ids_ok_def)
    moreover have "lock_ok (s\<lparr>al_status := FREE\<rparr>) [] []" using Nil assms(3,5) by (simp add: lock_ok_def)
    ultimately show ?thesis using Nil assms(2) by (auto simp: grant_write_def alock_inv_def settled_def)
  next
    case (Cons r rs)
    let ?s = "s\<lparr>al_status := WLOCKED, al_calls := al_calls s @ [YesCall (lr_id r)], al_requests := lock_it r # rs\<rparr>"
    have "grant_write [] waiting s = Some ?s" using Cons that assms(4) by (simp add: grant_write_def write_acquire_def)
    moreover have "ids_ok ?s" by (rule ids_ok_grant [OF assms(1), where K = "[]" and G = "[r]" and R = rs]) (use Cons assms(3,4) in auto)
    moreover have "lock_ok ?s [lock_it r] rs" using Cons that assms(4,5) by (auto simp: lock_ok_def)
    ultimately show ?thesis using assms(2) by (auto simp: alock_inv_def settled_def intro!: exI [of _ ?s])
  qed
  show "\<exists>s'. grant_reads [] waiting s = Some s' \<and> al_status s' = RLOCKED \<and> alock_inv s'" if "waiting \<noteq> []" "lr_type (hd waiting) = RLOCK"
  proof -
    let ?reads = "takeWhile is_read waiting" and ?later = "dropWhile is_read waiting"
    let ?s = "s\<lparr>al_status := RLOCKED, al_n_rlock := int (length ([] @ ?reads)),
      al_calls := al_calls s @ map (\<lambda>r. YesCall (lr_id r)) ?reads, al_requests := [] @ map lock_it ?reads @ ?later\<rparr>"
    have "grant_reads [] waiting s = Some ?s" by (rule grant_reads_eq) (use assms that in auto)
    moreover have "lock_ok ?s ([] @ map lock_it ?reads) ?later \<and> settled ?s ?later" by (rule grant_reads_ok) (use assms(4) that in auto)
    moreover have "ids_ok ?s" by (rule ids_ok_grant [OF assms(1), where K = "[]" and G = ?reads and R = ?later])
      (use assms(3,4) in \<open>auto dest: set_takeWhileD\<close>)
    ultimately show ?thesis using assms(2) unfolding alock_inv_def by (intro exI [of _ ?s]) auto
  qed
qed

lemma abort_locked_ok:
  assumes "alock_inv s" "dropWhile (\<lambda>r. lr_id r \<noteq> i) (al_requests s) = it # rest" "lr_status it = REQ_LOCK"
  shows "\<exists>s'. alock_abort i s = Some s' \<and> alock_inv s'"
proof -
  let ?before = "takeWhile (\<lambda>r. lr_id r \<noteq> i) (al_requests s)"
  obtain locked waiting where s: "lock_ok s locked waiting" "settled s waiting" using assms(1) by (auto simp: alock_inv_def)
  have ids: "ids_ok s" "\<not> al_done s" using assms(1) by (auto simp: alock_inv_def)
  note f = find_split [OF assms(2)]
  have L: "\<forall>r\<in>set locked. lr_status r = REQ_LOCK" "\<forall>r\<in>set waiting. lr_status r = REQ_WAIT" "al_requests s = locked @ waiting"
    using s(1) by (auto simp: lock_ok_def)
  obtain l2 where l: "locked = ?before @ it # l2" "rest = l2 @ waiting"
    using split_locked [of locked waiting ?before it rest] L f(1) assms(3) by auto
  have rq: "al_requests s = ?before @ it # l2 @ waiting" using L(3) l(1) by simp
  show ?thesis
  proof (cases "lr_type it")
    case RLOCK
    have st: "al_status s = RLOCKED" "\<forall>r\<in>set locked. is_read r" "al_n_rlock s = int (length locked)"
    proof -
      have "it \<in> set locked" by (subst l(1)) simp
      then show "al_status s = RLOCKED" "\<forall>r\<in>set locked. is_read r" "al_n_rlock s = int (length locked)"
        using s(1) RLOCK by (auto simp: lock_ok_def split: lock_status.splits)
    qed
    let ?s2 = "s\<lparr>al_requests := ?before @ l2 @ waiting, al_n_rlock := al_n_rlock s - 1\<rparr>"
    have i2: "ids_ok ?s2" by (rule ids_ok_remove [OF ids(1), where K = ?before and it = it and R = "l2 @ waiting"]) (use rq assms(3) in auto)
    have "length locked = length ?before + Suc (length l2)" by (subst l(1)) simp
    then have n: "al_n_rlock ?s2 = int (length (?before @ l2))" using st(3) by simp
    show ?thesis
    proof (cases "?before @ l2 = []")
      case True
      have "waiting = [] \<or> lr_type (hd waiting) = WLOCK" using s(2) st(1) by (auto simp: settled_def)
      then have "\<exists>s'. grant_write [] waiting ?s2 = Some s' \<and> alock_inv s'"
        using grant_next_ok(1) [OF i2, of waiting] ids(2) L(2) n True by auto
      moreover have "alock_abort i s = grant_write [] waiting ?s2"
        using n True l(2) RLOCK assms(2,3) ids(2) by (auto simp: alock_abort_def)
      ultimately show ?thesis by simp
    next
      case False
      then have "length (?before @ l2) \<noteq> 0" by (simp only: length_0_conv not_False_eq_True)
      then have "al_n_rlock s - 1 \<noteq> 0" using n by (simp del: length_append)
      then have "alock_abort i s = Some ?s2" using l(2) RLOCK assms(2,3) ids(2) by (simp add: alock_abort_def Let_def)
      moreover have "lock_ok ?s2 (?before @ l2) waiting" 
      proof -
        have "set (?before @ l2) \<subseteq> set locked" using arg_cong [OF l(1), of set] by auto
        then show ?thesis using st(1,2) L(1,2) n False unfolding lock_ok_def by auto
      qed
      moreover have "settled ?s2 waiting" using s(2) by (simp add: settled_def)
      ultimately show ?thesis using i2 ids(2) by (auto simp: alock_inv_def)
    qed
  next
    case WLOCK
    have "it \<in> set locked" by (subst l(1)) simp
    then have st: "locked = [it]" "al_n_rlock s = 0" using s(1) WLOCK by (auto simp: lock_ok_def split: lock_status.splits)
    have "length ?before + Suc (length l2) = length locked" using arg_cong [OF l(1), of length] by simp
    then have b: "?before = []" "l2 = []" by (simp_all add: st(1))
    let ?s1 = "s\<lparr>al_requests := waiting\<rparr>"
    have i1: "ids_ok ?s1" by (rule ids_ok_remove [OF ids(1), where K = "[]" and it = it and R = waiting]) (use rq b assms(3) in auto)
    have "alock_abort i s = (case waiting of r # _ \<Rightarrow> if lr_type r = WLOCK then grant_write [] waiting ?s1
        else do {s2 \<leftarrow> grant_reads [] waiting ?s1; vrfy (al_status s2 = RLOCKED); Some s2} | [] \<Rightarrow> grant_write [] waiting ?s1)"
      using b l(2) WLOCK assms(2,3) ids(2) by (cases waiting) (simp_all add: alock_abort_def Let_def)
    moreover note g = grant_next_ok [OF i1, of waiting]
    ultimately show ?thesis using ids(2) st(2) L(2) by (cases waiting; cases "lr_type (hd waiting)") auto
  qed
qed

lemma alock_abort_inv:
  assumes "alock_inv s"
  shows "\<exists>s'. alock_abort i s = Some s' \<and> alock_inv s'"
proof (cases "dropWhile (\<lambda>r. lr_id r \<noteq> i) (al_requests s)")
  case Nil
  show ?thesis using assms by (intro exI [of _ s]) (simp only: alock_abort_def Let_def Nil list.case if_cancel simp_thms)
next
  case (Cons it rest)
  then show ?thesis using assms abort_waiting_ok abort_locked_ok by (cases "lr_status it") blast+
qed

section \<open>Wait-die\<close>

text \<open>What a request is, without its status.\<close>

abbreviation req_core :: "lock_req \<Rightarrow> nat \<times> int \<times> lock_type" where
  "req_core r \<equiv> (lr_id r, lr_priority r, lr_type r)"

lemma core_lock_it: "map (req_core \<circ> lock_it) rs = map req_core rs"
  by simp

lemma grant_core:
  "grant_reads before rest s = Some s' \<Longrightarrow> map req_core (al_requests s') = map req_core (before @ rest) \<and> alock.more s' = alock.more s"
  "grant_write before rest s = Some s' \<Longrightarrow> al_requests s = before @ rest \<Longrightarrow>
     map req_core (al_requests s') = map req_core (before @ rest) \<and> alock.more s' = alock.more s"
proof -
  have "map req_core (takeWhile is_read rest) @ map req_core (dropWhile is_read rest) = map req_core rest"
    by (metis map_append takeWhile_dropWhile_id)
  then show "grant_reads before rest s = Some s' \<Longrightarrow> map req_core (al_requests s') = map req_core (before @ rest) \<and> alock.more s' = alock.more s"
    by (auto simp: grant_reads_def read_acquire_all_def bind_eq_Some_conv comp_def split: if_splits)
  show "grant_write before rest s = Some s' \<Longrightarrow> al_requests s = before @ rest \<Longrightarrow>
     map req_core (al_requests s') = map req_core (before @ rest) \<and> alock.more s' = alock.more s"
    by (auto simp: grant_write_def write_acquire_def bind_eq_Some_conv split: list.splits)
qed

lemma alock_abort_core:
  assumes "alock_abort i s = Some s'" "\<not> al_done s" "dropWhile (\<lambda>r. lr_id r \<noteq> i) (al_requests s) = it # rest"
  shows "map req_core (al_requests s') = map req_core (takeWhile (\<lambda>r. lr_id r \<noteq> i) (al_requests s) @ rest) \<and> alock.more s' = alock.more s"
  using assms by (auto simp: alock_abort_def Let_def bind_eq_Some_conv split: if_splits list.splits dest!: grant_core)

text \<open>A request is queued behind a conflicting one only if its priority value is smaller.\<close>

definition wd_before :: "nat \<times> int \<times> lock_type \<Rightarrow> nat \<times> int \<times> lock_type \<Rightarrow> bool" where
  "wd_before a b \<longleftrightarrow> (snd (snd a) = WLOCK \<or> snd (snd b) = WLOCK \<longrightarrow> fst (snd b) < fst (snd a))"

definition wd_inv :: "wd_lock \<Rightarrow> bool" where
  "wd_inv s \<longleftrightarrow> alock_inv s \<and> sorted_wrt wd_before (map req_core (al_requests s)) \<and>
     n_r_in_queue s = int (length (filter (\<lambda>r. lr_type r = RLOCK) (al_requests s))) \<and>
     n_w_in_queue s = int (length (filter (\<lambda>r. lr_type r = WLOCK) (al_requests s)))"

lemma count_in_queue_simps [simp]:
  "alock.truncate (count_in_queue t d s) = alock.truncate s" "al_requests (count_in_queue t d s) = al_requests s"
  "al_status (count_in_queue t d s) = al_status s" "al_n_rlock (count_in_queue t d s) = al_n_rlock s"
  "al_next (count_in_queue t d s) = al_next s" "al_calls (count_in_queue t d s) = al_calls s" "al_done (count_in_queue t d s) = al_done s"
  "n_r_in_queue (count_in_queue t d s) = n_r_in_queue s + (if t = RLOCK then d else 0)"
  "n_w_in_queue (count_in_queue t d s) = n_w_in_queue s + (if t = WLOCK then d else 0)"
  by (cases t; simp add: count_in_queue_def alock.defs)+

lemma count_in_queue_inv [simp]: "alock_inv (count_in_queue t d s) \<longleftrightarrow> alock_inv s"
  by (simp add: alock_inv_def ids_ok_def lock_ok_def settled_def cong: lock_status.case_cong)

lemma counts_core:
  "map req_core rs = map req_core ts \<Longrightarrow> length (filter (\<lambda>r. lr_type r = t) rs) = length (filter (\<lambda>r. lr_type r = t) ts)"
  by (drule arg_cong [where f = "\<lambda>cs. length (filter (\<lambda>c. snd (snd c) = t) cs)"]) (simp add: filter_map comp_def)

lemma counters_more: "alock.more s = alock.more s' \<Longrightarrow> n_r_in_queue s = n_r_in_queue s' \<and> n_w_in_queue s = n_w_in_queue s'"
  by (cases s; cases s') simp

lemma find_dropWhile: "find P xs = (case dropWhile (\<lambda>x. \<not> P x) xs of [] \<Rightarrow> None | x # _ \<Rightarrow> Some x)"
  by (induction xs) auto

lemma wd_abort_inv:
  assumes "wd_inv s"
  shows "\<exists>s'. wd_abort i s = Some s' \<and> wd_inv s'"
proof (cases "dropWhile (\<lambda>r. lr_id r \<noteq> i) (al_requests s)")
  case Nil
  then have "find (\<lambda>r. lr_id r = i) (al_requests s) = None" by (auto simp: find_None_iff)
  then show ?thesis using assms by (simp add: wd_abort_def)
next
  case (Cons it rest)
  note f = find_split [OF Cons]
  have inv: "alock_inv s" "\<not> al_done s" using assms by (auto simp: wd_inv_def alock_inv_def)
  have "find (\<lambda>r. lr_id r = i) (al_requests s) = Some it" using Cons by (simp add: find_dropWhile)
  then have "wd_abort i s = alock_abort i (count_in_queue (lr_type it) (-1) s)" using inv(2) by (simp add: wd_abort_def)
  moreover obtain s' where s': "alock_abort i (count_in_queue (lr_type it) (-1) s) = Some s'" "alock_inv s'"
    using alock_abort_inv [of "count_in_queue (lr_type it) (-1) s" i] inv by auto
  moreover have c: "map req_core (al_requests s') = map req_core (takeWhile (\<lambda>r. lr_id r \<noteq> i) (al_requests s) @ rest)"
    "n_r_in_queue s' = n_r_in_queue s - (if lr_type it = RLOCK then 1 else 0)" "n_w_in_queue s' = n_w_in_queue s - (if lr_type it = WLOCK then 1 else 0)"
    using alock_abort_core [OF s'(1)] inv(2) Cons counters_more [of s' "count_in_queue (lr_type it) (-1) s"] by auto
  moreover have "sorted_wrt wd_before (map req_core (al_requests s'))"
  proof -
    have "sorted_wrt wd_before (map req_core (takeWhile (\<lambda>r. lr_id r \<noteq> i) (al_requests s) @ it # rest))"
      using assms f(1) by (simp add: wd_inv_def)
    then show ?thesis unfolding c(1) by (simp add: sorted_wrt_append)
  qed
  moreover have "length (filter (\<lambda>r. lr_type r = t) (al_requests s)) =
      length (filter (\<lambda>r. lr_type r = t) (al_requests s')) + (if lr_type it = t then 1 else 0)" for t
    using counts_core [OF c(1), of t] by (subst f(1)) simp
  ultimately show ?thesis using assms by (auto simp: wd_inv_def)
qed

text \<open>What \<^verbatim>\<open>wait_die\<close> answers.\<close>

lemma wait_die_write_iff:
  assumes "sorted_wrt wd_before (map req_core rs)"
  shows "wait_die_write p (rev rs) = (if \<forall>r\<in>set rs. p < lr_priority r then WD_WAIT else WD_DIE)"
  using assms
proof (induction rs rule: rev_induct)
  case (snoc r rs)
  have old: "sorted_wrt wd_before (map req_core rs)" using snoc.prems by (simp add: sorted_wrt_append)
  have "\<forall>q\<in>set rs. p < lr_priority q" if "lr_type r = WLOCK" "p < lr_priority r"
    using snoc.prems that by (force simp: sorted_wrt_append wd_before_def)
  then show ?case using snoc.IH [OF old] by (auto simp: not_le)
qed simp

lemma wait_die_read_iff:
  assumes "sorted_wrt wd_before (map req_core rs)" "\<exists>r\<in>set rs. lr_type r = WLOCK"
  shows "wait_die_read p (rev rs) = Some (if \<forall>r\<in>set rs. lr_type r = WLOCK \<longrightarrow> p < lr_priority r then WD_WAIT else WD_DIE)"
  using assms
proof (induction rs rule: rev_induct)
  case (snoc r rs)
  have old: "sorted_wrt wd_before (map req_core rs)" using snoc.prems by (simp add: sorted_wrt_append)
  have "\<forall>q\<in>set rs. p < lr_priority q" if "lr_type r = WLOCK" "p < lr_priority r"
    using snoc.prems(1) that by (force simp: sorted_wrt_append wd_before_def)
  then show ?case using snoc.IH [OF old] snoc.prems(2) by (cases "lr_type r") auto
qed simp

lemma wait_die_iff:
  assumes "sorted_wrt wd_before (map req_core rs)" "t = RLOCK \<Longrightarrow> \<exists>r\<in>set rs. lr_type r = WLOCK"
  shows "wait_die t p rs = Some (if \<forall>r\<in>set rs. (lr_type r = WLOCK \<or> t = WLOCK) \<longrightarrow> p < lr_priority r then WD_WAIT else WD_DIE)"
  using assms wait_die_read_iff [of rs p] by (cases t) (auto simp: wait_die_def wait_die_write_iff)

text \<open>A new identifier is answered, or waits at the end of the queue.\<close>

lemma ids_ok_new:
  assumes "ids_ok s" "al_next s' = al_next s + 1"
    "(al_requests s' = al_requests s @ [r] \<and> lr_id r = al_next s \<and>
        (lr_status r = REQ_LOCK \<and> al_calls s' = al_calls s @ [YesCall (al_next s)] \<or> lr_status r = REQ_WAIT \<and> al_calls s' = al_calls s)) \<or>
     (al_requests s' = al_requests s \<and> al_calls s' = al_calls s @ [NoCall (al_next s)])"
  shows "ids_ok s'"
proof -
  have n: "al_next s \<notin> lr_id ` set (al_requests s)" using assms(1) by (auto simp: ids_ok_def)
  then have "al_next s \<notin> waiting_ids (al_requests s)" using waiting_ids_subset [of "al_requests s"] by blast
  with n show ?thesis using assms unfolding ids_ok_def by (elim disjE conjE) (auto simp: less_Suc_eq)
qed

lemma wd_inv_new:
  assumes "wd_inv s" "ids_ok s'" "al_done s' = al_done s" "map req_core (al_requests s') = map req_core (al_requests s @ [new_req (al_next s) p t])"
    "n_r_in_queue s' = n_r_in_queue s + (if t = RLOCK then 1 else 0)" "n_w_in_queue s' = n_w_in_queue s + (if t = WLOCK then 1 else 0)"
    "lock_ok s' l w" "settled s' w" "\<forall>r\<in>set (al_requests s). wd_before (req_core r) (req_core (new_req (al_next s) p t))"
  shows "wd_inv s'"
proof -
  have "length (filter (\<lambda>r. lr_type r = u) (al_requests s')) = length (filter (\<lambda>r. lr_type r = u) (al_requests s)) + (if t = u then 1 else 0)" for u
    using counts_core [OF assms(4), of u] by (simp add: new_req_def)
  moreover have "sorted_wrt wd_before (map req_core (al_requests s'))"
    unfolding assms(4) using assms(1,9) by (auto simp: wd_inv_def sorted_wrt_append)
  moreover have "alock_inv s'" using assms(1,2,3,7,8) by (auto simp: wd_inv_def alock_inv_def)
  ultimately show ?thesis using assms(1,5,6) by (simp add: wd_inv_def)
qed

text \<open>The three outcomes of \<^verbatim>\<open>vlock\<close>: a free lock, a further reader, and the queue.\<close>

lemma wd_vlock_free:
  assumes "wd_inv s" "al_status s = FREE"
  shows "\<exists>s'. wd_vlock t p s = Some s' \<and> wd_inv s'"
proof -
  let ?r = "new_req (al_next s) p t"
  let ?s' = "(count_in_queue t 1 (s\<lparr>al_next := al_next s + 1\<rparr>))\<lparr>al_status := (case t of RLOCK \<Rightarrow> RLOCKED | WLOCK \<Rightarrow> WLOCKED),
    al_n_rlock := (case t of RLOCK \<Rightarrow> 1 | WLOCK \<Rightarrow> 0), al_calls := al_calls s @ [YesCall (al_next s)], al_requests := [lock_it ?r]\<rparr>"
  have i: "ids_ok s" "\<not> al_done s" using assms(1) by (auto simp: wd_inv_def alock_inv_def)
  have e: "al_requests s = []" "al_n_rlock s = 0" using assms by (auto simp: wd_inv_def alock_inv_def lock_ok_def settled_def)
  have "wd_vlock t p s = Some ?s'"
    using assms(2) e i(2) by (cases t) (auto simp: wd_vlock_def Let_def read_acquire_def write_acquire_def new_req_def intro!: wd_lock.equality)
  moreover have "ids_ok ?s'" by (rule ids_ok_new [OF i(1), of _ "lock_it ?r"]) (auto simp: e new_req_def)
  moreover have "lock_ok ?s' [lock_it ?r] []" by (cases t) (simp_all add: lock_ok_def new_req_def)
  moreover have "settled ?s' []" by (simp add: settled_def)
  ultimately show ?thesis using wd_inv_new [OF assms(1), of ?s' p t "[lock_it ?r]" "[]"] by (simp add: e)
qed

lemma wd_vlock_shared:
  assumes "wd_inv s" "al_status s = RLOCKED" "n_w_in_queue s = 0"
  shows "\<exists>s'. wd_vlock RLOCK p s = Some s' \<and> wd_inv s'"
proof -
  let ?r = "new_req (al_next s) p RLOCK"
  let ?s' = "(count_in_queue RLOCK 1 (s\<lparr>al_next := al_next s + 1\<rparr>))\<lparr>al_n_rlock := al_n_rlock s + 1, al_calls := al_calls s @ [YesCall (al_next s)],
    al_requests := al_requests s @ [lock_it ?r]\<rparr>"
  have i: "ids_ok s" "\<not> al_done s" using assms(1) by (auto simp: wd_inv_def alock_inv_def)
  obtain locked waiting where l: "lock_ok s locked waiting" "settled s waiting" using assms(1) by (auto simp: wd_inv_def alock_inv_def)
  have L: "locked \<noteq> []" "\<forall>r\<in>set locked. is_read r" "al_n_rlock s = int (length locked)" using l(1) assms(2) by (auto simp: lock_ok_def)
  have r: "\<forall>r\<in>set (al_requests s). is_read r" using assms(1,3) by (auto simp: wd_inv_def filter_empty_conv)
  then have "waiting = []" using l assms(2) by (cases waiting) (auto simp: lock_ok_def settled_def)
  have "wd_vlock RLOCK p s = Some ?s'" using assms(2,3) L i(2) by (simp add: wd_vlock_def Let_def read_acquire_def new_req_def)
  moreover have "ids_ok ?s'" by (rule ids_ok_new [OF i(1), of _ "lock_it ?r"]) (auto simp: new_req_def)
  moreover have "lock_ok ?s' (locked @ [lock_it ?r]) []" using l(1) \<open>waiting = []\<close> assms(2) L by (auto simp: lock_ok_def new_req_def)
  moreover have "\<forall>r\<in>set (al_requests s). wd_before (req_core r) (req_core ?r)" using r by (auto simp: wd_before_def new_req_def)
  moreover have "settled ?s' []" by (simp add: settled_def)
  ultimately show ?thesis using wd_inv_new [OF assms(1), of ?s' p RLOCK "locked @ [lock_it ?r]" "[]"] by simp
qed

lemma wd_vlock_queue:
  assumes "wd_inv s" "al_status s \<noteq> FREE" "\<not> (al_status s = RLOCKED \<and> t = RLOCK \<and> n_w_in_queue s = 0)"
  shows "\<exists>s'. wd_vlock t p s = Some s' \<and> wd_inv s'"
proof -
  let ?i = "al_next s" and ?r = "new_req (al_next s) p t" and ?s1 = "s\<lparr>al_next := al_next s + 1\<rparr>"
  have i: "ids_ok s" "\<not> al_done s" using assms(1) by (auto simp: wd_inv_def alock_inv_def)
  obtain locked waiting where l: "lock_ok s locked waiting" "settled s waiting" using assms(1) by (auto simp: wd_inv_def alock_inv_def)
  have ex: "\<exists>r\<in>set (al_requests s). lr_type r = WLOCK" if "t = RLOCK"
    using assms that l(1) by (cases "al_status s") (auto simp: lock_ok_def wd_inv_def filter_empty_conv)
  let ?ok = "\<forall>r\<in>set (al_requests s). (lr_type r = WLOCK \<or> t = WLOCK) \<longrightarrow> sint p < lr_priority r"
  have wd: "wait_die t (sint p) (al_requests s) = Some (if ?ok then WD_WAIT else WD_DIE)"
    by (rule wait_die_iff) (use assms(1) ex in \<open>auto simp: wd_inv_def\<close>)
  show ?thesis
  proof (cases ?ok)
    case True
    let ?s' = "(count_in_queue t 1 ?s1)\<lparr>al_requests := al_requests s @ [?r]\<rparr>"
    have "wd_vlock t p s = Some ?s'" using assms(2,3) wd True i(2) by (auto simp: wd_vlock_def Let_def)
    moreover have "ids_ok ?s'" by (rule ids_ok_new [OF i(1), of _ ?r]) (auto simp: new_req_def)
    moreover have "lock_ok ?s' locked (waiting @ [?r])" using l(1) by (auto simp: lock_ok_def new_req_def cong: lock_status.case_cong)
    moreover have "waiting = [] \<and> al_status s = RLOCKED \<Longrightarrow> t = WLOCK" using l(1) ex by (cases t) (auto simp: lock_ok_def)
    then have "settled ?s' (waiting @ [?r])"
      using l(2) assms(2) by (cases "al_status s"; cases waiting) (auto simp: settled_def new_req_def)
    moreover have "\<forall>r\<in>set (al_requests s). wd_before (req_core r) (req_core ?r)" using True by (auto simp: wd_before_def new_req_def)
    ultimately show ?thesis using wd_inv_new [OF assms(1), of ?s' p t locked "waiting @ [?r]"] by simp
  next
    case False
    let ?s' = "?s1\<lparr>al_calls := al_calls s @ [NoCall ?i]\<rparr>"
    have "wd_vlock t p s = Some ?s'" using assms(2,3) wd False i(2) by (auto simp: wd_vlock_def Let_def)
    moreover have "ids_ok ?s'" by (rule ids_ok_new [OF i(1)]) auto
    moreover have "lock_ok ?s' locked waiting" "settled ?s' waiting" using l by (simp_all add: lock_ok_def settled_def cong: lock_status.case_cong)
    ultimately show ?thesis using assms(1) i(2) by (auto simp: wd_inv_def alock_inv_def)
  qed
qed

lemma wd_vlock_inv: "wd_inv s \<Longrightarrow> \<exists>s'. wd_vlock t p s = Some s' \<and> wd_inv s'"
  using wd_vlock_free wd_vlock_shared wd_vlock_queue by (cases "al_status s = FREE") (blast, metis)

section \<open>Wound-wait\<close>

text \<open>A queue between two steps: \<open>k\<close> is the next identifier not yet given to a request.\<close>

definition queue_ok :: "nat \<Rightarrow> lock_req list \<Rightarrow> alock \<Rightarrow> bool" where
  "queue_ok k q s \<longleftrightarrow> ids_ok (s\<lparr>al_next := k, al_requests := q\<rparr>) \<and> (\<exists>locked waiting. lock_ok (s\<lparr>al_requests := q\<rparr>) locked waiting)"

lemma ids_ok_wound_call [simp]: "ids_ok (s\<lparr>al_calls := cs @ [WoundCall i]\<rparr>) \<longleftrightarrow> ids_ok (s\<lparr>al_calls := cs\<rparr>)"
  by (auto simp: ids_ok_def)

lemma queue_ok_upd [simp]: "queue_ok k q (s\<lparr>al_requests := q'\<rparr>) \<longleftrightarrow> queue_ok k q s"
  by (simp add: queue_ok_def ids_ok_def)

lemma wound_ok:
  assumes "queue_ok k (K @ r # R) s" "lr_status r = REQ_WAIT \<Longrightarrow> w (lr_id r) = 0"
  shows "\<exists>s1. wound w r s = Some (w (lr_id r), s1) \<and> queue_ok k (if w (lr_id r) = 0 then K @ R else K @ r # R) s1 \<and>
    al_next s1 = al_next s \<and> al_done s1 = al_done s"
proof -
  let ?q = "K @ r # R"
  obtain l wt where l: "lock_ok (s\<lparr>al_requests := ?q\<rparr>) l wt" and ids: "ids_ok (s\<lparr>al_next := k, al_requests := ?q\<rparr>)"
    using assms(1) by (auto simp: queue_ok_def)
  have L: "l @ wt = K @ r # R" "\<forall>r\<in>set l. lr_status r = REQ_LOCK" "\<forall>r\<in>set wt. lr_status r = REQ_WAIT" using l by (auto simp: lock_ok_def)
  have rem: "ids_ok (s\<lparr>al_next := k, al_requests := K @ R, al_status := st, al_n_rlock := m,
      al_calls := al_calls s @ WoundCall (lr_id r) # (if lr_status r = REQ_WAIT then [NoCall (lr_id r)] else [])\<rparr>)" for st m
  proof (rule ids_ok_remove [where K = K and it = r and R = R])
    show "ids_ok (s\<lparr>al_next := k, al_requests := K @ r # R, al_status := st, al_n_rlock := m, al_calls := al_calls s @ [WoundCall (lr_id r)]\<rparr>)"
      using ids by (simp add: ids_ok_def)
  qed simp_all
  consider "lr_status r = REQ_WAIT" | "lr_status r = REQ_LOCK" "w (lr_id r) \<noteq> 0" | "lr_status r = REQ_LOCK" "w (lr_id r) = 0" by force
  then show ?thesis
  proof cases
    case 1
    obtain w1 where w1: "wt = w1 @ r # R" "K = l @ w1" using split_waiting [OF L(1,2) 1] by blast
    let ?s = "s\<lparr>al_calls := al_calls s @ [WoundCall (lr_id r), NoCall (lr_id r)]\<rparr>"
    have "lock_ok (?s\<lparr>al_requests := K @ R\<rparr>) l (w1 @ R)" using l w1 by (auto simp: lock_ok_def split: lock_status.splits)
    moreover have "ids_ok (?s\<lparr>al_next := k, al_requests := K @ R\<rparr>)" using rem [where st = "al_status s" and m = "al_n_rlock s"] 1 by (simp add: ids_ok_def)
    ultimately show ?thesis using 1 assms(2) by (auto simp: wound_def queue_ok_def)
  next
    case 2
    then show ?thesis using l ids by (auto simp: wound_def queue_ok_def ids_ok_def lock_ok_def cong: lock_status.case_cong)
  next
    case 3
    obtain l2 where l2: "l = K @ r # l2" "R = l2 @ wt" using split_locked [OF L(1,3) 3(1)] by blast
    have rl: "r \<in> set l" using l2(1) by simp
    show ?thesis
    proof (cases "lr_type r")
      case RLOCK
      have st: "al_status s = RLOCKED" "\<forall>r\<in>set l. is_read r" "al_n_rlock s = int (length l)"
        using l rl RLOCK by (auto simp: lock_ok_def split: lock_status.splits)
      let ?n = "al_n_rlock s - 1"
      let ?s = "s\<lparr>al_calls := al_calls s @ [WoundCall (lr_id r)], al_n_rlock := ?n, al_status := (if ?n = 0 then FREE else RLOCKED)\<rparr>"
      have "wound w r s = Some (0, ?s)" using 3 RLOCK st(1) by (simp add: wound_def Let_def)
      moreover have "lock_ok (?s\<lparr>al_requests := K @ R\<rparr>) (K @ l2) wt"
      proof -
        have "?n = int (length K + length l2)" "?n = 0 \<longleftrightarrow> K = [] \<and> l2 = []" using st(3) l2(1) by (cases K; cases l2; simp)+
        then show ?thesis using st(1,2) l2 L(2,3) by (auto simp: lock_ok_def)
      qed
      moreover have "ids_ok (?s\<lparr>al_next := k, al_requests := K @ R\<rparr>)" using rem [where st = "if ?n = 0 then FREE else RLOCKED" and m = ?n] 3 by (simp add: ids_ok_def)
      ultimately have "wound w r s = Some (0, ?s)" "queue_ok k (K @ R) ?s" unfolding queue_ok_def by blast+
      then show ?thesis using 3 by (intro exI [of _ ?s]) simp
    next
      case WLOCK
      have st: "al_status s = WLOCKED" "l = [r]" "al_n_rlock s = 0"
        using l rl WLOCK by (auto simp: lock_ok_def split: lock_status.splits)
      let ?s = "s\<lparr>al_calls := al_calls s @ [WoundCall (lr_id r)], al_status := FREE\<rparr>"
      have "wound w r s = Some (0, ?s)" using 3 WLOCK st(1) by (simp add: wound_def Let_def)
      moreover have "lock_ok (?s\<lparr>al_requests := K @ R\<rparr>) [] wt"
        using st l2 L(3) by (auto simp: lock_ok_def append_eq_Cons_conv)
      moreover have "ids_ok (?s\<lparr>al_next := k, al_requests := K @ R\<rparr>)" using rem [where st = FREE and m = "al_n_rlock s"] 3 by (simp add: ids_ok_def)
      ultimately show ?thesis using 3 by (auto simp: queue_ok_def)
    qed
  qed
qed

lemma wound_die_write_ok:
  assumes "queue_ok k (rev todo @ kept) s" "\<forall>r\<in>set todo. lr_status r = REQ_WAIT \<longrightarrow> w (lr_id r) = 0"
  shows "\<exists>s1. wound_die_write w p todo kept s = Some (filter (\<lambda>r. lr_priority r < p \<or> w (lr_id r) \<noteq> 0) (rev todo) @ kept, s1) \<and>
    queue_ok k (filter (\<lambda>r. lr_priority r < p \<or> w (lr_id r) \<noteq> 0) (rev todo) @ kept) s1 \<and> al_next s1 = al_next s \<and> al_done s1 = al_done s"
  using assms
proof (induction todo arbitrary: kept s)
  case (Cons r rs)
  show ?case
  proof (cases "p \<le> lr_priority r")
    case True
    obtain s1 where s1: "wound w r s = Some (w (lr_id r), s1)" "queue_ok k (if w (lr_id r) = 0 then rev rs @ kept else rev rs @ r # kept) s1"
      "al_next s1 = al_next s" "al_done s1 = al_done s"
      using wound_ok [of k "rev rs" r kept s w] Cons.prems by auto
    then show ?thesis using Cons.IH [of kept s1] Cons.IH [of "r # kept" s1] Cons.prems(2) True by (cases "w (lr_id r) = 0") auto
  next
    case False
    then show ?thesis using Cons.IH [of "r # kept" s] Cons.prems by auto
  qed
qed simp

lemma wound_die_read_ok:
  assumes "queue_ok k (rev todo @ kept) s" "\<forall>r\<in>set todo. lr_status r = REQ_WAIT \<longrightarrow> w (lr_id r) = 0" "\<forall>r\<in>set todo. p \<le> lr_priority r"
  shows "\<exists>s1. wound_die_read w p todo kept s = Some (filter (\<lambda>r. is_read r \<or> w (lr_id r) \<noteq> 0) (rev todo) @ kept, s1) \<and>
    queue_ok k (filter (\<lambda>r. is_read r \<or> w (lr_id r) \<noteq> 0) (rev todo) @ kept) s1 \<and> al_next s1 = al_next s \<and> al_done s1 = al_done s"
  using assms
proof (induction todo arbitrary: kept s)
  case Nil
  then show ?case by (simp add: wound_die_read.simps)
next
  case (Cons r rs)
  show ?case
  proof (cases "lr_type r")
    case WLOCK
    obtain s1 where s1: "wound w r s = Some (w (lr_id r), s1)" "queue_ok k (if w (lr_id r) = 0 then rev rs @ kept else rev rs @ r # kept) s1"
      "al_next s1 = al_next s" "al_done s1 = al_done s"
      using wound_ok [of k "rev rs" r kept s w] Cons.prems by auto
    then show ?thesis using Cons.IH [of kept s1] Cons.IH [of "r # kept" s1] Cons.prems(2,3) WLOCK
      by (subst wound_die_read.simps) (cases "w (lr_id r) = 0"; auto)
  next
    case RLOCK
    then show ?thesis using Cons.IH [of "r # kept" s] Cons.prems by (subst wound_die_read.simps) auto
  qed
qed

text \<open>The loop for a read returns only if no request has a smaller value.\<close>

lemma wound_die_read_returns:
  assumes "wound_die_read w p todo kept s = Some y"
  shows "\<forall>r\<in>set todo. p \<le> lr_priority r"
  using wound_die_read.raw_induct [OF _ assms, where P = "\<lambda>w p todo kept s y. \<forall>r\<in>set todo. p \<le> lr_priority r"]
  by (fastforce simp: bind_eq_Some_conv split: list.splits if_splits)

lemma grant_front_ok:
  assumes "ids_ok s" "\<not> al_done s" "lock_ok s locked waiting" "al_requests s \<noteq> []"
  shows "\<exists>s'. grant_front s = Some s' \<and> alock_inv s'"
proof -
  obtain front rest where fr: "al_requests s = front # rest" using assms(4) by (cases "al_requests s") auto
  have L: "al_requests s = locked @ waiting" "\<forall>r\<in>set locked. lr_status r = REQ_LOCK" "\<forall>r\<in>set waiting. lr_status r = REQ_WAIT"
    using assms(3) by (auto simp: lock_ok_def)
  show ?thesis
  proof (cases "al_status s")
    case FREE
    have "locked = []" "al_n_rlock s = 0" using assms(3) FREE by (auto simp: lock_ok_def)
    then have "al_requests s = waiting" "waiting = front # rest" using L(1) fr by auto
    then show ?thesis using grant_next_ok [OF assms(1,2) _ L(3) \<open>al_n_rlock s = 0\<close>] FREE fr by (cases "lr_type front") (auto simp: grant_front_def)
  next
    case WLOCKED
    then obtain r where r: "locked = [r]" "lr_type r = WLOCK" using assms(3) by (auto simp: lock_ok_def)
    then have "grant_front s = Some s" using WLOCKED L by (simp add: grant_front_def)
    moreover have "settled s waiting" using WLOCKED by (simp add: settled_def)
    ultimately show ?thesis using assms(1,2,3) by (auto simp: alock_inv_def)
  next
    case RLOCKED
    have lk: "locked \<noteq> []" "\<forall>r\<in>set locked. is_read r" "al_n_rlock s = int (length locked)" using assms(3) RLOCKED by (auto simp: lock_ok_def)
    obtain r l where rl: "locked = r # l" using lk(1) by (cases locked) auto
    have w: "takeWhile (\<lambda>r. lr_status r = REQ_LOCK) waiting = []" "dropWhile (\<lambda>r. lr_status r = REQ_LOCK) waiting = waiting"
      using L(3) by (cases waiting; auto)+
    have lr: "takeWhile (\<lambda>r. lr_status r = REQ_LOCK) (locked @ waiting) = locked" "dropWhile (\<lambda>r. lr_status r = REQ_LOCK) (locked @ waiting) = waiting"
      using L(2) w by (simp_all add: takeWhile_append2 dropWhile_append2)
    have rd: "takeWhile (\<lambda>r. lr_status r = REQ_WAIT \<and> is_read r) waiting = takeWhile is_read waiting"
      "dropWhile (\<lambda>r. lr_status r = REQ_WAIT \<and> is_read r) waiting = dropWhile is_read waiting"
      using L(3) by (auto intro: takeWhile_cong dropWhile_cong)
    have stop: "case dropWhile is_read waiting of [] \<Rightarrow> True | r # _ \<Rightarrow> lr_status r = REQ_WAIT"
    proof (cases "dropWhile is_read waiting")
      case Nil
      show ?thesis unfolding Nil by simp
    next
      case (Cons r rs)
      then have "r \<in> set waiting" by (metis list.set_intros(1) set_dropWhileD)
      then show ?thesis using Cons L(3) by simp
    qed
    have "grant_front s = grant_reads locked waiting s"
      unfolding grant_front_def L(1) using RLOCKED rl lk(2) L(2) lr [unfolded rl] rd stop
      by (simp add: grant_reads_def Let_def)
    moreover have "\<exists>s'. grant_reads locked waiting s = Some s' \<and> alock_inv s'"
    proof -
      let ?reads = "takeWhile is_read waiting" and ?later = "dropWhile is_read waiting"
      let ?s = "s\<lparr>al_status := RLOCKED, al_n_rlock := int (length (locked @ ?reads)),
        al_calls := al_calls s @ map (\<lambda>r. YesCall (lr_id r)) ?reads, al_requests := locked @ map lock_it ?reads @ ?later\<rparr>"
      have "grant_reads locked waiting s = Some ?s" by (rule grant_reads_eq) (use L lk RLOCKED in auto)
      moreover have "lock_ok ?s (locked @ map lock_it ?reads) ?later \<and> settled ?s ?later" by (rule grant_reads_ok) (use L lk in auto)
      moreover have "ids_ok ?s" by (rule ids_ok_grant [OF assms(1), where K = locked and G = ?reads and R = ?later])
        (use L in \<open>auto dest: set_takeWhileD\<close>)
      ultimately show ?thesis using assms(2) unfolding alock_inv_def by (intro exI [of _ ?s]) auto
    qed
    ultimately show ?thesis by simp
  qed
qed

lemma wound_die_ok:
  assumes "queue_ok k (al_requests s) s" "\<forall>r\<in>set (al_requests s). lr_status r = REQ_WAIT \<longrightarrow> w (lr_id r) = 0"
    "t = RLOCK \<Longrightarrow> \<forall>r\<in>set (al_requests s). p \<le> lr_priority r"
  shows "\<exists>s1. wound_die w t p s = Some s1 \<and> queue_ok k (al_requests s1) s1 \<and> al_next s1 = al_next s \<and> al_done s1 = al_done s \<and>
    al_requests s1 = filter (\<lambda>r. (if t = RLOCK then is_read r else lr_priority r < p) \<or> w (lr_id r) \<noteq> 0) (al_requests s)"
proof -
  let ?q = "filter (\<lambda>r. (if t = RLOCK then is_read r else lr_priority r < p) \<or> w (lr_id r) \<noteq> 0) (al_requests s)"
  obtain s1 where s1: "(case t of WLOCK \<Rightarrow> wound_die_write w p (rev (al_requests s)) [] s | RLOCK \<Rightarrow> wound_die_read w p (rev (al_requests s)) [] s) = Some (?q, s1)"
    "queue_ok k ?q s1" "al_next s1 = al_next s" "al_done s1 = al_done s"
  proof (cases t)
    case RLOCK
    then show ?thesis using wound_die_read_ok [of k "rev (al_requests s)" "[]" s w p] assms that by auto
  next
    case WLOCK
    then show ?thesis using wound_die_write_ok [of k "rev (al_requests s)" "[]" s w p] assms(1,2) that by auto
  qed
  then show ?thesis unfolding wound_die_def by (intro exI [of _ "s1\<lparr>al_requests := ?q\<rparr>"]) simp
qed

lemma wound_vlock_inv:
  assumes "alock_inv s" "\<forall>r\<in>set (al_requests s). lr_status r = REQ_WAIT \<longrightarrow> w (lr_id r) = 0"
    "t = RLOCK \<Longrightarrow> \<forall>r\<in>set (al_requests s). sint p \<le> lr_priority r"
  shows "\<exists>s'. wound_vlock w t p s = Some s' \<and> alock_inv s'"
proof -
  let ?i = "al_next s" and ?s1 = "s\<lparr>al_next := al_next s + 1\<rparr>" and ?r = "new_req (al_next s) p t"
  obtain locked waiting where l: "lock_ok s locked waiting" and ids: "ids_ok s" "\<not> al_done s" using assms(1) by (auto simp: alock_inv_def)
  have "queue_ok ?i (al_requests ?s1) ?s1" using l ids(1) by (auto simp: queue_ok_def lock_ok_def ids_ok_def cong: lock_status.case_cong)
  then obtain s2 where s2: "wound_die w t (sint p) ?s1 = Some s2" "queue_ok ?i (al_requests s2) s2" "al_next s2 = ?i + 1" "al_done s2 = al_done s"
    using wound_die_ok [of ?i ?s1 w t "sint p"] assms(2,3) by auto
  let ?s3 = "s2\<lparr>al_requests := al_requests s2 @ [?r]\<rparr>"
  have "ids_ok (s2\<lparr>al_next := ?i, al_requests := al_requests s2\<rparr>)" using s2(2) by (simp add: queue_ok_def)
  then have "ids_ok ?s3" by (rule ids_ok_new [where r = ?r]) (auto simp: s2(3) new_req_def)
  moreover obtain l2 w2 where "lock_ok (s2\<lparr>al_requests := al_requests s2\<rparr>) l2 w2" using s2(2) by (auto simp: queue_ok_def)
  then have "lock_ok ?s3 l2 (w2 @ [?r])" by (auto simp: lock_ok_def new_req_def cong: lock_status.case_cong)
  ultimately obtain s' where "grant_front ?s3 = Some s'" "alock_inv s'" using grant_front_ok [of ?s3 l2 "w2 @ [?r]"] s2(4) ids(2) by auto
  then show ?thesis using s2(1) ids(2) by (simp add: wound_vlock_def Let_def)
qed

end
