(* ===== verification/ALockTimeout.thy ===== *)
theory ALockTimeout
  imports ALockQueue
begin

text \<open>The invariant of \<^verbatim>\<open>TimeoutALock\<close> with its alarms, kept by every operation.\<close>

section \<open>Time-outs\<close>

abbreviation tr_waiting :: "timeout_req \<Rightarrow> bool" where
  "tr_waiting r \<equiv> tr_status r = TR_WAIT"

abbreviation tr_locked :: "timeout_req \<Rightarrow> bool" where
  "tr_locked r \<equiv> tr_status r = TR_LOCK"

definition alarms_of :: "(nat \<times> nat \<times> nat) list \<Rightarrow> (nat \<times> nat) set" where
  "alarms_of aw = (\<lambda>(k, _, i). (k, i)) ` set aw"

text \<open>Requests, alarms and answers; and the state of the lock.\<close>

definition timeout_core :: "timeout_lock \<Rightarrow> bool" where
  "timeout_core s \<longleftrightarrow>
     0 < tl_next s \<and> distinct (map tr_id (tl_requests s)) \<and>
     (\<forall>r\<in>set (tl_requests s). 0 < tr_id r \<and> tr_id r < tl_next s \<and> tr_status r \<in> {TR_WAIT, TR_LOCK, TR_TIMEOUT}) \<and>
     distinct (map fst (am_waiting (tl_alarm s))) \<and> (\<forall>x\<in>set (am_waiting (tl_alarm s)). fst x < am_next (tl_alarm s)) \<and>
     alarms_of (am_waiting (tl_alarm s)) = (\<lambda>r. (tr_alarm r, tr_id r)) ` {r \<in> set (tl_requests s). tr_waiting r} \<and>
     (\<forall>i. answers i (tl_calls s) \<le> 1) \<and> (\<forall>i. tl_next s \<le> i \<longrightarrow> answers i (tl_calls s) = 0) \<and>
     (\<forall>r\<in>set (tl_requests s). tr_waiting r \<longrightarrow> answers (tr_id r) (tl_calls s) = 0) \<and>
     (\<forall>r\<in>set (tl_requests s). tr_locked r \<longrightarrow> YesCall (tr_id r) \<in> set (tl_calls s))"

definition timeout_state :: "timeout_lock \<Rightarrow> bool" where
  "timeout_state s \<longleftrightarrow>
     (case tl_status s of
        FREE \<Rightarrow> tl_n_rlock s = 0 \<and> (\<forall>r\<in>set (tl_requests s). \<not> tr_locked r \<and> \<not> tr_waiting r)
      | WLOCKED \<Rightarrow> tl_n_rlock s = 0 \<and> (\<exists>r. filter tr_locked (tl_requests s) = [r] \<and> tr_type r = WLOCK)
      | RLOCKED \<Rightarrow> tl_n_rlock s = int (length (filter tr_locked (tl_requests s))) \<and> 0 < tl_n_rlock s \<and>
          (\<forall>r\<in>set (tl_requests s). tr_locked r \<longrightarrow> tr_type r = RLOCK))"

definition timeout_inv :: "timeout_lock \<Rightarrow> bool" where
  "timeout_inv s \<longleftrightarrow> timeout_core s \<and> timeout_state s"

lemma not_read_type [simp]: "t \<noteq> RLOCK \<longleftrightarrow> t = WLOCK" "t \<noteq> WLOCK \<longleftrightarrow> t = RLOCK"
  by (cases t; simp)+

lemma timeout_coreD:
  assumes "timeout_core s"
  shows "0 < tl_next s" "distinct (map tr_id (tl_requests s))"
    "\<And>r. r \<in> set (tl_requests s) \<Longrightarrow> 0 < tr_id r \<and> tr_id r < tl_next s"
    "\<And>r. r \<in> set (tl_requests s) \<Longrightarrow> tr_status r \<in> {TR_WAIT, TR_LOCK, TR_TIMEOUT}"
    "distinct (map fst (am_waiting (tl_alarm s)))" "\<And>x. x \<in> set (am_waiting (tl_alarm s)) \<Longrightarrow> fst x < am_next (tl_alarm s)"
    "alarms_of (am_waiting (tl_alarm s)) = (\<lambda>r. (tr_alarm r, tr_id r)) ` {r \<in> set (tl_requests s). tr_waiting r}"
    "\<And>i. answers i (tl_calls s) \<le> 1" "\<And>i. tl_next s \<le> i \<Longrightarrow> answers i (tl_calls s) = 0"
    "\<And>r. r \<in> set (tl_requests s) \<Longrightarrow> tr_waiting r \<Longrightarrow> answers (tr_id r) (tl_calls s) = 0"
    "\<And>r. r \<in> set (tl_requests s) \<Longrightarrow> tr_locked r \<Longrightarrow> YesCall (tr_id r) \<in> set (tl_calls s)"
  using assms unfolding timeout_core_def by blast+

lemma timeout_coreI:
  assumes "0 < tl_next s" "distinct (map tr_id (tl_requests s))"
    "\<And>r. r \<in> set (tl_requests s) \<Longrightarrow> 0 < tr_id r \<and> tr_id r < tl_next s"
    "\<And>r. r \<in> set (tl_requests s) \<Longrightarrow> tr_status r \<in> {TR_WAIT, TR_LOCK, TR_TIMEOUT}"
    "distinct (map fst (am_waiting (tl_alarm s)))" "\<And>x. x \<in> set (am_waiting (tl_alarm s)) \<Longrightarrow> fst x < am_next (tl_alarm s)"
    "alarms_of (am_waiting (tl_alarm s)) = (\<lambda>r. (tr_alarm r, tr_id r)) ` {r \<in> set (tl_requests s). tr_waiting r}"
    "\<And>i. answers i (tl_calls s) \<le> 1" "\<And>i. tl_next s \<le> i \<Longrightarrow> answers i (tl_calls s) = 0"
    "\<And>r. r \<in> set (tl_requests s) \<Longrightarrow> tr_waiting r \<Longrightarrow> answers (tr_id r) (tl_calls s) = 0"
    "\<And>r. r \<in> set (tl_requests s) \<Longrightarrow> tr_locked r \<Longrightarrow> YesCall (tr_id r) \<in> set (tl_calls s)"
  shows "timeout_core s"
  using assms unfolding timeout_core_def by blast

text \<open>Removing the alarms of some waiting requests leaves those of the others.\<close>

lemma alarms_remove:
  assumes "distinct (map fst aw)" "alarms_of aw = (\<lambda>r. (tr_alarm r, tr_id r)) ` W" "inj_on tr_id W" "G \<subseteq> W"
  shows "alarms_of (filter (\<lambda>x. fst x \<notin> tr_alarm ` G) aw) = (\<lambda>r. (tr_alarm r, tr_id r)) ` (W - G)"
proof -
  have one: "i = j" if h: "(k, i) \<in> alarms_of aw" "(k, j) \<in> alarms_of aw" for k i j
  proof -
    obtain a b where ab: "(k, a, i) \<in> set aw" "(k, b, j) \<in> set aw" using h by (auto simp: alarms_of_def)
    then have "(k, a, i) = (k, b, j)" using assms(1) by (auto simp: distinct_map dest!: inj_onD [of fst "set aw" "(k, a, i)" "(k, b, j)"])
    then show ?thesis by simp
  qed
  have eq: "r = q" if h: "r \<in> W" "q \<in> W" "tr_alarm r = tr_alarm q" for r q
  proof -
    have "(tr_alarm r, tr_id r) \<in> alarms_of aw" using h(1) unfolding assms(2) by blast
    moreover have "(tr_alarm r, tr_id q) \<in> alarms_of aw" using h(2) unfolding assms(2) h(3) by blast
    ultimately have "tr_id r = tr_id q" by (rule one)
    then show ?thesis using h(1,2) assms(3) by (simp add: inj_on_def)
  qed
  have "alarms_of (filter (\<lambda>x. fst x \<notin> tr_alarm ` G) aw) = {x \<in> alarms_of aw. fst x \<notin> tr_alarm ` G}"
    by (force simp: alarms_of_def)
  also have "\<dots> = (\<lambda>r. (tr_alarm r, tr_id r)) ` (W - G)"
  proof -
    have "tr_alarm r \<in> tr_alarm ` G \<longleftrightarrow> r \<in> G" if "r \<in> W" for r using eq [of r] that assms(4) by blast
    then have "{r \<in> W. tr_alarm r \<notin> tr_alarm ` G} = W - G" by blast
    moreover have "{x \<in> (\<lambda>r. (tr_alarm r, tr_id r)) ` W. fst x \<notin> A} = (\<lambda>r. (tr_alarm r, tr_id r)) ` {r \<in> W. tr_alarm r \<notin> A}" for A by auto
    ultimately show ?thesis unfolding assms(2) by simp
  qed
  finally show ?thesis .
qed

lemma inj_on_id: "distinct (map tr_id rs) \<Longrightarrow> W \<subseteq> set rs \<Longrightarrow> inj_on tr_id W"
  by (auto simp: distinct_map intro: inj_on_subset)

section \<open>Granting\<close>

abbreviation lock_tr :: "timeout_req \<Rightarrow> timeout_req" where
  "lock_tr r \<equiv> r\<lparr>tr_status := TR_LOCK\<rparr>"

lemma lock_more_write: "tl_status s = WLOCKED \<Longrightarrow> lock_more rs s = ([], rs, s)"
  by (induction rs) auto

lemma lock_more_read:
  assumes "tl_status s = RLOCKED"
  shows "lock_more rs s = (map tr_id (filter (\<lambda>r. tr_type r = RLOCK \<and> tr_waiting r) rs),
    map (\<lambda>r. if tr_type r = RLOCK \<and> tr_waiting r then lock_tr r else r) rs,
    s\<lparr>tl_n_rlock := tl_n_rlock s + int (length (filter (\<lambda>r. tr_type r = RLOCK \<and> tr_waiting r) rs)),
      tl_alarm := (tl_alarm s)\<lparr>am_waiting := filter (\<lambda>x. fst x \<notin> tr_alarm ` set (filter (\<lambda>r. tr_type r = RLOCK \<and> tr_waiting r) rs)) (am_waiting (tl_alarm s))\<rparr>\<rparr>)"
  using assms
proof (induction rs arbitrary: s)
  case (Cons r rs)
  show ?case
  proof (cases "tr_type r = RLOCK \<and> tr_waiting r")
    case True
    have "tl_status (grant_timeout r s) = RLOCKED" using True by (simp add: grant_timeout_def)
    from Cons.IH [OF this] show ?thesis using True Cons.prems
      by (auto simp: grant_timeout_def alarm_remove_def intro!: timeout_lock.equality alarm.equality filter_cong)
  next
    case False
    then show ?thesis using Cons.IH [OF Cons.prems] Cons.prems by (auto intro!: timeout_lock.equality alarm.equality)
  qed
qed simp

text \<open>What \<^verbatim>\<open>lock_all\<close> grants: nothing if no request waits, else the first one, and with a read all waiting reads.\<close>

lemma lock_first_spec:
  assumes "tl_n_rlock s = 0" "tl_status s = FREE" "distinct (map tr_id rs)"
  shows "\<exists>P s'. lock_first rs s = (map tr_id (filter P rs), map (\<lambda>r. if P r then lock_tr r else r) rs, s') \<and> (\<forall>r. P r \<longrightarrow> tr_waiting r) \<and>
    s' = s\<lparr>tl_status := tl_status s', tl_n_rlock := tl_n_rlock s', tl_alarm := (tl_alarm s)\<lparr>am_waiting :=
      filter (\<lambda>x. fst x \<notin> tr_alarm ` {r \<in> set rs. P r}) (am_waiting (tl_alarm s))\<rparr>\<rparr> \<and>
    (case tl_status s' of
       FREE \<Rightarrow> tl_n_rlock s' = 0 \<and> (\<forall>r\<in>set rs. \<not> tr_waiting r \<and> \<not> P r)
     | WLOCKED \<Rightarrow> tl_n_rlock s' = 0 \<and> (\<exists>r. filter P rs = [r] \<and> tr_type r = WLOCK)
     | RLOCKED \<Rightarrow> tl_n_rlock s' = int (length (filter P rs)) \<and> 0 < tl_n_rlock s' \<and> (\<forall>r. P r \<longrightarrow> tr_type r = RLOCK))"
  using assms
proof (induction rs)
  case Nil
  then show ?case by (intro exI [of _ "\<lambda>_. False"] exI [of _ s]) (simp add: timeout_lock.equality)
next
  case (Cons r rs)
  show ?case
  proof (cases "tr_waiting r")
    case False
    obtain P s' where P: "lock_first rs s = (map tr_id (filter P rs), map (\<lambda>r. if P r then lock_tr r else r) rs, s')" "\<forall>r. P r \<longrightarrow> tr_waiting r"
      "s' = s\<lparr>tl_status := tl_status s', tl_n_rlock := tl_n_rlock s', tl_alarm := (tl_alarm s)\<lparr>am_waiting :=
        filter (\<lambda>x. fst x \<notin> tr_alarm ` {r \<in> set rs. P r}) (am_waiting (tl_alarm s))\<rparr>\<rparr>"
      "case tl_status s' of
         FREE \<Rightarrow> tl_n_rlock s' = 0 \<and> (\<forall>r\<in>set rs. \<not> tr_waiting r \<and> \<not> P r)
       | WLOCKED \<Rightarrow> tl_n_rlock s' = 0 \<and> (\<exists>r. filter P rs = [r] \<and> tr_type r = WLOCK)
       | RLOCKED \<Rightarrow> tl_n_rlock s' = int (length (filter P rs)) \<and> 0 < tl_n_rlock s' \<and> (\<forall>r. P r \<longrightarrow> tr_type r = RLOCK)"
      using Cons.IH Cons.prems by auto
    have n: "\<not> P r" using P(2) False by blast
    then have "{x \<in> set (r # rs). P x} = {x \<in> set rs. P x}" by auto
    then show ?thesis using P n False by (intro exI [of _ P] exI [of _ s']) (auto split: lock_status.splits)
  next
    case True
    show ?thesis
    proof (cases "tr_type r")
      case WLOCK
      have l: "lock_more rs (grant_timeout r s) = ([], rs, grant_timeout r s)" using WLOCK by (intro lock_more_write) (simp add: grant_timeout_def)
      have f: "filter (\<lambda>q. q = r) rs = []" "map (\<lambda>q. if q = r then lock_tr q else q) rs = rs"
        using Cons.prems(3) by (auto simp: filter_empty_conv intro!: map_idI)
      have "{q \<in> set (r # rs). q = r} = {r}" by auto
      then show ?thesis using True WLOCK l f Cons.prems
        by (intro exI [of _ "\<lambda>q. q = r"] exI [of _ "grant_timeout r s"]) (auto simp: grant_timeout_def alarm_remove_def intro!: timeout_lock.equality)
    next
      case RLOCK
      let ?P = "\<lambda>q. tr_type q = RLOCK \<and> tr_waiting q"
      have st: "tl_status (grant_timeout r s) = RLOCKED" using RLOCK by (simp add: grant_timeout_def)
      show ?thesis using True RLOCK Cons.prems lock_more_read [OF st, of rs]
        by (intro exI [of _ ?P] exI [of _ "snd (snd (lock_more rs (grant_timeout r s)))"])
          (auto simp: grant_timeout_def alarm_remove_def intro!: timeout_lock.equality alarm.equality filter_cong)
    qed
  qed
qed

lemma filter_granted:
  "\<forall>r\<in>set rs. \<not> tr_locked r \<Longrightarrow> filter tr_locked (map (\<lambda>r. if P r then lock_tr r else r) rs) = map lock_tr (filter P rs)"
  by (induction rs) auto

lemma answers_granted:
  "distinct (map tr_id rs) \<Longrightarrow> answers i (map YesCall (map tr_id (filter P rs))) = (if i \<in> tr_id ` {r \<in> set rs. P r} then 1 else 0)"
  by (induction rs) (auto split: if_splits)

lemma lock_all_inv:
  assumes "timeout_core s" "tl_status s = FREE" "tl_n_rlock s = 0" "\<forall>r\<in>set (tl_requests s). \<not> tr_locked r"
  shows "\<exists>is s'. timeout_lock_all s = Some (is, s') \<and> timeout_inv (s'\<lparr>tl_calls := tl_calls s' @ map YesCall is\<rparr>)"
proof -
  let ?rs = "tl_requests s"
  note D = timeout_coreD [OF assms(1)]
  obtain P s1 where P: "lock_first ?rs s = (map tr_id (filter P ?rs), map (\<lambda>r. if P r then lock_tr r else r) ?rs, s1)" "\<forall>r. P r \<longrightarrow> tr_waiting r"
    "s1 = s\<lparr>tl_status := tl_status s1, tl_n_rlock := tl_n_rlock s1, tl_alarm := (tl_alarm s)\<lparr>am_waiting :=
      filter (\<lambda>x. fst x \<notin> tr_alarm ` {r \<in> set ?rs. P r}) (am_waiting (tl_alarm s))\<rparr>\<rparr>"
    "case tl_status s1 of
       FREE \<Rightarrow> tl_n_rlock s1 = 0 \<and> (\<forall>r\<in>set ?rs. \<not> tr_waiting r \<and> \<not> P r)
     | WLOCKED \<Rightarrow> tl_n_rlock s1 = 0 \<and> (\<exists>r. filter P ?rs = [r] \<and> tr_type r = WLOCK)
     | RLOCKED \<Rightarrow> tl_n_rlock s1 = int (length (filter P ?rs)) \<and> 0 < tl_n_rlock s1 \<and> (\<forall>r. P r \<longrightarrow> tr_type r = RLOCK)"
    using lock_first_spec [OF assms(3,2) D(2)] by blast
  let ?rs' = "map (\<lambda>r. if P r then lock_tr r else r) ?rs"
  let ?s = "s1\<lparr>tl_requests := ?rs', tl_calls := tl_calls s1 @ map YesCall (map tr_id (filter P ?rs))\<rparr>"
  have f: "tl_next s1 = tl_next s" "tl_calls s1 = tl_calls s" "am_next (tl_alarm s1) = am_next (tl_alarm s)"
    "am_waiting (tl_alarm s1) = filter (\<lambda>x. fst x \<notin> tr_alarm ` {r \<in> set ?rs. P r}) (am_waiting (tl_alarm s))"
    by (subst P(3), simp)+
  have g: "tl_requests ?s = ?rs'" "am_waiting (tl_alarm ?s) = filter (\<lambda>x. fst x \<notin> tr_alarm ` {r \<in> set ?rs. P r}) (am_waiting (tl_alarm s))"
    by (simp_all add: f)
  have ids: "map tr_id ?rs' = map tr_id ?rs" by simp
  have wt: "{r \<in> set ?rs'. tr_waiting r} = {r \<in> set ?rs. tr_waiting r} - {r \<in> set ?rs. P r}" by (auto split: if_splits)
  have lk: "filter tr_locked ?rs' = map lock_tr (filter P ?rs)" using assms(4) by (rule filter_granted)
  have ans: "answers i (map YesCall (map tr_id (filter P ?rs))) = (if i \<in> tr_id ` {r \<in> set ?rs. P r} then 1 else 0)" for i
    using D(2) by (rule answers_granted)
  have w0: "answers i (tl_calls s) = 0" if "i \<in> tr_id ` {r \<in> set ?rs. P r}" for i using that P(2) D(10) by auto
  have "timeout_core ?s"
  proof (rule timeout_coreI)
    show "distinct (map tr_id (tl_requests ?s))" unfolding g ids by (rule D(2))
    show "0 < tr_id r \<and> tr_id r < tl_next ?s" "tr_status r \<in> {TR_WAIT, TR_LOCK, TR_TIMEOUT}" if "r \<in> set (tl_requests ?s)" for r
      using that D(3,4) by (auto simp: f split: if_splits)
    show "alarms_of (am_waiting (tl_alarm ?s)) = (\<lambda>r. (tr_alarm r, tr_id r)) ` {r \<in> set (tl_requests ?s). tr_waiting r}"
      unfolding g wt using P(2) by (intro alarms_remove [OF D(5) D(7)] inj_on_id [OF D(2)]) auto
    show "answers i (tl_calls ?s) \<le> 1" for i using D(8) [of i] w0 [of i] by (simp add: f ans del: map_map)
    show "answers i (tl_calls ?s) = 0" if "tl_next ?s \<le> i" for i
    proof -
      have "i \<notin> tr_id ` {r \<in> set ?rs. P r}" using that D(3) by (fastforce simp: f)
      then show ?thesis using that D(9) [of i] by (simp add: f ans del: map_map)
    qed
    show "answers (tr_id r) (tl_calls ?s) = 0" if r: "r \<in> set (tl_requests ?s)" "tr_waiting r" for r
    proof -
      have "r \<in> set ?rs" "\<not> P r" using r by (auto split: if_splits)
      moreover have "tr_id r \<notin> tr_id ` {r \<in> set ?rs. P r}"
        using calculation inj_on_id [OF D(2) subset_refl] by (auto simp: inj_on_def)
      ultimately show ?thesis using D(10) r(2) by (simp add: f ans del: map_map)
    qed
    show "YesCall (tr_id r) \<in> set (tl_calls ?s)" if "r \<in> set (tl_requests ?s)" "tr_locked r" for r
      using that D(11) by (auto simp: f split: if_splits)
  qed (use D(1,5,6) in \<open>auto simp: f distinct_map inj_on_def\<close>)
  moreover have "timeout_state ?s"
    using P(2,4) assms(4) lk unfolding timeout_state_def by (cases "tl_status s1") (auto split: if_splits)
  moreover have "timeout_lock_all s = Some (map tr_id (filter P ?rs), s1\<lparr>tl_requests := ?rs'\<rparr>)"
    using assms(2,3) P(1) by (simp add: timeout_lock_all_def)
  ultimately show ?thesis by (auto simp: timeout_inv_def)
qed

section \<open>The operations\<close>

lemma timeout_vlock_inv:
  assumes "timeout_inv s"
  shows "timeout_inv (timeout_vlock now t s)"
proof -
  let ?i = "tl_next s"
  have st: "timeout_state s" and core: "timeout_core s" using assms by (auto simp: timeout_inv_def)
  note D = timeout_coreD [OF core]
  have new: "?i \<notin> tr_id ` set (tl_requests s)" using D(3) by force
  have a0: "answers ?i (tl_calls s) = 0" using D(9) by simp
  consider (lock) "tl_status s = FREE \<or> (tl_status s = RLOCKED \<and> t = RLOCK)"
    | (wait) "\<not> (tl_status s = FREE \<or> (tl_status s = RLOCKED \<and> t = RLOCK))" "tm_wait s > 0"
    | (refuse) "\<not> (tl_status s = FREE \<or> (tl_status s = RLOCKED \<and> t = RLOCK))" "tm_wait s = 0" by blast
  then show ?thesis
  proof cases
    case lock
    let ?r = "\<lparr>tr_id = ?i, tr_alarm = 0, tr_type = t, tr_status = TR_LOCK\<rparr>"
    let ?s = "s\<lparr>tl_next := ?i + 1, tl_requests := tl_requests s @ [?r],
      tl_status := (case t of RLOCK \<Rightarrow> RLOCKED | WLOCK \<Rightarrow> WLOCKED),
      tl_n_rlock := (case t of RLOCK \<Rightarrow> tl_n_rlock s + 1 | WLOCK \<Rightarrow> tl_n_rlock s), tl_calls := tl_calls s @ [YesCall ?i]\<rparr>"
    have "timeout_vlock now t s = ?s" using lock by (cases t) (auto simp: timeout_vlock_def Let_def)
    moreover have "timeout_core ?s"
    proof (rule timeout_coreI)
      have "{r \<in> set (tl_requests ?s). tr_waiting r} = {r \<in> set (tl_requests s). tr_waiting r}" by auto
      then show "alarms_of (am_waiting (tl_alarm ?s)) = (\<lambda>r. (tr_alarm r, tr_id r)) ` {r \<in> set (tl_requests ?s). tr_waiting r}" using D(7) by simp
    qed (use D new a0 in \<open>fastforce simp: less_Suc_eq\<close>)+
    moreover have "timeout_state ?s"
    proof (cases "tl_status s = FREE")
      case True
      then have "filter tr_locked (tl_requests s) = []" "tl_n_rlock s = 0" using st by (auto simp: timeout_state_def filter_empty_conv)
      then show ?thesis by (cases t) (auto simp: timeout_state_def filter_empty_conv)
    next
      case False
      then show ?thesis using lock st by (auto simp: timeout_state_def)
    qed
    ultimately show ?thesis by (simp add: timeout_inv_def)
  next
    case wait
    let ?k = "am_next (tl_alarm s)"
    let ?r = "\<lparr>tr_id = ?i, tr_alarm = ?k, tr_type = t, tr_status = TR_WAIT\<rparr>"
    let ?s = "s\<lparr>tl_next := ?i + 1, tl_requests := tl_requests s @ [?r],
      tl_alarm := (tl_alarm s)\<lparr>am_next := ?k + 1, am_waiting := am_waiting (tl_alarm s) @ [(?k, now + tm_wait s, ?i)]\<rparr>\<rparr>"
    have "timeout_vlock now t s = ?s" using wait by (auto simp: timeout_vlock_def alarm_add_def Let_def)
    moreover have "timeout_core ?s"
    proof (rule timeout_coreI)
      have "{r \<in> set (tl_requests ?s). tr_waiting r} = insert ?r {r \<in> set (tl_requests s). tr_waiting r}" by auto
      moreover have "alarms_of (am_waiting (tl_alarm ?s)) = insert (?k, ?i) (alarms_of (am_waiting (tl_alarm s)))" by (simp add: alarms_of_def)
      ultimately show "alarms_of (am_waiting (tl_alarm ?s)) = (\<lambda>r. (tr_alarm r, tr_id r)) ` {r \<in> set (tl_requests ?s). tr_waiting r}" using D(7) by simp
      show "distinct (map fst (am_waiting (tl_alarm ?s)))" using D(5) D(6) by force
      show "fst x < am_next (tl_alarm ?s)" if "x \<in> set (am_waiting (tl_alarm ?s))" for x using that D(6) [of x] by auto
    qed (use D new a0 in \<open>fastforce simp: less_Suc_eq\<close>)+
    moreover have "timeout_state ?s" using wait(1) st by (cases "tl_status s") (auto simp: timeout_state_def)
    ultimately show ?thesis by (simp add: timeout_inv_def)
  next
    case refuse
    let ?s = "s\<lparr>tl_next := ?i + 1, tl_calls := tl_calls s @ [NoCall ?i]\<rparr>"
    have "timeout_vlock now t s = ?s" using refuse by (auto simp: timeout_vlock_def Let_def)
    moreover have "timeout_core ?s"
      by (rule timeout_coreI) (use D new a0 in \<open>fastforce simp: less_Suc_eq\<close>)+
    moreover have "timeout_state ?s" using st by (simp add: timeout_state_def cong: lock_status.case_cong)
    ultimately show ?thesis by (simp add: timeout_inv_def)
  qed
qed

text \<open>A request leaves the queue; if it waited, its alarm leaves with it.\<close>

lemma timeout_core_remove:
  assumes "timeout_core s" "tl_requests s = K @ it # R" "tl_requests s' = K @ R" "tl_next s' = tl_next s" "tl_calls s' = tl_calls s"
    "tl_alarm s' = (if tr_waiting it then alarm_remove (tr_alarm it) (tl_alarm s) else tl_alarm s)"
  shows "timeout_core s'"
proof (rule timeout_coreI)
  note D = timeout_coreD [OF assms(1)]
  show "distinct (map tr_id (tl_requests s'))" using D(2) assms(2,3) by simp
  show "distinct (map fst (am_waiting (tl_alarm s')))" using D(5) by (auto simp: assms(6) alarm_remove_def distinct_map inj_on_def)
  show "fst x < am_next (tl_alarm s')" if "x \<in> set (am_waiting (tl_alarm s'))" for x
    using that D(6) by (auto simp: assms(6) alarm_remove_def split: if_splits)
  show "alarms_of (am_waiting (tl_alarm s')) = (\<lambda>r. (tr_alarm r, tr_id r)) ` {r \<in> set (tl_requests s'). tr_waiting r}"
  proof (cases "tr_waiting it")
    case True
    have "it \<notin> set (K @ R)" using D(2) assms(2) by auto
    then have "{r \<in> set (K @ R). tr_waiting r} = {r \<in> set (tl_requests s). tr_waiting r} - {it}" using assms(2) by auto
    moreover have "am_waiting (tl_alarm s') = filter (\<lambda>x. fst x \<notin> tr_alarm ` {it}) (am_waiting (tl_alarm s))"
      using True by (simp add: assms(6) alarm_remove_def)
    moreover have "it \<in> {r \<in> set (tl_requests s). tr_waiting r}" using True assms(2) by simp
    ultimately show ?thesis using alarms_remove [OF D(5,7) inj_on_id [OF D(2)], of "{it}"] assms(3) by auto
  next
    case False
    then have "{r \<in> set (K @ R). tr_waiting r} = {r \<in> set (tl_requests s). tr_waiting r}" using assms(2) by auto
    then show ?thesis using False D(7) by (simp add: assms(3,6))
  qed
qed (use timeout_coreD [OF assms(1)] assms(2-5) in auto)

lemma timeout_release_inv:
  assumes "timeout_inv s" "tl_requests s = K @ it # R" "tr_locked it"
    "n = (case tr_type it of RLOCK \<Rightarrow> tl_n_rlock s - 1 | WLOCK \<Rightarrow> tl_n_rlock s)"
    "s2 = s\<lparr>tl_requests := K @ R, tl_n_rlock := n, tl_status := (if n = 0 then FREE else tl_status s)\<rparr>"
  shows "timeout_core s2 \<and> (if tl_status s2 = FREE then tl_n_rlock s2 = 0 \<and> (\<forall>r\<in>set (tl_requests s2). \<not> tr_locked r) else timeout_state s2)"
proof -
  have st: "timeout_state s" and core: "timeout_core s" using assms(1) by (auto simp: timeout_inv_def)
  have "timeout_core s2" by (rule timeout_core_remove [OF core assms(2)]) (use assms(3) in \<open>simp_all add: assms(5)\<close>)
  moreover have "if tl_status s2 = FREE then tl_n_rlock s2 = 0 \<and> (\<forall>r\<in>set (tl_requests s2). \<not> tr_locked r) else timeout_state s2"
  proof (cases "tr_type it")
    case RLOCK
    then have S: "tl_status s = RLOCKED" "tl_n_rlock s = int (length (filter tr_locked (tl_requests s)))" "\<forall>r\<in>set (tl_requests s). tr_locked r \<longrightarrow> tr_type r = RLOCK"
      using st assms(2,3) by (auto simp: timeout_state_def append_eq_Cons_conv split: lock_status.splits)
    have n: "n = int (length (filter tr_locked (K @ R)))" using S(2) assms(2-4) RLOCK by simp
    have "n = 0 \<longleftrightarrow> (\<forall>r\<in>set (K @ R). \<not> tr_locked r)" by (simp only: n of_nat_eq_0_iff length_0_conv filter_empty_conv)
    moreover have "0 < n" if "n \<noteq> 0" using that n by simp
    ultimately show ?thesis using S(1,3) n assms(2) by (cases "n = 0") (simp_all add: assms(5) timeout_state_def)
  next
    case WLOCK
    then obtain r where S: "tl_n_rlock s = 0" "filter tr_locked (tl_requests s) = [r]"
      using st assms(2,3) by (auto simp: timeout_state_def split: lock_status.splits)
    then have "filter tr_locked (K @ R) = []" using assms(2,3) by (auto simp: append_eq_Cons_conv)
    then show ?thesis using S(1) WLOCK by (auto simp: assms(4,5) filter_empty_conv)
  qed
  ultimately show ?thesis by blast
qed

lemma timeout_abort_inv:
  assumes "timeout_inv s"
  shows "\<exists>s'. timeout_abort i s = Some s' \<and> timeout_inv s'"
proof (cases "dropWhile (\<lambda>r. tr_id r \<noteq> i) (tl_requests s)")
  case Nil
  show ?thesis using assms unfolding timeout_abort_def Nil by simp
next
  case (Cons it R)
  have st: "timeout_state s" and core: "timeout_core s" using assms by (auto simp: timeout_inv_def)
  define K where "K = takeWhile (\<lambda>r. tr_id r \<noteq> i) (tl_requests s)"
  have rs: "tl_requests s = K @ it # R" using takeWhile_dropWhile_id [of "\<lambda>r. tr_id r \<noteq> i" "tl_requests s"] by (simp add: K_def Cons)
  have it: "tr_status it \<in> {TR_WAIT, TR_LOCK, TR_TIMEOUT}" using timeout_coreD(4) [OF core] rs by simp
  have keep: "timeout_inv s'" if "\<not> tr_locked it" "tl_requests s' = K @ R" "tl_next s' = tl_next s" "tl_calls s' = tl_calls s"
    "tl_status s' = tl_status s" "tl_n_rlock s' = tl_n_rlock s"
    "tl_alarm s' = (if tr_waiting it then alarm_remove (tr_alarm it) (tl_alarm s) else tl_alarm s)" for s'
    using timeout_core_remove [OF core rs that(2,3,4,7)] st that(1,2,5,6) rs
    by (auto simp: timeout_inv_def timeout_state_def split: lock_status.splits)
  consider "tr_locked it" | "tr_waiting it" | "tr_status it = TR_TIMEOUT" using it by blast
  then show ?thesis
  proof cases
    case 1
    define n where "n = (case tr_type it of RLOCK \<Rightarrow> tl_n_rlock s - 1 | WLOCK \<Rightarrow> tl_n_rlock s)"
    define s2 where "s2 = s\<lparr>tl_requests := K @ R, tl_n_rlock := n, tl_status := (if n = 0 then FREE else tl_status s)\<rparr>"
    have r: "timeout_core s2 \<and> (if tl_status s2 = FREE then tl_n_rlock s2 = 0 \<and> (\<forall>r\<in>set (tl_requests s2). \<not> tr_locked r) else timeout_state s2)"
      by (rule timeout_release_inv [OF assms rs 1 n_def s2_def])
    have "timeout_abort i s = (if tl_status s2 = FREE
        then do {(is, s3) \<leftarrow> timeout_lock_all s2; Some (s3\<lparr>tl_calls := tl_calls s3 @ map YesCall is\<rparr>)} else Some s2)"
      using 1 by (cases "tr_type it") (simp_all add: timeout_abort_def Cons Let_def s2_def n_def K_def)
    moreover have "\<exists>is s3. timeout_lock_all s2 = Some (is, s3) \<and> timeout_inv (s3\<lparr>tl_calls := tl_calls s3 @ map YesCall is\<rparr>)" if "tl_status s2 = FREE"
      using lock_all_inv [of s2] r that by auto
    ultimately show ?thesis using r by (auto simp: timeout_inv_def split: if_splits)
  next
    case 2
    then show ?thesis by (auto simp: timeout_abort_def Cons Let_def K_def [symmetric] intro!: keep)
  next
    case 3
    then show ?thesis by (auto simp: timeout_abort_def Cons Let_def K_def [symmetric] intro!: keep)
  qed
qed

lemma timeout_state_cong:
  assumes "timeout_state s" "tl_status s \<noteq> FREE" "tl_status s' = tl_status s" "tl_n_rlock s' = tl_n_rlock s"
    "filter tr_locked (tl_requests s') = filter tr_locked (tl_requests s)"
  shows "timeout_state s'"
proof -
  have "r \<in> set (tl_requests s)" if "r \<in> set (tl_requests s')" "tr_locked r" for r
    using that arg_cong [OF assms(5), of set] by auto
  then show ?thesis using assms unfolding timeout_state_def by (cases "tl_status s") auto
qed

lemma filter_timeout:
  "\<forall>r\<in>set rs. tr_id r = i \<longrightarrow> tr_waiting r \<Longrightarrow>
     filter tr_locked (map (\<lambda>r. if tr_id r = i then r\<lparr>tr_status := TR_TIMEOUT\<rparr> else r) rs) = filter tr_locked rs"
  by (induction rs) auto

text \<open>A waiting request times out: it stays in the queue without its alarm.\<close>

lemma timeout_fire_inv:
  assumes "timeout_inv s" "r \<in> set (tl_requests s)" "tr_waiting r" "tr_id r = i"
  shows "timeout_inv (s\<lparr>tl_requests := map (\<lambda>r. if tr_id r = i then r\<lparr>tr_status := TR_TIMEOUT\<rparr> else r) (tl_requests s),
    tl_calls := tl_calls s @ [NoCall i], tl_alarm := alarm_remove (tr_alarm r) (tl_alarm s)\<rparr>)" (is "timeout_inv ?s")
proof -
  let ?f = "\<lambda>r. if tr_id r = i then r\<lparr>tr_status := TR_TIMEOUT\<rparr> else r"
  have st: "timeout_state s" and core: "timeout_core s" using assms(1) by (auto simp: timeout_inv_def)
  note D = timeout_coreD [OF core]
  have idr: "\<forall>q\<in>set (tl_requests s). tr_id q = i \<longleftrightarrow> q = r"
    using inj_on_id [OF D(2) subset_refl] assms(2,4) by (auto simp: inj_on_def)
  have "r \<noteq> r\<lparr>tr_status := TR_TIMEOUT\<rparr>" using assms(3) by (cases r) auto
  then have W: "{q \<in> set (map ?f (tl_requests s)). tr_waiting q} = {q \<in> set (tl_requests s). tr_waiting q} - {r}"
    using idr assms(2-4) by (auto split: if_splits)
  have lk: "filter tr_locked (map ?f (tl_requests s)) = filter tr_locked (tl_requests s)"
    using idr assms(3) by (intro filter_timeout) auto
  have g: "tl_requests ?s = map ?f (tl_requests s)" "am_waiting (tl_alarm ?s) = filter (\<lambda>x. fst x \<notin> tr_alarm ` {r}) (am_waiting (tl_alarm s))"
    by (simp_all add: alarm_remove_def)
  have "timeout_core ?s"
  proof (rule timeout_coreI)
    have "map tr_id (map ?f (tl_requests s)) = map tr_id (tl_requests s)" by simp
    then show "distinct (map tr_id (tl_requests ?s))" unfolding g using D(2) by metis
    show "0 < tr_id q \<and> tr_id q < tl_next ?s" "tr_status q \<in> {TR_WAIT, TR_LOCK, TR_TIMEOUT}" if "q \<in> set (tl_requests ?s)" for q
      using that D(3,4) by (auto split: if_splits)
    show "alarms_of (am_waiting (tl_alarm ?s)) = (\<lambda>r. (tr_alarm r, tr_id r)) ` {r \<in> set (tl_requests ?s). tr_waiting r}"
      unfolding g W using assms(2,3) by (intro alarms_remove [OF D(5) D(7)] inj_on_id [OF D(2)]) auto
    show "answers j (tl_calls ?s) \<le> 1" for j using D(8) [of j] D(10) [OF assms(2,3)] assms(4) by auto
    show "answers j (tl_calls ?s) = 0" if "tl_next ?s \<le> j" for j using that D(9) [of j] D(3) [OF assms(2)] assms(4) by auto
    show "answers (tr_id q) (tl_calls ?s) = 0" if q: "q \<in> set (tl_requests ?s)" "tr_waiting q" for q
    proof -
      have "q \<in> {q \<in> set (tl_requests s). tr_waiting q} - {r}" using q unfolding W [symmetric] g by blast
      then have "q \<in> set (tl_requests s)" "tr_id q \<noteq> i" using idr by auto
      then show ?thesis using D(10) [of q] q(2) by simp
    qed
    show "YesCall (tr_id q) \<in> set (tl_calls ?s)" if "q \<in> set (tl_requests ?s)" "tr_locked q" for q
      using that D(11) by (auto split: if_splits)
  qed (use D(1,5,6) in \<open>auto simp: alarm_remove_def distinct_map inj_on_def\<close>)
  moreover have "timeout_state ?s"
  proof (rule timeout_state_cong [OF st])
    show "tl_status s \<noteq> FREE" using st assms(2,3) by (auto simp: timeout_state_def)
    show "filter tr_locked (tl_requests ?s) = filter tr_locked (tl_requests s)" unfolding g by (rule lk)
  qed simp_all
  ultimately show ?thesis by (simp add: timeout_inv_def)
qed

lemma exe_next_inv:
  assumes "timeout_inv s"
  shows "\<exists>b s'. exe_next now s = Some (b, s') \<and> timeout_inv s'"
proof (cases "am_waiting (tl_alarm s)")
  case Nil
  then show ?thesis using assms by (auto simp: exe_next_def)
next
  case (Cons x as)
  obtain k time i where x: "x = (k, time, i)" by (cases x) auto
  note D = timeout_coreD [of s]
  have "(k, i) \<in> (\<lambda>r. (tr_alarm r, tr_id r)) ` {r \<in> set (tl_requests s). tr_waiting r}"
    using D(7) assms Cons x by (force simp: alarms_of_def timeout_inv_def)
  then obtain r where r: "r \<in> set (tl_requests s)" "tr_waiting r" "tr_alarm r = k" "tr_id r = i" by auto
  have eq: "q = r" if "q \<in> set (tl_requests s)" "tr_id q = i" for q
    using inj_on_id [OF D(2) subset_refl] assms that r by (auto simp: inj_on_def timeout_inv_def)
  have "find (\<lambda>r. tr_id r = i) (tl_requests s) = Some r"
  proof (cases "find (\<lambda>r. tr_id r = i) (tl_requests s)")
    case (Some q)
    then show ?thesis using eq [of q] by (auto simp: find_Some_iff)
  qed (use r in \<open>auto simp: find_None_iff\<close>)
  then have "do_timeout i s = Some (s\<lparr>tl_requests := map (\<lambda>r. if tr_id r = i then r\<lparr>tr_status := TR_TIMEOUT\<rparr> else r) (tl_requests s),
      tl_calls := tl_calls s @ [NoCall i]\<rparr>)" using r(2) by (simp add: do_timeout_def)
  then show ?thesis using assms timeout_fire_inv [OF assms r(1,2,4)] r(3) by (simp add: exe_next_def Cons x) blast
qed

lemma alarm_Work_inv:
  assumes "timeout_inv s"
  shows "\<exists>s'. alarm_Work now s = Some s' \<and> timeout_inv s'"
  using assms
proof (induction now s rule: alarm_Work.induct)
  case (1 now s)
  obtain b s' where s': "exe_next now s = Some (b, s')" "timeout_inv s'" using exe_next_inv [OF "1.prems"] by blast
  show ?case
  proof (cases b)
    case True
    then show ?thesis using "1.IH" s' by (subst alarm_Work.simps) simp
  next
    case False
    then show ?thesis using s' by (subst alarm_Work.simps) simp
  qed
qed

end
