(* ===== verification/ALockContract.thy ===== *)
theory ALockContract
  imports ALockTimeout
begin

text \<open>The contract of a lock as a locale, interpreted on the three locks; the properties over sequences of calls; the sanity check of wait-die.\<close>

section \<open>The contract of a lock\<close>

text \<open>Sequences of operations, each allowed in its state.\<close>

fun lock_run :: "('o \<Rightarrow> 's \<Rightarrow> 's option) \<Rightarrow> 'o list \<Rightarrow> 's \<Rightarrow> 's option" where
  "lock_run step [] s = Some s"
| "lock_run step (p # ps) s = do {s' \<leftarrow> step p s; lock_run step ps s'}"

fun lock_allowed :: "('o \<Rightarrow> 's \<Rightarrow> bool) \<Rightarrow> ('o \<Rightarrow> 's \<Rightarrow> 's option) \<Rightarrow> 'o list \<Rightarrow> 's \<Rightarrow> bool" where
  "lock_allowed ok step [] s \<longleftrightarrow> True"
| "lock_allowed ok step (p # ps) s \<longleftrightarrow> ok p s \<and> (case step p s of None \<Rightarrow> True | Some s' \<Rightarrow> lock_allowed ok step ps s')"

text \<open>
  A writer holds the lock alone; somebody holds it while others wait; a request is answered at most once, not before it stops
  waiting, and positively if it holds the lock.
\<close>

definition lock_sound :: "(nat \<times> lock_type) set \<Rightarrow> nat set \<Rightarrow> lock_call list \<Rightarrow> bool" where
  "lock_sound held waits cs \<longleftrightarrow>
     (\<forall>i. (i, WLOCK) \<in> held \<longrightarrow> held = {(i, WLOCK)}) \<and> (waits \<noteq> {} \<longrightarrow> held \<noteq> {}) \<and>
     (\<forall>i. answers i cs \<le> 1) \<and> (\<forall>i\<in>waits. answers i cs = 0) \<and> (\<forall>(i, t)\<in>held. YesCall i \<in> set cs)"

locale exclusive_lock =
  fixes step :: "'o \<Rightarrow> 's \<Rightarrow> 's option" and ok :: "'o \<Rightarrow> 's \<Rightarrow> bool" and inv :: "'s \<Rightarrow> bool"
    and held :: "'s \<Rightarrow> (nat \<times> lock_type) set" and waits :: "'s \<Rightarrow> nat set" and calls :: "'s \<Rightarrow> lock_call list"
  assumes step_inv: "inv s \<Longrightarrow> ok p s \<Longrightarrow> \<exists>s'. step p s = Some s' \<and> inv s'"
    and alone: "inv s \<Longrightarrow> (i, WLOCK) \<in> held s \<Longrightarrow> held s = {(i, WLOCK)}"
    and busy: "inv s \<Longrightarrow> waits s \<noteq> {} \<Longrightarrow> held s \<noteq> {}"
    and once: "inv s \<Longrightarrow> answers i (calls s) \<le> 1"
    and open_wait: "inv s \<Longrightarrow> i \<in> waits s \<Longrightarrow> answers i (calls s) = 0"
    and granted: "inv s \<Longrightarrow> (i, t) \<in> held s \<Longrightarrow> YesCall i \<in> set (calls s)"
begin

lemma sound:
  assumes "inv s"
  shows "lock_sound (held s) (waits s) (calls s)"
  unfolding lock_sound_def
proof (intro conjI allI impI ballI)
  show "held s = {(i, WLOCK)}" if "(i, WLOCK) \<in> held s" for i using assms that by (rule alone)
  show "held s \<noteq> {}" if "waits s \<noteq> {}" using assms that by (rule busy)
  show "answers i (calls s) \<le> 1" for i using assms by (rule once)
  show "answers i (calls s) = 0" if "i \<in> waits s" for i using assms that by (rule open_wait)
  show "case x of (i, t) \<Rightarrow> YesCall i \<in> set (calls s)" if "x \<in> held s" for x using granted [OF assms] that by (cases x) simp
qed

lemma run_inv:
  assumes "inv s" "lock_allowed ok step ps s"
  shows "\<exists>s'. lock_run step ps s = Some s' \<and> inv s'"
  using assms
proof (induction ps arbitrary: s)
  case (Cons p ps)
  obtain s1 where "step p s = Some s1" "inv s1" using step_inv Cons.prems by auto
  then show ?case using Cons.IH [of s1] Cons.prems(2) by simp
qed simp

lemma run_sound:
  assumes "inv s" "lock_allowed ok step ps s"
  shows "\<exists>s'. lock_run step ps s = Some s' \<and> inv s' \<and> lock_sound (held s') (waits s') (calls s')"
  using run_inv [OF assms] sound by blast

end

text \<open>The operations of the three locks.\<close>

datatype wd_op = WdLock lock_type u64 | WdAbort nat

primrec wd_step :: "wd_op \<Rightarrow> wd_lock \<Rightarrow> wd_lock option" where
  "wd_step (WdLock t p) s = wd_vlock t p s"
| "wd_step (WdAbort i) s = wd_abort i s"

datatype wound_op = WoundLock "nat \<Rightarrow> int" lock_type u64 | WoundAbort nat

primrec wound_step :: "wound_op \<Rightarrow> alock \<Rightarrow> alock option" where
  "wound_step (WoundLock w t p) s = wound_vlock w t p s"
| "wound_step (WoundAbort i) s = alock_abort i s"

text \<open>
  A transaction that waits for a lock can be wounded: only \<^verbatim>\<open>DoPrepare\<close> makes it unwoundable, after all its locks are granted
  (\<^verbatim>\<open>2pl/scheduler.cc\<close>). A read has no smaller value than the queued requests.
\<close>

primrec wound_allowed :: "wound_op \<Rightarrow> alock \<Rightarrow> bool" where
  "wound_allowed (WoundLock w t p) s \<longleftrightarrow>
     (\<forall>r\<in>set (al_requests s). (lr_status r = REQ_WAIT \<longrightarrow> w (lr_id r) = 0) \<and> (t = RLOCK \<longrightarrow> sint p \<le> lr_priority r))"
| "wound_allowed (WoundAbort i) s \<longleftrightarrow> True"

datatype timeout_op = TimeoutLock nat lock_type | TimeoutAbort nat | AlarmWork nat

primrec timeout_step :: "timeout_op \<Rightarrow> timeout_lock \<Rightarrow> timeout_lock option" where
  "timeout_step (TimeoutLock now t) s = Some (timeout_vlock now t s)"
| "timeout_step (TimeoutAbort i) s = timeout_abort i s"
| "timeout_step (AlarmWork now) s = alarm_Work now s"

definition timeout_holders :: "timeout_lock \<Rightarrow> (nat \<times> lock_type) set" where
  "timeout_holders s = (\<lambda>r. (tr_id r, tr_type r)) ` {r \<in> set (tl_requests s). tr_locked r}"

definition timeout_waits :: "timeout_lock \<Rightarrow> nat set" where
  "timeout_waits s = tr_id ` {r \<in> set (tl_requests s). tr_waiting r}"

lemma alock_inv_sound:
  assumes "alock_inv s"
  shows "(i, WLOCK) \<in> holders (al_requests s) \<Longrightarrow> holders (al_requests s) = {(i, WLOCK)}"
    and "waiting_ids (al_requests s) \<noteq> {} \<Longrightarrow> holders (al_requests s) \<noteq> {}"
    and "answers i (al_calls s) \<le> 1" and "i \<in> waiting_ids (al_requests s) \<Longrightarrow> answers i (al_calls s) = 0"
    and "(i, t) \<in> holders (al_requests s) \<Longrightarrow> YesCall i \<in> set (al_calls s)"
proof -
  obtain l w where l: "lock_ok s l w" "settled s w" and ids: "ids_ok s" using assms by (auto simp: alock_inv_def)
  have h: "holders (al_requests s) = (\<lambda>r. (lr_id r, lr_type r)) ` set l" "waiting_ids (al_requests s) = lr_id ` set w"
    using l(1) by (auto simp: lock_ok_def queue_sets_uniform)
  show "(i, WLOCK) \<in> holders (al_requests s) \<Longrightarrow> holders (al_requests s) = {(i, WLOCK)}"
    unfolding h using l(1) by (auto simp: lock_ok_def split: lock_status.splits)
  show "waiting_ids (al_requests s) \<noteq> {} \<Longrightarrow> holders (al_requests s) \<noteq> {}"
    unfolding h using l by (auto simp: lock_ok_def settled_def split: lock_status.splits)
  show "answers i (al_calls s) \<le> 1" "i \<in> waiting_ids (al_requests s) \<Longrightarrow> answers i (al_calls s) = 0"
    "(i, t) \<in> holders (al_requests s) \<Longrightarrow> YesCall i \<in> set (al_calls s)" using ids by (auto simp: ids_ok_def)
qed

interpretation wd: exclusive_lock wd_step "\<lambda>_ _. True" wd_inv "\<lambda>s. holders (al_requests s)" "\<lambda>s. waiting_ids (al_requests s)" al_calls
proof (unfold_locales, goal_cases)
  case (1 s p)
  then show ?case using wd_vlock_inv wd_abort_inv by (cases p) auto
qed (auto simp: wd_inv_def dest: alock_inv_sound)

interpretation wound: exclusive_lock wound_step wound_allowed alock_inv "\<lambda>s. holders (al_requests s)" "\<lambda>s. waiting_ids (al_requests s)" al_calls
proof (unfold_locales, goal_cases)
  case (1 s p)
  then show ?case using wound_vlock_inv alock_abort_inv by (cases p) auto
qed (auto dest: alock_inv_sound)

lemma timeout_inv_sound:
  assumes "timeout_inv s"
  shows "(i, WLOCK) \<in> timeout_holders s \<Longrightarrow> timeout_holders s = {(i, WLOCK)}"
    and "timeout_waits s \<noteq> {} \<Longrightarrow> timeout_holders s \<noteq> {}"
proof -
  have st: "timeout_state s" using assms by (simp add: timeout_inv_def)
  have h: "timeout_holders s = (\<lambda>r. (tr_id r, tr_type r)) ` set (filter tr_locked (tl_requests s))" by (simp add: timeout_holders_def)
  show "timeout_holders s = {(i, WLOCK)}" if "(i, WLOCK) \<in> timeout_holders s"
  proof (cases "tl_status s = WLOCKED")
    case True
    then obtain r where "filter tr_locked (tl_requests s) = [r]" using st by (auto simp: timeout_state_def)
    then have "timeout_holders s = {(tr_id r, tr_type r)}" by (simp only: h list.set image_insert image_empty)
    then show ?thesis using that by simp
  next
    case False
    then show ?thesis using st that by (cases "tl_status s") (auto simp: timeout_state_def timeout_holders_def)
  qed
  show "timeout_waits s \<noteq> {} \<Longrightarrow> timeout_holders s \<noteq> {}"
    unfolding h using st by (cases "tl_status s") (auto simp: timeout_state_def timeout_waits_def simp del: set_filter)
qed

interpretation tl: exclusive_lock timeout_step "\<lambda>_ _. True" timeout_inv timeout_holders timeout_waits tl_calls
proof (unfold_locales, goal_cases)
  case (1 s p)
  then show ?case using timeout_vlock_inv timeout_abort_inv alarm_Work_inv by (cases p) auto
next
  case (4 s i)
  then show ?case using timeout_coreD(8) by (auto simp: timeout_inv_def)
next
  case (5 s i)
  then show ?case using timeout_coreD(10) by (auto simp: timeout_inv_def timeout_waits_def)
next
  case (6 s i t)
  then show ?case using timeout_coreD(11) by (auto simp: timeout_inv_def timeout_holders_def)
qed (auto dest: timeout_inv_sound)

lemma lock_allowed_True: "lock_allowed (\<lambda>_ _. True) step ps s"
  by (induction ps arbitrary: s) (auto split: option.splits)

lemma new_locks_inv: "wd_inv new_wd_lock" "alock_inv new_alock" "timeout_inv (new_timeout_lock tm)"
  by (auto simp: wd_inv_def new_wd_lock_def new_alock_def alock.defs alock_inv_def ids_ok_def lock_ok_def settled_def
      new_timeout_lock_def timeout_inv_def timeout_core_def timeout_state_def alarms_of_def)

section \<open>The sanity check\<close>

text \<open>What the loop of \<^verbatim>\<open>sanity_check\<close> needs of the rest of the queue: its holders, and its order.\<close>

definition sane_rest :: "bool \<Rightarrow> wd_lock \<Rightarrow> lock_req list \<Rightarrow> sanity \<Rightarrow> bool" where
  "sane_rest first s rs v \<longleftrightarrow>
     (if acquired_check v then \<forall>r\<in>set rs. lr_status r = REQ_WAIT
      else \<exists>l w. rs = l @ w \<and> (\<forall>r\<in>set l. lr_status r = REQ_LOCK) \<and> (\<forall>r\<in>set w. lr_status r = REQ_WAIT) \<and>
        (al_status s = WLOCKED \<and> first \<and> (\<exists>r. l = [r] \<and> lr_type r = WLOCK) \<or>
         al_status s = RLOCKED \<and> (\<forall>r\<in>set l. is_read r) \<and> (w = [] \<or> lr_type (hd w) = WLOCK) \<and> al_n_rlock s = n_r_locked v + int (length l)))"

definition sane_order :: "lock_req list \<Rightarrow> sanity \<Rightarrow> bool" where
  "sane_order rs v \<longleftrightarrow> sorted_wrt wd_before (map req_core rs) \<and> (\<forall>r\<in>set rs. 0 \<le> lr_priority r \<and> lr_priority r < sc_big v) \<and>
     (tmp_big v = -1 \<or> 0 \<le> tmp_big v \<and> (\<forall>r\<in>set rs. lr_type r = WLOCK \<longrightarrow> lr_priority r < tmp_big v))"

lemma sanity_acquired_ok:
  assumes "sane_rest first s (r # rs) v"
  shows "\<exists>v'. sanity_acquired first s r v = Some v' \<and> sane_rest False s rs v' \<and>
    sc_big v' = sc_big v \<and> tmp_big v' = tmp_big v \<and> num_w v' = num_w v \<and> num_r v' = num_r v"
proof (cases "acquired_check v")
  case True
  then show ?thesis using assms by (simp add: sane_rest_def sanity_acquired_def)
next
  case False
  then obtain l w where lw: "r # rs = l @ w" "\<forall>r\<in>set l. lr_status r = REQ_LOCK" "\<forall>r\<in>set w. lr_status r = REQ_WAIT"
    "al_status s = WLOCKED \<and> first \<and> (\<exists>r. l = [r] \<and> lr_type r = WLOCK) \<or>
     al_status s = RLOCKED \<and> (\<forall>r\<in>set l. is_read r) \<and> (w = [] \<or> lr_type (hd w) = WLOCK) \<and> al_n_rlock s = n_r_locked v + int (length l)"
    using assms unfolding sane_rest_def by auto
  show ?thesis
  proof (cases l)
    case Nil
    then show ?thesis using lw False by (auto simp: sane_rest_def sanity_acquired_def)
  next
    case (Cons q l')
    then have q: "q = r" "rs = l' @ w" using lw(1) by auto
    show ?thesis
    proof (cases "al_status s = WLOCKED")
      case True
      then have "l' = []" using lw(4) Cons by auto
      then show ?thesis using True lw q Cons False by (auto simp: sane_rest_def sanity_acquired_def)
    next
      case nw: False
      let ?v = "v\<lparr>n_r_locked := n_r_locked v + 1\<rparr>"
      have "sanity_acquired first s r v = Some ?v" using nw lw q Cons False by (auto simp: sanity_acquired_def)
      moreover have "sane_rest False s rs ?v"
        using nw lw q Cons False unfolding sane_rest_def by (simp, intro exI [of _ l'] exI [of _ w]) auto
      ultimately show ?thesis by simp
    qed
  qed
qed

lemma sanity_order_ok:
  assumes "sane_order (r # rs) v"
  shows "\<exists>v'. sanity_order r v = Some v' \<and> sane_order rs v' \<and> acquired_check v' = acquired_check v \<and> n_r_locked v' = n_r_locked v \<and>
    num_w v' = num_w v + (if lr_type r = WLOCK then 1 else 0) \<and> num_r v' = num_r v + (if is_read r then 1 else 0)"
proof -
  have o: "\<forall>q\<in>set rs. lr_type r = WLOCK \<or> lr_type q = WLOCK \<longrightarrow> lr_priority q < lr_priority r" "sorted_wrt wd_before (map req_core rs)"
    "\<forall>q\<in>set (r # rs). 0 \<le> lr_priority q \<and> lr_priority q < sc_big v"
    "tmp_big v = -1 \<or> 0 \<le> tmp_big v \<and> (\<forall>q\<in>set (r # rs). lr_type q = WLOCK \<longrightarrow> lr_priority q < tmp_big v)"
    using assms by (auto simp: sane_order_def wd_before_def)
  show ?thesis
  proof (cases "lr_type r")
    case RLOCK
    then show ?thesis using o by (auto simp: sanity_order_def sane_order_def)
  next
    case WLOCK
    then show ?thesis using o by (cases "tmp_big v = -1") (force simp: sanity_order_def sane_order_def)+
  qed
qed

lemma sanity_loop_ok:
  assumes "sane_rest first s rs v" "sane_order rs v"
  shows "\<exists>v'. sanity_loop first s rs v = Some v' \<and> num_w v' = num_w v + int (length (filter (\<lambda>r. lr_type r = WLOCK) rs)) \<and>
    num_r v' = num_r v + int (length (filter is_read rs))"
  using assms
proof (induction rs arbitrary: first v)
  case (Cons r rs)
  obtain v1 where v1: "sanity_acquired first s r v = Some v1" "sane_rest False s rs v1" "sc_big v1 = sc_big v" "tmp_big v1 = tmp_big v"
    "num_w v1 = num_w v" "num_r v1 = num_r v" using sanity_acquired_ok [OF Cons.prems(1)] by blast
  have "sane_order (r # rs) v1" using Cons.prems(2) v1(3,4) by (simp add: sane_order_def)
  then obtain v2 where v2: "sanity_order r v1 = Some v2" "sane_order rs v2" "acquired_check v2 = acquired_check v1" "n_r_locked v2 = n_r_locked v1"
    "num_w v2 = num_w v1 + (if lr_type r = WLOCK then 1 else 0)" "num_r v2 = num_r v1 + (if is_read r then 1 else 0)"
    using sanity_order_ok by blast
  have "sane_rest False s rs v2" using v1(2) v2(3,4) by (auto simp: sane_rest_def)
  from Cons.IH [OF this v2(2)] show ?case using v1 v2 by auto
qed simp

lemma sanity_check_ok:
  assumes "wd_inv s" "\<forall>r\<in>set (al_requests s). 0 \<le> lr_priority r \<and> lr_priority r < 2 ^ 63 - 1"
  shows "sanity_check s = Some ()"
proof -
  let ?v = "\<lparr>acquired_check = False, sc_big = 2 ^ 63 - 1, tmp_big = -1, n_r_locked = 0, num_w = 0, num_r = 0\<rparr>"
  obtain l w where l: "lock_ok s l w" "settled s w" using assms(1) by (auto simp: wd_inv_def alock_inv_def)
  have fr: "al_status s = FREE \<longrightarrow> al_requests s = []" using l by (auto simp: lock_ok_def settled_def)
  have "\<exists>v. sanity_loop True s (al_requests s) ?v = Some v \<and> num_w v = n_w_in_queue s \<and> num_r v = n_r_in_queue s"
  proof (cases "al_requests s = []")
    case True
    then show ?thesis using assms(1) by (simp add: wd_inv_def)
  next
    case False
    have "sane_rest True s (al_requests s) ?v"
      using l False fr unfolding sane_rest_def by (cases "al_status s") (auto simp: lock_ok_def settled_def)
    moreover have "sane_order (al_requests s) ?v" using assms by (simp add: sane_order_def wd_inv_def)
    ultimately show ?thesis using sanity_loop_ok [of True s "al_requests s" ?v] assms(1) by (auto simp: wd_inv_def)
  qed
  then show ?thesis using fr by (auto simp: sanity_check_def)
qed

section \<open>Wait-die over sequences of calls\<close>

lemma not_wd_wait [simp]: "d \<noteq> WD_WAIT \<longleftrightarrow> d = WD_DIE" "d \<noteq> WD_DIE \<longleftrightarrow> d = WD_WAIT"
  by (cases d; simp)+

lemma wd_vlock_core:
  "wd_vlock t p s = Some s' \<Longrightarrow> req_core ` set (al_requests s') \<subseteq> insert (al_next s, sint p, t) (req_core ` set (al_requests s))"
  by (auto simp: wd_vlock_def Let_def read_acquire_def write_acquire_def new_req_def bind_eq_Some_conv split: if_splits lock_type.splits wd_status.splits)

lemma wd_abort_core:
  assumes "wd_abort i s = Some s'"
  shows "req_core ` set (al_requests s') \<subseteq> req_core ` set (al_requests s)"
proof (cases "al_done s \<or> find (\<lambda>r. lr_id r = i) (al_requests s) = None")
  case True
  then show ?thesis using assms by (auto simp: wd_abort_def split: if_splits)
next
  case False
  then obtain it where "find (\<lambda>r. lr_id r = i) (al_requests s) = Some it" by auto
  then have it: "alock_abort i (count_in_queue (lr_type it) (-1) s) = Some s'" "\<not> al_done s" using assms False by (simp_all add: wd_abort_def)
  obtain q rest where q: "dropWhile (\<lambda>r. lr_id r \<noteq> i) (al_requests s) = q # rest"
    using False by (cases "dropWhile (\<lambda>r. lr_id r \<noteq> i) (al_requests s)") (auto simp: find_dropWhile)
  have "map req_core (al_requests s') = map req_core (takeWhile (\<lambda>r. lr_id r \<noteq> i) (al_requests s) @ rest)"
    using alock_abort_core [OF it(1)] it(2) q by simp
  then have "set (map req_core (al_requests s')) = set (map req_core (takeWhile (\<lambda>r. lr_id r \<noteq> i) (al_requests s) @ rest))" by (rule arg_cong)
  moreover have "set (takeWhile (\<lambda>r. lr_id r \<noteq> i) (al_requests s) @ rest) \<subseteq> set (al_requests s)"
    using arg_cong [OF find_split(1) [OF q], of set] by auto
  ultimately show ?thesis by (simp only: set_map image_mono)
qed

lemma wd_run_priorities:
  assumes "lock_run wd_step ps s = Some s'" "\<And>t p. WdLock t p \<in> set ps \<Longrightarrow> P (sint p)" "\<forall>r\<in>set (al_requests s). P (lr_priority r)"
  shows "\<forall>r\<in>set (al_requests s'). P (lr_priority r)"
  using assms
proof (induction ps arbitrary: s)
  case (Cons o' ps)
  obtain s1 where s1: "wd_step o' s = Some s1" "lock_run wd_step ps s1 = Some s'" using Cons.prems(1) by (auto simp: bind_eq_Some_conv)
  have "P (lr_priority r)" if r: "r \<in> set (al_requests s1)" for r
  proof (cases o')
    case (WdLock t p)
    then have "req_core r = (al_next s, sint p, t) \<or> req_core r \<in> req_core ` set (al_requests s)"
      using wd_vlock_core [of t p s s1] s1(1) r by force
    then show ?thesis using Cons.prems(2) [of t p] Cons.prems(3) WdLock by auto
  next
    case (WdAbort i)
    then have "req_core r \<in> req_core ` set (al_requests s)" using wd_abort_core [of i s s1] s1(1) r by force
    then show ?thesis using Cons.prems(3) by auto
  qed
  then have "\<forall>r\<in>set (al_requests s1). P (lr_priority r)" by blast
  from Cons.IH [OF s1(2) _ this] show ?case using Cons.prems(2) by (meson list.set_intros(2))
qed simp

text \<open>
  C31. Whatever calls of \<^verbatim>\<open>vlock\<close> and \<^verbatim>\<open>abort\<close> a wait-die lock gets, none of its checks fails; a writer holds the lock alone,
  somebody holds it while others wait, every request is answered exactly once when it stops waiting and not before, positively if it holds
  the lock, and the two counters of queued requests are exact.
\<close>

theorem wait_die_lock_sound:
  "\<exists>s. lock_run wd_step ps new_wd_lock = Some s \<and> lock_sound (holders (al_requests s)) (waiting_ids (al_requests s)) (al_calls s) \<and>
     (\<forall>i. answers i (al_calls s) = (if i \<in> {1..<al_next s} - waiting_ids (al_requests s) then 1 else 0)) \<and>
     n_r_in_queue s = int (length (filter (\<lambda>r. lr_type r = RLOCK) (al_requests s))) \<and>
     n_w_in_queue s = int (length (filter (\<lambda>r. lr_type r = WLOCK) (al_requests s)))"
proof -
  obtain s where s: "lock_run wd_step ps new_wd_lock = Some s" "wd_inv s" "lock_sound (holders (al_requests s)) (waiting_ids (al_requests s)) (al_calls s)"
    using wd.run_sound [OF new_locks_inv(1) lock_allowed_True] by blast
  then have "ids_ok s" by (simp add: wd_inv_def alock_inv_def)
  then show ?thesis using s by (auto simp: wd_inv_def ids_ok_def)
qed

text \<open>
  C40. The check \<^verbatim>\<open>sanity_check\<close> of \<^verbatim>\<open>WaitDieALock\<close>, whose calls are commented out in the code, passes after any calls whose priorities
  are not negative as signed numbers and below the largest one.
\<close>

theorem wait_die_sanity:
  assumes "\<And>t p. WdLock t p \<in> set ps \<Longrightarrow> 0 \<le> sint p \<and> sint p < 2 ^ 63 - 1"
  shows "\<exists>s. lock_run wd_step ps new_wd_lock = Some s \<and> sanity_check s = Some ()"
proof -
  obtain s where s: "lock_run wd_step ps new_wd_lock = Some s" "wd_inv s" using wd.run_inv [OF new_locks_inv(1) lock_allowed_True] by blast
  have "\<forall>r\<in>set (al_requests s). 0 \<le> lr_priority r \<and> lr_priority r < 2 ^ 63 - 1"
    by (rule wd_run_priorities [OF s(1)]) (use assms in \<open>auto simp: new_wd_lock_def new_alock_def alock.defs\<close>)
  with s show ?thesis using sanity_check_ok by blast
qed

theorem wait_die_sanity_witness:
  "\<exists>s. lock_run wd_step [WdLock WLOCK 7, WdLock RLOCK 5, WdLock RLOCK 6, WdLock WLOCK 3, WdAbort 1] new_wd_lock = Some s \<and> sanity_check s = Some ()"
  by (rule wait_die_sanity) auto

text \<open>A holder has a greater value than every request that waits for the lock.\<close>

lemma wd_holder_above:
  assumes "wd_inv s" "r \<in> set (al_requests s)" "lr_status r = REQ_WAIT"
  shows "\<exists>q\<in>set (al_requests s). lr_status q = REQ_LOCK \<and> lr_priority r < lr_priority q"
proof -
  obtain l w where l: "lock_ok s l w" "settled s w" using assms(1) by (auto simp: wd_inv_def alock_inv_def)
  have L: "al_requests s = l @ w" "\<forall>r\<in>set l. lr_status r = REQ_LOCK" "\<forall>r\<in>set w. lr_status r = REQ_WAIT" using l(1) by (auto simp: lock_ok_def)
  have r: "r \<in> set w" using assms(2,3) L by auto
  then obtain x w' where w: "w = x # w'" by (cases w) auto
  have "l \<noteq> []" using l w by (auto simp: lock_ok_def settled_def split: lock_status.splits)
  then obtain q l' where q: "l = q # l'" by (cases l) auto
  have so: "sorted_wrt wd_before (map req_core (q # l' @ x # w'))" using assms(1) L(1) q w by (simp add: wd_inv_def)
  then have o: "\<forall>y\<in>set w. wd_before (req_core q) (req_core y)" "\<forall>y\<in>set w'. wd_before (req_core x) (req_core y)"
    using w by (auto simp: sorted_wrt_append)
  have "lr_priority r < lr_priority q"
  proof (cases "lr_type q")
    case WLOCK
    then show ?thesis using o(1) r by (auto simp: wd_before_def)
  next
    case RLOCK
    then have "lr_type x = WLOCK" using l q w by (auto simp: lock_ok_def settled_def split: lock_status.splits)
    then have "lr_priority x < lr_priority q" "r = x \<or> lr_priority r < lr_priority x" using o r w by (auto simp: wd_before_def)
    then show ?thesis by auto
  qed
  then show ?thesis using L q by auto
qed

text \<open>
  C32. Wait-die does not deadlock. Take any locks, each after any calls of its own. If a request waits in one of them, then
  some lock is held with a priority value above those of all requests that wait in any of them. So the transaction of that value,
  which uses it for all its requests, holds a lock and waits for none.
\<close>

theorem wait_die_no_deadlock:
  assumes "\<forall>s\<in>set Ls. \<exists>ps. lock_run wd_step ps new_wd_lock = Some s" "s \<in> set Ls" "r \<in> set (al_requests s)" "lr_status r = REQ_WAIT"
  shows "\<exists>h\<in>set Ls. \<exists>q\<in>set (al_requests h). lr_status q = REQ_LOCK \<and>
    (\<forall>s'\<in>set Ls. \<forall>r'\<in>set (al_requests s'). lr_status r' = REQ_WAIT \<longrightarrow> lr_priority r' < lr_priority q)"
proof -
  let ?W = "{(s, r). s \<in> set Ls \<and> r \<in> set (al_requests s) \<and> lr_status r = REQ_WAIT}"
  have inv: "wd_inv s'" if h: "s' \<in> set Ls" for s'
  proof -
    obtain ps where "lock_run wd_step ps new_wd_lock = Some s'" using assms(1) h by blast
    then show ?thesis using wd.run_inv [OF new_locks_inv(1) lock_allowed_True, of ps] by simp
  qed
  have "?W \<subseteq> (\<Union>s\<in>set Ls. {s} \<times> set (al_requests s))" by auto
  then have fin: "finite ?W" by (rule finite_subset) simp
  have ne: "(s, r) \<in> ?W" using assms by simp
  define m where "m = Max ((\<lambda>x. lr_priority (snd x)) ` ?W)"
  have "m \<in> (\<lambda>x. lr_priority (snd x)) ` ?W" unfolding m_def by (rule Max_in) (use fin ne in auto)
  then obtain s1 r1 where s1: "s1 \<in> set Ls" "r1 \<in> set (al_requests s1)" "lr_status r1 = REQ_WAIT" "lr_priority r1 = m" by auto
  have mx: "lr_priority r' \<le> m" if "s' \<in> set Ls" "r' \<in> set (al_requests s')" "lr_status r' = REQ_WAIT" for s' r'
    unfolding m_def by (rule Max_ge) (use fin that in force)+
  obtain q where "q \<in> set (al_requests s1)" "lr_status q = REQ_LOCK" "m < lr_priority q"
    using wd_holder_above [OF inv [OF s1(1)] s1(2,3)] s1(4) by blast
  then show ?thesis using s1(1) mx by (meson le_less_trans)
qed

text \<open>Two locks; transaction 1 waits in the first, transaction 2 holds the second and the first.\<close>

theorem wait_die_no_deadlock_witness:
  "\<exists>s s2. lock_run wd_step [WdLock WLOCK 2, WdLock WLOCK 1] new_wd_lock = Some s \<and> lock_run wd_step [WdLock RLOCK 2] new_wd_lock = Some s2 \<and>
     (\<exists>h\<in>set [s, s2]. \<exists>q\<in>set (al_requests h). lr_status q = REQ_LOCK \<and>
        (\<forall>s'\<in>set [s, s2]. \<forall>r'\<in>set (al_requests s'). lr_status r' = REQ_WAIT \<longrightarrow> lr_priority r' < lr_priority q))"
proof -
  have "case lock_run wd_step [WdLock WLOCK 2, WdLock WLOCK 1] new_wd_lock of None \<Rightarrow> False
      | Some s \<Rightarrow> \<lparr>lr_id = 2, lr_priority = 1, lr_type = WLOCK, lr_status = REQ_WAIT\<rparr> \<in> set (al_requests s)"
    "case lock_run wd_step [WdLock RLOCK 2] new_wd_lock of None \<Rightarrow> False | Some s \<Rightarrow> True"
    by code_simp+
  then obtain s s2 where s: "lock_run wd_step [WdLock WLOCK 2, WdLock WLOCK 1] new_wd_lock = Some s" "lock_run wd_step [WdLock RLOCK 2] new_wd_lock = Some s2"
    "\<lparr>lr_id = 2, lr_priority = 1, lr_type = WLOCK, lr_status = REQ_WAIT\<rparr> \<in> set (al_requests s)" by (auto split: option.splits)
  have "\<forall>s'\<in>set [s, s2]. \<exists>ps. lock_run wd_step ps new_wd_lock = Some s'" using s(1,2) by (simp del: lock_run.simps) blast
  from wait_die_no_deadlock [OF this _ s(3)] show ?thesis using s(1,2) by auto
qed

section \<open>Wound-wait and time-outs over sequences of calls\<close>

text \<open>
  C34. A wound-wait lock that was used as allowed keeps the contract of a lock, and a further request comes back if it is a write, but
  a read comes back only if no queued request has a smaller priority value: otherwise the loop of \<^verbatim>\<open>wound_die\<close> for reads never
  passes that request.
\<close>

theorem wound_lock_returns:
  assumes "lock_allowed wound_allowed wound_step ps new_alock"
  shows "\<exists>s. lock_run wound_step ps new_alock = Some s \<and> lock_sound (holders (al_requests s)) (waiting_ids (al_requests s)) (al_calls s) \<and>
    (\<forall>w t p. (\<forall>i\<in>waiting_ids (al_requests s). w i = 0) \<longrightarrow>
       (wound_vlock w t p s \<noteq> None \<longleftrightarrow> t = WLOCK \<or> (\<forall>r\<in>set (al_requests s). sint p \<le> lr_priority r)))"
proof -
  obtain s where s: "lock_run wound_step ps new_alock = Some s" "alock_inv s" "lock_sound (holders (al_requests s)) (waiting_ids (al_requests s)) (al_calls s)"
    using wound.run_sound [OF new_locks_inv(2) assms] by blast
  have "wound_vlock w t p s \<noteq> None \<longleftrightarrow> t = WLOCK \<or> (\<forall>r\<in>set (al_requests s). sint p \<le> lr_priority r)"
    if h: "\<forall>i\<in>waiting_ids (al_requests s). w i = 0" for w t p
  proof
    assume "t = WLOCK \<or> (\<forall>r\<in>set (al_requests s). sint p \<le> lr_priority r)"
    moreover have "\<forall>r\<in>set (al_requests s). lr_status r = REQ_WAIT \<longrightarrow> w (lr_id r) = 0" using h by (auto simp: waiting_ids_def)
    ultimately show "wound_vlock w t p s \<noteq> None" using wound_vlock_inv [OF s(2), of w t p] by auto
  next
    assume a: "wound_vlock w t p s \<noteq> None"
    have "\<not> al_done s" using s(2) by (simp add: alock_inv_def)
    then show "t = WLOCK \<or> (\<forall>r\<in>set (al_requests s). sint p \<le> lr_priority r)"
      using a wound_die_read_returns [of w "sint p" "rev (al_requests s)" "[]" "s\<lparr>al_next := al_next s + 1\<rparr>"]
      by (cases t) (auto simp: wound_vlock_def wound_die_def Let_def bind_eq_Some_conv)
  qed
  with s show ?thesis by blast
qed

text \<open>A write of value 1 holds the lock; a read of value 2 hangs, a write of value 2 waits.\<close>

theorem wound_lock_returns_witness:
  "\<exists>s. lock_run wound_step [WoundLock (\<lambda>_. 0) WLOCK 1] new_alock = Some s \<and> wound_vlock (\<lambda>_. 0) RLOCK 2 s = None \<and> wound_vlock (\<lambda>_. 0) WLOCK 2 s \<noteq> None"
proof -
  have "lock_allowed wound_allowed wound_step [WoundLock (\<lambda>_. 0) WLOCK 1] new_alock" by (simp add: new_alock_def split: option.splits)
  then obtain s where s: "lock_run wound_step [WoundLock (\<lambda>_. 0) WLOCK 1] new_alock = Some s"
    "\<forall>w t p. (\<forall>i\<in>waiting_ids (al_requests s). w i = 0) \<longrightarrow>
       (wound_vlock w t p s \<noteq> None \<longleftrightarrow> t = WLOCK \<or> (\<forall>r\<in>set (al_requests s). sint p \<le> lr_priority r))"
    using wound_lock_returns by blast
  have "\<not> (\<forall>r\<in>set (al_requests s). sint (2 :: u64) \<le> lr_priority r)"
    using s(1) by (auto simp: new_alock_def wound_vlock_def wound_die_def grant_front_def grant_write_def write_acquire_def new_req_def Let_def)
  then show ?thesis using s(1) s(2) [rule_format, of "\<lambda>_. 0" RLOCK 2] s(2) [rule_format, of "\<lambda>_. 0" WLOCK 2] by auto
qed

text \<open>
  C39. Whatever requests, releases and alarms a lock with time-outs gets, no check fails and no alarm refers to an erased request; a writer holds the
  lock alone, somebody holds it while others wait, a request is answered at most once, not while it waits, and positively if it holds
  the lock; and exactly the waiting requests have an alarm.
\<close>

theorem timeout_lock_sound:
  "\<exists>s. lock_run timeout_step ps (new_timeout_lock tm) = Some s \<and> lock_sound (timeout_holders s) (timeout_waits s) (tl_calls s) \<and>
     alarms_of (am_waiting (tl_alarm s)) = (\<lambda>r. (tr_alarm r, tr_id r)) ` {r \<in> set (tl_requests s). tr_status r = TR_WAIT}"
proof -
  obtain s where s: "lock_run timeout_step ps (new_timeout_lock tm) = Some s" "timeout_inv s" "lock_sound (timeout_holders s) (timeout_waits s) (tl_calls s)"
    using tl.run_sound [OF new_locks_inv(3) lock_allowed_True] by blast
  then show ?thesis using timeout_coreD(7) by (auto simp: timeout_inv_def)
qed

section \<open>The destructor and the lock of a row\<close>

lemma alock_destroy_answers:
  assumes "alock_inv s" "al_status s \<noteq> RLOCKED" "0 < i" "i < al_next s"
  shows "\<exists>s'. alock_destroy s = Some s' \<and> answers i (al_calls s') = 1"
proof -
  have ids: "ids_ok s" "\<not> al_done s" using assms(1) by (auto simp: alock_inv_def)
  have "distinct (map lr_id rs) \<Longrightarrow> answers i (map (\<lambda>r. NoCall (lr_id r)) (filter (\<lambda>r. lr_status r = REQ_WAIT) rs)) = (if i \<in> waiting_ids rs then 1 else 0)" for rs
  proof (induction rs)
    case (Cons r rs)
    then show ?case using waiting_ids_subset [of rs] by auto
  qed simp
  then show ?thesis using ids assms(2-4) by (auto simp: alock_destroy_def ids_ok_def)
qed

definition rw_inv :: "rw_lock \<Rightarrow> bool" where
  "rw_inv s \<longleftrightarrow> distinct (rw_readers s) \<and> (rw_wlocked s \<longrightarrow> rw_readers s = [])"

lemma rw_lock_exclusive:
  assumes "rw_inv s"
  shows "rw_inv (snd (wlock_by w s)) \<and> (fst (wlock_by w s) \<longrightarrow> rw_wlocked (snd (wlock_by w s)) \<and> rw_w (snd (wlock_by w s)) = w)"
    and "rw_inv (snd (rlock_by w s)) \<and> (fst (rlock_by w s) \<longleftrightarrow> \<not> (rw_wlocked s \<and> rw_w s \<noteq> w))"
    and "rw_inv (snd (unlock_by w s)) \<and> w \<notin> set (rw_readers (snd (unlock_by w s)))"
  using assms by (auto simp: rw_inv_def wlock_by_def rlock_by_def unlock_by_def Let_def length_Suc_conv distinct_removeAll)

end
