(* ===== verification/Scheduler2pl.thy ===== *)
theory Scheduler2pl
  imports ALockContract
begin

text \<open>
  Two-phase locking (\<^verbatim>\<open>2pl/scheduler.cc\<close>, \<^verbatim>\<open>2pl/tx.h\<close>) over wound-wait locks. The scheduler asks for a write lock for every access. A lock request
  waits in \<^verbatim>\<open>ALock::Lock\<close> for its callback, so \<^verbatim>\<open>Guard\<close> is two steps: the request, and what follows the answer. The wound callback of a request
  is that of the transaction that made it; it answers 0 and marks the transaction if that is woundable. The calls of the memory database
  at the end of a transaction are left out.
\<close>

record tx2pl =
  locked_locks :: "(nat \<times> nat) list"
  woundable :: bool
  wounded :: bool
  n_lock_requested :: int
  n_lock_granted :: int
  t_aborted :: bool
  t_committed :: bool
  t_inuse :: bool

definition new_tx2pl :: tx2pl where
  "new_tx2pl = \<lparr>locked_locks = [], woundable = True, wounded = False, n_lock_requested = 0, n_lock_granted = 0,
     t_aborted = False, t_committed = False, t_inuse = False\<rparr>"

text \<open>\<open>sp_owner\<close> gives the transaction of a request of a lock, \<open>sp_pending\<close> the calls of \<^verbatim>\<open>Guard\<close> that wait for an answer.\<close>

record sched2pl =
  sp_locks :: "nat \<Rightarrow> alock"
  sp_owner :: "nat \<Rightarrow> nat \<Rightarrow> u64"
  sp_txs :: "u64 \<Rightarrow> tx2pl"
  sp_pending :: "(u64 \<times> nat \<times> nat) list"

definition new_sched2pl :: sched2pl where
  "new_sched2pl = \<lparr>sp_locks = \<lambda>_. new_alock, sp_owner = \<lambda>_ _. 0, sp_txs = \<lambda>_. new_tx2pl, sp_pending = []\<rparr>"

definition upd_tx :: "u64 \<Rightarrow> (tx2pl \<Rightarrow> tx2pl) \<Rightarrow> sched2pl \<Rightarrow> sched2pl" where
  "upd_tx t f s = s\<lparr>sp_txs := (sp_txs s)(t := f (sp_txs s t))\<rparr>"

definition wound_answer :: "nat \<Rightarrow> sched2pl \<Rightarrow> nat \<Rightarrow> int" where
  "wound_answer l s i = (if woundable (sp_txs s (sp_owner s l i)) then 0 else 1)"

text \<open>The transactions marked by the wound callbacks among \<open>cs\<close>.\<close>

definition mark_wounded :: "nat \<Rightarrow> lock_call list \<Rightarrow> sched2pl \<Rightarrow> sched2pl" where
  "mark_wounded l cs s =
     s\<lparr>sp_txs := \<lambda>t. if woundable (sp_txs s t) \<and> (\<exists>c\<in>set cs. case c of WoundCall i \<Rightarrow> sp_owner s l i = t | _ \<Rightarrow> False)
                     then (sp_txs s t)\<lparr>wounded := True\<rparr> else sp_txs s t\<rparr>"

definition Guard_request :: "u64 \<Rightarrow> nat \<Rightarrow> sched2pl \<Rightarrow> sched2pl option" where
  "Guard_request t l s =
     do {vrfy (\<not> t_aborted (sp_txs s t));
         vrfy (\<not> t_committed (sp_txs s t));
         if wounded (sp_txs s t) then Some s
         else do {let s1 = upd_tx t (\<lambda>x. x\<lparr>n_lock_requested := n_lock_requested x + 1\<rparr>) s;
                  let k = sp_locks s1 l;
                  k1 \<leftarrow> wound_vlock (wound_answer l s1) WLOCK t k;
                  let s2 = mark_wounded l (drop (length (al_calls k)) (al_calls k1)) s1;
                  Some (s2\<lparr>sp_locks := (sp_locks s2)(l := k1), sp_owner := (sp_owner s2)(l := (sp_owner s2 l)(al_next k := t)),
                    sp_pending := sp_pending s2 @ [(t, l, al_next k)]\<rparr>)}}"

definition release :: "nat \<Rightarrow> nat \<Rightarrow> sched2pl \<Rightarrow> sched2pl option" where
  "release l i s = do {k \<leftarrow> alock_abort i (sp_locks s l); Some (s\<lparr>sp_locks := (sp_locks s)(l := k)\<rparr>)}"

definition Guard_answer :: "u64 \<Rightarrow> nat \<Rightarrow> nat \<Rightarrow> sched2pl \<Rightarrow> sched2pl option" where
  "Guard_answer t l i s =
     do {let s1 = s\<lparr>sp_pending := remove1 (t, l, i) (sp_pending s)\<rparr>;
         vrfy (\<not> t_committed (sp_txs s1 t));
         if YesCall i \<in> set (al_calls (sp_locks s1 l))
         then let s2 = upd_tx t (\<lambda>x. x\<lparr>n_lock_granted := n_lock_granted x + 1\<rparr>) s1
              in if t_aborted (sp_txs s2 t) then release l i s2
                 else Some (upd_tx t (\<lambda>x. x\<lparr>locked_locks := locked_locks x @ [(l, i)]\<rparr>) s2)
         else Some s1}"

definition DoPrepare :: "u64 \<Rightarrow> sched2pl \<Rightarrow> (bool \<times> sched2pl) option" where
  "DoPrepare t s =
     do {vrfy (\<not> t_inuse (sp_txs s t));
         vrfy (n_lock_granted (sp_txs s t) = n_lock_requested (sp_txs s t));
         let s1 = upd_tx t (\<lambda>x. x\<lparr>t_inuse := True\<rparr>) s;
         if wounded (sp_txs s1 t) then Some (False, s1)
         else Some (True, upd_tx t (\<lambda>x. x\<lparr>woundable := False, t_inuse := False\<rparr>) s1)}"

fun release_all :: "(nat \<times> nat) list \<Rightarrow> sched2pl \<Rightarrow> sched2pl option" where
  "release_all [] s = Some s"
| "release_all ((l, i) # ls) s = do {s1 \<leftarrow> release l i s; release_all ls s1}"

definition DoCommit :: "u64 \<Rightarrow> sched2pl \<Rightarrow> sched2pl option" where
  "DoCommit t s =
     do {s1 \<leftarrow> release_all (locked_locks (sp_txs s t)) s;
         Some (upd_tx t (\<lambda>x. x\<lparr>t_committed := True\<rparr>) s1)}"

definition DoAbort :: "u64 \<Rightarrow> sched2pl \<Rightarrow> sched2pl option" where
  "DoAbort t s =
     do {let s1 = upd_tx t (\<lambda>x. x\<lparr>t_aborted := True\<rparr>) s;
         release_all (locked_locks (sp_txs s1 t)) s1}"

text \<open>The end of \<^verbatim>\<open>DispatchPiece\<close> when a lock was refused.\<close>

definition DispatchPiece_failed :: "u64 \<Rightarrow> sched2pl \<Rightarrow> sched2pl" where
  "DispatchPiece_failed t = upd_tx t (\<lambda>x. x\<lparr>t_aborted := True\<rparr>)"

text \<open>
  The steps of a server. A transaction sends no further pieces after it prepared, a decision is executed for a transaction that
  has none, and only a prepared one is committed. An answer resumes the call that waits for it. A dispatch may fail at any time.
\<close>

inductive sched_reach :: "sched2pl \<Rightarrow> bool" where
  start: "sched_reach new_sched2pl"
| request: "sched_reach s \<Longrightarrow> woundable (sp_txs s t) \<Longrightarrow> Guard_request t l s = Some s' \<Longrightarrow> sched_reach s'"
| answer: "sched_reach s \<Longrightarrow> (t, l, i) \<in> set (sp_pending s) \<Longrightarrow>
    YesCall i \<in> set (al_calls (sp_locks s l)) \<or> NoCall i \<in> set (al_calls (sp_locks s l)) \<Longrightarrow> Guard_answer t l i s = Some s' \<Longrightarrow> sched_reach s'"
| failed: "sched_reach s \<Longrightarrow> woundable (sp_txs s t) \<Longrightarrow> sched_reach (DispatchPiece_failed t s)"
| prepare: "sched_reach s \<Longrightarrow> DoPrepare t s = Some (b, s') \<Longrightarrow> sched_reach s'"
| commit: "sched_reach s \<Longrightarrow> \<not> t_aborted (sp_txs s t) \<Longrightarrow> \<not> t_committed (sp_txs s t) \<Longrightarrow> \<not> woundable (sp_txs s t) \<Longrightarrow>
    DoCommit t s = Some s' \<Longrightarrow> sched_reach s'"
| abort: "sched_reach s \<Longrightarrow> \<not> t_committed (sp_txs s t) \<Longrightarrow> DoAbort t s = Some s' \<Longrightarrow> sched_reach s'"

end
