(* ===== verification/ALockMoves.thy ===== *)
theory ALockMoves
  imports ALockContract
begin

text \<open>
  What one step of a wound-wait lock changes for the others: who keeps the lock, who is called, who may lose it. The clients of the lock reason with these
  facts.
\<close>

section \<open>What a step of a lock changes\<close>

text \<open>Granting requests of a queue: holders stay, nobody starts to wait, and who is called holds the lock.\<close>

definition grants :: "lock_req list \<Rightarrow> alock \<Rightarrow> alock \<Rightarrow> bool" where
  "grants q s s' \<longleftrightarrow> al_next s' = al_next s \<and> holders q \<subseteq> holders (al_requests s') \<and> waiting_ids (al_requests s') \<subseteq> waiting_ids q \<and>
     map req_core (al_requests s') = map req_core q \<and>
     (\<exists>rs :: lock_req list. al_calls s' = al_calls s @ map (\<lambda>r. YesCall (lr_id r)) rs \<and> (\<forall>r\<in>set rs. (lr_id r, lr_type r) \<in> holders (al_requests s')))"

lemma holders_lock_it [simp]: "holders (map lock_it rs) = (\<lambda>r. (lr_id r, lr_type r)) ` set rs"
  by (induction rs) auto

lemma holders_subset: "holders rs \<subseteq> (\<lambda>r. (lr_id r, lr_type r)) ` set rs"
  by (auto simp: holders_def)

lemma grants_reads:
  assumes "read_acquire_all rs s = Some (ts, s1)" "s' = s1\<lparr>al_requests := K @ ts @ R\<rparr>"
  shows "grants (K @ rs @ R) s s'"
proof (cases "rs = []")
  case True
  then show ?thesis using assms by (auto simp: read_acquire_all_def grants_def)
next
  case False
  then have s': "al_requests s' = K @ map lock_it rs @ R" "al_next s' = al_next s" "al_calls s' = al_calls s @ map (\<lambda>r. YesCall (lr_id r)) rs"
    using assms by (auto simp: read_acquire_all_def split: if_splits)
  show ?thesis unfolding grants_def s' using holders_subset [of rs] by (auto simp: comp_def)
qed

lemma grant_reads_grants: "grant_reads before rest s = Some s' \<Longrightarrow> grants (before @ rest) s s'"
proof -
  assume "grant_reads before rest s = Some s'"
  then obtain ts s1 where "read_acquire_all (takeWhile is_read rest) s = Some (ts, s1)" "s' = s1\<lparr>al_requests := before @ ts @ dropWhile is_read rest\<rparr>"
    by (auto simp: grant_reads_def bind_eq_Some_conv)
  then show ?thesis using grants_reads [of "takeWhile is_read rest" s ts s1 s' before "dropWhile is_read rest"] by simp
qed

lemma grant_write_grants: "grant_write before rest s = Some s' \<Longrightarrow> al_requests s = before @ rest \<Longrightarrow> grants (before @ rest) s s'"
proof (cases rest)
  case Nil
  then show "grant_write before rest s = Some s' \<Longrightarrow> al_requests s = before @ rest \<Longrightarrow> grants (before @ rest) s s'"
    by (auto simp: grant_write_def grants_def)
next
  case (Cons r rs)
  assume "grant_write before rest s = Some s'"
  then have s': "al_requests s' = before @ lock_it r # rs" "al_next s' = al_next s" "al_calls s' = al_calls s @ map (\<lambda>r. YesCall (lr_id r)) [r]"
    using Cons by (auto simp: grant_write_def write_acquire_def bind_eq_Some_conv)
  show ?thesis unfolding grants_def s' Cons by (auto intro!: exI [of _ "[r]"])
qed

lemma grant_front_grants:
  assumes "grant_front s = Some s'"
  shows "grants (al_requests s) s s'"
proof -
  obtain front rest where q: "al_requests s = front # rest" using assms by (auto simp: grant_front_def split: list.splits)
  show ?thesis
  proof (cases "al_status s")
    case FREE
    then show ?thesis using assms q grant_reads_grants [of "[]" "front # rest" s s'] grant_write_grants [of "[]" "front # rest" s s']
      by (auto simp: grant_front_def split: if_splits)
  next
    case WLOCKED
    then show ?thesis using assms q by (auto simp: grant_front_def grants_def intro!: exI [of _ "[] :: lock_req list"])
  next
    case RLOCKED
    let ?P = "\<lambda>r. lr_status r = REQ_WAIT \<and> is_read r" and ?L = "\<lambda>r. lr_status r = REQ_LOCK"
    let ?locked = "takeWhile ?L (front # rest)" and ?more = "dropWhile ?L (front # rest)"
    obtain ts s1 where "read_acquire_all (takeWhile ?P ?more) s = Some (ts, s1)" "s' = s1\<lparr>al_requests := ?locked @ ts @ dropWhile ?P ?more\<rparr>"
      using assms q RLOCKED by (auto simp: grant_front_def Let_def bind_eq_Some_conv simp del: takeWhile.simps dropWhile.simps)
    from grants_reads [OF this] show ?thesis by (simp add: q del: takeWhile.simps dropWhile.simps)
  qed
qed

section \<open>Release and request\<close>

abbreviation held :: "alock \<Rightarrow> nat set" where
  "held k \<equiv> fst ` holders (al_requests k)"

abbreviation all_writes :: "alock \<Rightarrow> bool" where
  "all_writes k \<equiv> \<forall>r\<in>set (al_requests k). lr_type r = WLOCK"

lemma core_writes: "map req_core rs = map req_core ts \<Longrightarrow> \<forall>r\<in>set ts. lr_type r = WLOCK \<Longrightarrow> \<forall>r\<in>set rs. lr_type r = WLOCK"
proof -
  assume "map req_core rs = map req_core ts" "\<forall>r\<in>set ts. lr_type r = WLOCK"
  then have "\<forall>c\<in>set (map req_core rs). snd (snd c) = WLOCK" by auto
  then show ?thesis by auto
qed

definition lock_moves :: "nat set \<Rightarrow> alock \<Rightarrow> alock \<Rightarrow> lock_call list \<Rightarrow> bool" where
  "lock_moves lost k k' ds \<longleftrightarrow> al_calls k' = al_calls k @ ds \<and> (\<forall>j. YesCall j \<in> set ds \<longrightarrow> j \<in> held k') \<and> held k - lost \<subseteq> held k' \<and>
     (all_writes k \<longrightarrow> all_writes k')"

lemma grants_moves:
  assumes "grants q s1 s'" "al_calls s1 = al_calls s @ cs" "\<forall>j. YesCall j \<notin> set cs" "held s - lost \<subseteq> fst ` holders q"
    "all_writes s \<Longrightarrow> \<forall>r\<in>set q. lr_type r = WLOCK"
  shows "\<exists>ds. lock_moves lost s s' (cs @ ds) \<and> (\<forall>j. WoundCall j \<notin> set ds) \<and> al_next s' = al_next s1 \<and> waiting_ids (al_requests s') \<subseteq> waiting_ids q"
proof -
  obtain rs :: "lock_req list" where rs: "al_calls s' = al_calls s1 @ map (\<lambda>r. YesCall (lr_id r)) rs" "\<forall>r\<in>set rs. (lr_id r, lr_type r) \<in> holders (al_requests s')"
    and g: "holders q \<subseteq> holders (al_requests s')" "map req_core (al_requests s') = map req_core q" "al_next s' = al_next s1"
      "waiting_ids (al_requests s') \<subseteq> waiting_ids q" using assms(1) unfolding grants_def by blast
  have "held s - lost \<subseteq> held s'" using assms(4) image_mono [OF g(1), of fst] by blast
  moreover have "\<forall>j. YesCall j \<in> set (cs @ map (\<lambda>r. YesCall (lr_id r)) rs) \<longrightarrow> j \<in> held s'" using rs(2) assms(3) by force
  moreover have "all_writes s \<longrightarrow> all_writes s'" using core_writes [OF g(2)] assms(5) by blast
  ultimately show ?thesis using rs(1) assms(2) g(3,4)
    by (intro exI [of _ "map (\<lambda>r. YesCall (lr_id r)) rs"]) (auto simp: lock_moves_def)
qed

lemma abort_moves:
  assumes "alock_abort i k = Some k'"
  shows "\<exists>ds. lock_moves {i} k k' ds \<and> (\<forall>j. WoundCall j \<notin> set ds) \<and> al_next k' = al_next k \<and> waiting_ids (al_requests k') \<subseteq> waiting_ids (al_requests k)"
proof (cases "al_done k \<or> dropWhile (\<lambda>r. lr_id r \<noteq> i) (al_requests k) = []")
  case True
  then have "alock_abort i k = Some k"
  proof
    assume d: "dropWhile (\<lambda>r. lr_id r \<noteq> i) (al_requests k) = []"
    show ?thesis by (simp only: alock_abort_def Let_def d list.case if_cancel)
  qed (simp add: alock_abort_def)
  then have "k' = k" using assms by simp
  then show ?thesis by (intro exI [of _ "[]"]) (simp add: lock_moves_def)
next
  case False
  then obtain it rest where it: "dropWhile (\<lambda>r. lr_id r \<noteq> i) (al_requests k) = it # rest" by (cases "dropWhile (\<lambda>r. lr_id r \<noteq> i) (al_requests k)") auto
  define before where "before = takeWhile (\<lambda>r. lr_id r \<noteq> i) (al_requests k)"
  have q: "al_requests k = before @ it # rest" "lr_id it = i" using find_split [OF it] by (simp_all add: before_def)
  have sub: "held k - {i} \<subseteq> fst ` holders (before @ rest)" "waiting_ids (before @ rest) \<subseteq> waiting_ids (al_requests k)"
    "all_writes k \<Longrightarrow> \<forall>r\<in>set (before @ rest). lr_type r = WLOCK" using q by (auto split: if_splits)
  have stay: "grants (before @ rest) s1 s1" if "al_requests s1 = before @ rest" for s1
    using that by (auto simp: grants_def intro!: exI [of _ "[] :: lock_req list"])
  let ?s1 = "k\<lparr>al_requests := before @ rest\<rparr>"
  have "\<exists>s1 s2. al_calls s1 = al_calls k \<and> al_next s1 = al_next k \<and> grants (before @ rest) s1 s2 \<and>
      (k' = s2 \<or> k' = s2\<lparr>al_calls := al_calls s2 @ [NoCall i]\<rparr>)"
  proof (cases "lr_status it = REQ_WAIT")
    case True
    have "\<exists>s2. (grant_reads before rest ?s1 = Some s2 \<or> s2 = ?s1) \<and> k' = s2\<lparr>al_calls := al_calls s2 @ [NoCall i]\<rparr>"
      using assms True False it by (auto simp: alock_abort_def Let_def before_def [symmetric] bind_eq_Some_conv split: if_splits)
    then obtain s2 where s2: "grant_reads before rest ?s1 = Some s2 \<or> s2 = ?s1" "k' = s2\<lparr>al_calls := al_calls s2 @ [NoCall i]\<rparr>" by blast
    have "grants (before @ rest) ?s1 s2" using s2(1) stay [of ?s1] grant_reads_grants [of before rest ?s1 s2] by auto
    then show ?thesis using s2(2) by (intro exI [of _ ?s1] exI [of _ s2]) simp
  next
    case lk: False
    let ?s2 = "?s1\<lparr>al_n_rlock := al_n_rlock ?s1 - 1\<rparr>"
    have "grant_write before rest ?s2 = Some k' \<or> k' = ?s2 \<or> grant_write before rest ?s1 = Some k' \<or> grant_reads before rest ?s1 = Some k'"
      using assms lk False it by (auto simp: alock_abort_def Let_def before_def [symmetric] bind_eq_Some_conv split: if_splits list.splits)
    then show ?thesis
      using stay [of ?s2] grant_write_grants [of before rest ?s2 k'] grant_write_grants [of before rest ?s1 k'] grant_reads_grants [of before rest ?s1 k']
      by (elim disjE) (rule exI [of _ ?s2], rule exI [of _ k'], simp, rule exI [of _ ?s2], rule exI [of _ k'], simp,
        rule exI [of _ ?s1], rule exI [of _ k'], simp, rule exI [of _ ?s1], rule exI [of _ k'], simp)
  qed
  then obtain s1 s2 where s: "al_calls s1 = al_calls k" "al_next s1 = al_next k" "grants (before @ rest) s1 s2"
    "k' = s2 \<or> k' = s2\<lparr>al_calls := al_calls s2 @ [NoCall i]\<rparr>" by blast
  obtain ds where ds: "lock_moves {i} k s2 ([] @ ds)" "\<forall>j. WoundCall j \<notin> set ds" "al_next s2 = al_next s1" "waiting_ids (al_requests s2) \<subseteq> waiting_ids (before @ rest)"
    using grants_moves [OF s(3), of k "[]" "{i}"] s(1) sub by auto
  from s(4) show ?thesis
  proof
    assume "k' = s2"
    then show ?thesis using ds s(2) sub(2) by (intro exI [of _ ds]) auto
  next
    assume "k' = s2\<lparr>al_calls := al_calls s2 @ [NoCall i]\<rparr>"
    then show ?thesis using ds s(2) sub(2) by (intro exI [of _ "ds @ [NoCall i]"]) (auto simp: lock_moves_def)
  qed
qed

lemma wound_calls:
  "wound w r s = Some (ret, s2) \<Longrightarrow> al_calls s2 = al_calls s @ (WoundCall (lr_id r) # (if lr_status r = REQ_WAIT then [NoCall (lr_id r)] else []))"
  by (auto simp: wound_def Let_def bind_eq_Some_conv split: if_splits)

lemma wound_die_write_calls:
  assumes "wound_die_write w p todo kept s = Some (q, s1)"
  shows "\<exists>cs. al_calls s1 = al_calls s @ cs \<and> (\<forall>j. YesCall j \<notin> set cs) \<and> (\<forall>r\<in>set todo. p \<le> lr_priority r \<longrightarrow> WoundCall (lr_id r) \<in> set cs) \<and>
    (\<forall>j. WoundCall j \<in> set cs \<longrightarrow> j \<in> lr_id ` set todo)"
  using assms
proof (induction todo arbitrary: kept s)
  case (Cons r rs)
  show ?case
  proof (cases "p \<le> lr_priority r")
    case True
    obtain ret s2 where w: "wound w r s = Some (ret, s2)" "wound_die_write w p rs (if ret = 0 then kept else r # kept) s2 = Some (q, s1)"
      using Cons.prems True by (auto simp: bind_eq_Some_conv split: if_splits)
    let ?c = "WoundCall (lr_id r) # (if lr_status r = REQ_WAIT then [NoCall (lr_id r)] else [])"
    obtain cs where "al_calls s1 = al_calls s2 @ cs" "\<forall>j. YesCall j \<notin> set cs" "\<forall>r\<in>set rs. p \<le> lr_priority r \<longrightarrow> WoundCall (lr_id r) \<in> set cs"
      "\<forall>j. WoundCall j \<in> set cs \<longrightarrow> j \<in> lr_id ` set rs" using Cons.IH [OF w(2)] by blast
    then show ?thesis using wound_calls [OF w(1)] by (intro exI [of _ "?c @ cs"]) auto
  next
    case False
    then have "wound_die_write w p rs (r # kept) s = Some (q, s1)" using Cons.prems by simp
    from Cons.IH [OF this] show ?thesis using False by auto
  qed
qed simp

lemma vlock_moves:
  assumes "wound_vlock w WLOCK p k = Some k'" "alock_inv k" "\<forall>i\<in>waiting_ids (al_requests k). w i = 0"
  shows "\<exists>ds. lock_moves {j. WoundCall j \<in> set ds \<and> w j = 0} k k' ds \<and> (\<forall>j. WoundCall j \<in> set ds \<longrightarrow> j \<in> lr_id ` set (al_requests k)) \<and>
    al_next k' = al_next k + 1 \<and> waiting_ids (al_requests k') \<subseteq> insert (al_next k) (waiting_ids (al_requests k))"
proof -
  let ?s1 = "k\<lparr>al_next := al_next k + 1\<rparr>" and ?r = "new_req (al_next k) p WLOCK"
  let ?keep = "\<lambda>r. lr_priority r < sint p \<or> w (lr_id r) \<noteq> 0"
  have d: "\<not> al_done k" and ids: "ids_ok k" using assms(2) by (auto simp: alock_inv_def)
  have "queue_ok (al_next k) (al_requests ?s1) ?s1" using assms(2) by (auto simp: alock_inv_def queue_ok_def lock_ok_def ids_ok_def cong: lock_status.case_cong)
  moreover have "\<forall>r\<in>set (al_requests ?s1). lr_status r = REQ_WAIT \<longrightarrow> w (lr_id r) = 0" using assms(3) by (auto simp: waiting_ids_def)
  ultimately obtain s2 where s2: "wound_die w WLOCK (sint p) ?s1 = Some s2" "al_next s2 = al_next k + 1" "al_requests s2 = filter ?keep (al_requests k)"
    using wound_die_ok [of "al_next k" ?s1 w WLOCK "sint p"] by auto
  then obtain cs where cs: "al_calls s2 = al_calls k @ cs" "\<forall>j. YesCall j \<notin> set cs"
    "\<forall>r\<in>set (al_requests k). sint p \<le> lr_priority r \<longrightarrow> WoundCall (lr_id r) \<in> set cs" "\<forall>j. WoundCall j \<in> set cs \<longrightarrow> j \<in> lr_id ` set (al_requests k)"
    using wound_die_write_calls [of w "sint p" "rev (al_requests k)" "[]" ?s1] by (auto simp: wound_die_def bind_eq_Some_conv)
  let ?s3 = "s2\<lparr>al_requests := al_requests s2 @ [?r]\<rparr>" and ?lost = "{j. WoundCall j \<in> set cs \<and> w j = 0}"
  have "grant_front ?s3 = Some k'" using assms(1) s2(1) d by (simp add: wound_vlock_def Let_def)
  then have g: "grants (al_requests ?s3) ?s3 k'" by (rule grant_front_grants)
  have h: "held k - ?lost \<subseteq> fst ` holders (al_requests ?s3)"
  proof
    fix j
    assume j: "j \<in> held k - ?lost"
    then obtain r where r: "r \<in> set (al_requests k)" "lr_status r = REQ_LOCK" "lr_id r = j" by (auto simp: holders_def)
    then have "?keep r" using cs(3) j by force
    then have "r \<in> {r \<in> set (al_requests ?s3). lr_status r = REQ_LOCK}" using r by (simp add: s2(3))
    then show "j \<in> fst ` holders (al_requests ?s3)" unfolding holders_def image_image using r(3) by force
  qed
  have aw: "all_writes k \<Longrightarrow> all_writes ?s3" by (simp add: s2(3) new_req_def)
  have wt: "waiting_ids (al_requests ?s3) \<subseteq> insert (al_next k) (waiting_ids (al_requests k))"
    by (auto simp: s2(3) new_req_def waiting_ids_def)
  obtain ds where ds: "lock_moves ?lost k k' (cs @ ds)" "\<forall>j. WoundCall j \<notin> set ds" "al_next k' = al_next ?s3" "waiting_ids (al_requests k') \<subseteq> waiting_ids (al_requests ?s3)"
    using grants_moves [OF g _ cs(2) h aw] cs(1) by auto
  then show ?thesis using cs(4) s2(2) wt by (intro exI [of _ "cs @ ds"]) auto
qed

end
