(* ===== verification/TwoPhaseLocking.thy ===== *)
theory TwoPhaseLocking
  imports Scheduler2pl ALockMoves
begin

text \<open>
  The scheduler over its locks: the invariant of every server state, kept by each step, and two-phase locking from it.
\<close>

section \<open>The invariant of the scheduler\<close>

text \<open>Requests have owners, live transactions hold what they were granted unless wounded, waiting requests are pending, prepared transactions wait for nothing.\<close>

definition live :: "sched2pl \<Rightarrow> u64 \<Rightarrow> bool" where
  "live s t \<longleftrightarrow> \<not> t_aborted (sp_txs s t) \<and> \<not> t_committed (sp_txs s t)"

definition owned :: "sched2pl \<Rightarrow> u64 \<Rightarrow> nat \<Rightarrow> nat \<Rightarrow> bool" where
  "owned s t l i \<longleftrightarrow> 0 < i \<and> i < al_next (sp_locks s l) \<and> sp_owner s l i = t"

definition granted_to :: "sched2pl \<Rightarrow> u64 \<Rightarrow> nat \<Rightarrow> nat \<Rightarrow> bool" where
  "granted_to s t l i \<longleftrightarrow> (l, i) \<in> set (locked_locks (sp_txs s t)) \<or> ((t, l, i) \<in> set (sp_pending s) \<and> YesCall i \<in> set (al_calls (sp_locks s l)))"

definition sched_inv :: "sched2pl \<Rightarrow> bool" where
  "sched_inv s \<longleftrightarrow>
     (\<forall>l. alock_inv (sp_locks s l) \<and> all_writes (sp_locks s l)) \<and> distinct (sp_pending s) \<and>
     (\<forall>t l i. (t, l, i) \<in> set (sp_pending s) \<or> (l, i) \<in> set (locked_locks (sp_txs s t)) \<longrightarrow> owned s t l i) \<and>
     (\<forall>t l i. live s t \<and> \<not> wounded (sp_txs s t) \<and> granted_to s t l i \<longrightarrow> i \<in> held (sp_locks s l)) \<and>
     (\<forall>l i. i \<in> waiting_ids (al_requests (sp_locks s l)) \<longrightarrow> (sp_owner s l i, l, i) \<in> set (sp_pending s)) \<and>
     (\<forall>t. n_lock_granted (sp_txs s t) + int (length (filter (\<lambda>x. fst x = t) (sp_pending s))) \<le> n_lock_requested (sp_txs s t)) \<and>
     (\<forall>t. \<not> woundable (sp_txs s t) \<longrightarrow> \<not> wounded (sp_txs s t) \<and> (\<forall>l i. (t, l, i) \<notin> set (sp_pending s)))"

lemma sched_invD:
  assumes "sched_inv s"
  shows "alock_inv (sp_locks s l)" "all_writes (sp_locks s l)" "distinct (sp_pending s)"
    "(t, l, i) \<in> set (sp_pending s) \<Longrightarrow> owned s t l i" "(l, i) \<in> set (locked_locks (sp_txs s t)) \<Longrightarrow> owned s t l i"
    "live s t \<Longrightarrow> \<not> wounded (sp_txs s t) \<Longrightarrow> granted_to s t l i \<Longrightarrow> i \<in> held (sp_locks s l)"
    "i \<in> waiting_ids (al_requests (sp_locks s l)) \<Longrightarrow> (sp_owner s l i, l, i) \<in> set (sp_pending s)"
    "n_lock_granted (sp_txs s t) + int (length (filter (\<lambda>x. fst x = t) (sp_pending s))) \<le> n_lock_requested (sp_txs s t)"
    "\<not> woundable (sp_txs s t) \<Longrightarrow> \<not> wounded (sp_txs s t)" "\<not> woundable (sp_txs s t) \<Longrightarrow> (t, l, i) \<notin> set (sp_pending s)"
  using assms unfolding sched_inv_def by blast+

lemma sched_invI:
  assumes "\<And>l. alock_inv (sp_locks s l)" "\<And>l. all_writes (sp_locks s l)" "distinct (sp_pending s)"
    "\<And>t l i. (t, l, i) \<in> set (sp_pending s) \<Longrightarrow> owned s t l i" "\<And>t l i. (l, i) \<in> set (locked_locks (sp_txs s t)) \<Longrightarrow> owned s t l i"
    "\<And>t l i. live s t \<Longrightarrow> \<not> wounded (sp_txs s t) \<Longrightarrow> granted_to s t l i \<Longrightarrow> i \<in> held (sp_locks s l)"
    "\<And>l i. i \<in> waiting_ids (al_requests (sp_locks s l)) \<Longrightarrow> (sp_owner s l i, l, i) \<in> set (sp_pending s)"
    "\<And>t. n_lock_granted (sp_txs s t) + int (length (filter (\<lambda>x. fst x = t) (sp_pending s))) \<le> n_lock_requested (sp_txs s t)"
    "\<And>t. \<not> woundable (sp_txs s t) \<Longrightarrow> \<not> wounded (sp_txs s t)" "\<And>t l i. \<not> woundable (sp_txs s t) \<Longrightarrow> (t, l, i) \<notin> set (sp_pending s)"
  shows "sched_inv s"
  using assms unfolding sched_inv_def by blast

lemma yes_answers: "YesCall i \<in> set cs \<or> NoCall i \<in> set cs \<Longrightarrow> 0 < answers i cs"
  by (induction cs) auto

lemma answered_not_waiting:
  assumes "alock_inv k" "YesCall i \<in> set (al_calls k) \<or> NoCall i \<in> set (al_calls k)"
  shows "i \<notin> waiting_ids (al_requests k)" "i < al_next k"
  using yes_answers [OF assms(2)] assms(1) by (auto simp: alock_inv_def ids_ok_def split: if_splits)

section \<open>Release\<close>

lemma release_inv:
  assumes "sched_inv s" "owned s t l i" "\<not> live s t"
  shows "\<exists>s'. release l i s = Some s' \<and> sched_inv s' \<and> sp_txs s' = sp_txs s \<and> sp_owner s' = sp_owner s \<and> sp_pending s' = sp_pending s \<and>
    (\<forall>m. al_next (sp_locks s' m) = al_next (sp_locks s m))"
proof -
  note D = sched_invD [OF assms(1)]
  obtain k where k: "alock_abort i (sp_locks s l) = Some k" "alock_inv k" using alock_abort_inv [OF D(1)] by blast
  obtain ds where ds: "lock_moves {i} (sp_locks s l) k ds" "al_next k = al_next (sp_locks s l)" "waiting_ids (al_requests k) \<subseteq> waiting_ids (al_requests (sp_locks s l))"
    using abort_moves [OF k(1)] by blast
  let ?s = "s\<lparr>sp_locks := (sp_locks s)(l := k)\<rparr>"
  have nx: "al_next (sp_locks ?s m) = al_next (sp_locks s m)" for m using ds(2) by simp
  have own: "owned ?s u m j = owned s u m j" for u m j using ds(2) by (simp add: owned_def)
  have "sched_inv ?s"
  proof (rule sched_invI)
    show "all_writes (sp_locks ?s m)" for m using D(2) ds(1) by (auto simp: lock_moves_def)
    show "j \<in> held (sp_locks ?s m)" if h: "live ?s u" "\<not> wounded (sp_txs ?s u)" "granted_to ?s u m j" for u m j
    proof (cases "m = l")
      case True
      have lv: "live s u" "\<not> wounded (sp_txs s u)" using h(1,2) by (simp_all add: live_def)
      have ow: "owned s u m j" using h(3) D(4,5) by (auto simp: granted_to_def)
      have "j \<noteq> i" using ow assms(2,3) lv(1) True by (auto simp: owned_def)
      show ?thesis
      proof (cases "granted_to s u m j")
        case g: True
        then show ?thesis using D(6) [OF lv g] ds(1) \<open>j \<noteq> i\<close> True by (auto simp: lock_moves_def)
      next
        case False
        then have "YesCall j \<in> set ds" using h(3) True ds(1) by (auto simp: granted_to_def lock_moves_def)
        then show ?thesis using ds(1) True by (auto simp: lock_moves_def)
      qed
    next
      case False
      then show ?thesis using h D(6) [of u m j] by (simp add: granted_to_def live_def)
    qed
    show "(sp_owner ?s m j, m, j) \<in> set (sp_pending ?s)" if "j \<in> waiting_ids (al_requests (sp_locks ?s m))" for m j
      using that D(7) ds(3) by (auto split: if_splits)
  qed (use D k(2) own in \<open>auto\<close>)
  then show ?thesis using k(1) nx by (simp add: release_def)
qed

lemma release_all_inv:
  assumes "sched_inv s" "\<forall>(l, i)\<in>set ls. owned s t l i" "\<not> live s t"
  shows "\<exists>s'. release_all ls s = Some s' \<and> sched_inv s' \<and> sp_txs s' = sp_txs s"
  using assms
proof (induction ls arbitrary: s)
  case (Cons x ls)
  obtain l i where x: "x = (l, i)" by (cases x)
  obtain s1 where s1: "release l i s = Some s1" "sched_inv s1" "sp_txs s1 = sp_txs s" "sp_owner s1 = sp_owner s" "\<forall>m. al_next (sp_locks s1 m) = al_next (sp_locks s m)"
    using release_inv [of s t l i] Cons.prems x by auto
  have "\<forall>(l, i)\<in>set ls. owned s1 t l i" "\<not> live s1 t" using Cons.prems s1(3-5) by (auto simp: owned_def live_def)
  from Cons.IH [OF s1(2) this] show ?case using s1 x by auto
qed simp

lemma release_upd: "release l i (upd_tx t f s) = map_option (upd_tx t f) (release l i s)"
proof (cases "alock_abort i (sp_locks s l)")
  case (Some k)
  then show ?thesis by (cases s) (simp add: release_def upd_tx_def)
qed (simp add: release_def upd_tx_def)

lemma release_all_upd: "release_all ls (upd_tx t f s) = map_option (upd_tx t f) (release_all ls s)"
proof (induction ls arbitrary: s)
  case (Cons x ls)
  obtain l i where x: "x = (l, i)" by (cases x)
  show ?case using Cons.IH by (cases "release l i s") (simp_all add: x release_upd)
qed simp

section \<open>The steps\<close>

text \<open>A request of \<open>t\<close> for the lock \<open>l\<close>: those who lose it are marked, those who are called hold it.\<close>

lemma Guard_request_keeps:
  assumes inv: "sched_inv s" and ti: "woundable (sp_txs s t)" and k1: "alock_inv k1"
    and ds: "lock_moves {j. WoundCall j \<in> set ds \<and> w j = 0} (sp_locks s l) k1 ds"
      "al_next k1 = al_next (sp_locks s l) + 1" "waiting_ids (al_requests k1) \<subseteq> insert (al_next (sp_locks s l)) (waiting_ids (al_requests (sp_locks s l)))"
    and w: "\<And>j. w j = 0 \<longleftrightarrow> woundable (sp_txs s (sp_owner s l j))"
    and tx: "\<And>u. woundable (sp_txs s' u) = woundable (sp_txs s u)" "\<And>u. locked_locks (sp_txs s' u) = locked_locks (sp_txs s u)"
      "\<And>u. live s' u = live s u" "\<And>u. n_lock_granted (sp_txs s' u) = n_lock_granted (sp_txs s u)"
      "\<And>u. n_lock_requested (sp_txs s' u) = n_lock_requested (sp_txs s u) + (if u = t then 1 else 0)"
    and wd: "\<And>u. wounded (sp_txs s' u) \<longleftrightarrow> wounded (sp_txs s u) \<or> woundable (sp_txs s u) \<and> (\<exists>j. WoundCall j \<in> set ds \<and> sp_owner s l j = u)"
    and lk: "sp_locks s' = (sp_locks s)(l := k1)" "sp_pending s' = sp_pending s @ [(t, l, al_next (sp_locks s l))]"
      "sp_owner s' = (sp_owner s)(l := (sp_owner s l)(al_next (sp_locks s l) := t))"
  shows "sched_inv s'"
proof (rule sched_invI)
  note D = sched_invD [OF inv]
  let ?k = "sp_locks s l" and ?i = "al_next (sp_locks s l)"
  have ow: "owned s' u m j" if "owned s u m j" for u m j using that ds(2) by (auto simp: owned_def lk)
  have i: "0 < ?i" using D(1) [of l] by (simp add: alock_inv_def ids_ok_def)
  show "alock_inv (sp_locks s' m)" for m using D(1) k1 by (simp add: lk)
  show "all_writes (sp_locks s' m)" for m using D(2) [of m] ds(1) D(2) [of l] by (cases "m = l") (simp_all add: lk lock_moves_def)
  have "(t, l, ?i) \<notin> set (sp_pending s)" using D(4) [of t l ?i] by (auto simp: owned_def)
  then show "distinct (sp_pending s')" using D(3) by (simp add: lk)
  show "owned s' u m j" if "(u, m, j) \<in> set (sp_pending s')" for u m j
    using that D(4) ow i ds(2) by (auto simp: lk) (simp add: owned_def lk)
  show "owned s' u m j" if "(m, j) \<in> set (locked_locks (sp_txs s' u))" for u m j using that D(5) ow by (simp add: tx)
  show "(sp_owner s' m j, m, j) \<in> set (sp_pending s')" if "j \<in> waiting_ids (al_requests (sp_locks s' m))" for m j
    using that D(7) [of j m] ds(3) by (cases "m = l") (auto simp: lk)
  show "n_lock_granted (sp_txs s' u) + int (length (filter (\<lambda>x. fst x = u) (sp_pending s'))) \<le> n_lock_requested (sp_txs s' u)" for u
    using D(8) [of u] by (cases "u = t") (simp_all add: tx lk)
  show "\<not> wounded (sp_txs s' u)" if "\<not> woundable (sp_txs s' u)" for u using that D(9) [of u] by (simp add: tx wd)
  show "(u, m, j) \<notin> set (sp_pending s')" if "\<not> woundable (sp_txs s' u)" for u m j using that D(10) [of u m j] ti by (auto simp: tx lk)
  show "j \<in> held (sp_locks s' m)" if h: "live s' u" "\<not> wounded (sp_txs s' u)" "granted_to s' u m j" for u m j
  proof -
    have lv: "live s u" "\<not> wounded (sp_txs s u)" using h(1,2) by (simp_all add: tx wd)
    show ?thesis
    proof (cases "granted_to s u m j")
      case g: True
      note hj = D(6) [OF lv g]
      have "owned s u m j" using g D(4,5) by (auto simp: granted_to_def)
      then have "\<not> (WoundCall j \<in> set ds \<and> w j = 0)" if "m = l" using that h(2) by (auto simp: w wd owned_def)
      then show ?thesis using hj ds(1) by (cases "m = l") (auto simp: lk lock_moves_def)
    next
      case False
      have "YesCall ?i \<notin> set (al_calls ?k)" using answered_not_waiting(2) [OF D(1), of ?i l] by auto
      then have "m = l \<and> YesCall j \<in> set ds" using False h(3) ds(1) by (auto simp: granted_to_def tx lk lock_moves_def split: if_splits)
      then show ?thesis using ds(1) by (simp add: lk lock_moves_def)
    qed
  qed
qed

lemma wound_case: "(case c of WoundCall i \<Rightarrow> P i | _ \<Rightarrow> False) \<longleftrightarrow> (\<exists>i. c = WoundCall i \<and> P i)"
  by (cases c) auto

lemma Guard_request_inv:
  assumes "sched_inv s" "live s t" "woundable (sp_txs s t)"
  shows "\<exists>s'. Guard_request t l s = Some s' \<and> sched_inv s'"
proof (cases "wounded (sp_txs s t)")
  case True
  then show ?thesis using assms by (simp add: Guard_request_def live_def)
next
  case nw: False
  note D = sched_invD [OF assms(1)]
  let ?s1 = "upd_tx t (\<lambda>x. x\<lparr>n_lock_requested := n_lock_requested x + 1\<rparr>) s" and ?k = "sp_locks s l"
  let ?i = "al_next (sp_locks s l)" and ?w = "wound_answer l (upd_tx t (\<lambda>x. x\<lparr>n_lock_requested := n_lock_requested x + 1\<rparr>) s)"
  have w: "?w = (\<lambda>i. if woundable (sp_txs s (sp_owner s l i)) then 0 else 1)" by (auto simp: wound_answer_def upd_tx_def)
  have wait0: "\<forall>i\<in>waiting_ids (al_requests ?k). ?w i = 0" using D(7,10) by (fastforce simp: w)
  obtain k1 where k1: "wound_vlock ?w WLOCK t ?k = Some k1" "alock_inv k1"
    using wound_vlock_inv [OF D(1) , of l ?w WLOCK t] wait0 by (auto simp: waiting_ids_def)
  obtain ds where ds: "lock_moves {j. WoundCall j \<in> set ds \<and> ?w j = 0} ?k k1 ds" "\<forall>j. WoundCall j \<in> set ds \<longrightarrow> j \<in> lr_id ` set (al_requests ?k)"
    "al_next k1 = ?i + 1" "waiting_ids (al_requests k1) \<subseteq> insert ?i (waiting_ids (al_requests ?k))"
    using vlock_moves [OF k1(1) D(1) wait0] by blast
  have dr: "drop (length (al_calls ?k)) (al_calls k1) = ds" using ds(1) by (simp add: lock_moves_def)
  let ?s2 = "mark_wounded l ds ?s1"
  let ?s = "?s2\<lparr>sp_locks := (sp_locks s)(l := k1), sp_owner := (sp_owner s)(l := (sp_owner s l)(?i := t)), sp_pending := sp_pending s @ [(t, l, ?i)]\<rparr>"
  have g: "Guard_request t l s = Some ?s"
    using nw assms(2) k1(1) by (simp add: Guard_request_def live_def Let_def upd_tx_def mark_wounded_def dr [unfolded upd_tx_def])
  have tx: "woundable (sp_txs ?s u) = woundable (sp_txs s u)" "locked_locks (sp_txs ?s u) = locked_locks (sp_txs s u)" "live ?s u = live s u"
    "n_lock_granted (sp_txs ?s u) = n_lock_granted (sp_txs s u)" "n_lock_requested (sp_txs ?s u) = n_lock_requested (sp_txs s u) + (if u = t then 1 else 0)" for u
    by (simp_all add: mark_wounded_def upd_tx_def live_def)
  have wd: "wounded (sp_txs ?s u) \<longleftrightarrow> wounded (sp_txs s u) \<or> woundable (sp_txs s u) \<and> (\<exists>j. WoundCall j \<in> set ds \<and> sp_owner s l j = u)" for u
    by (auto simp: mark_wounded_def upd_tx_def wound_case)
  have lk: "sp_locks ?s = (sp_locks s)(l := k1)" "sp_pending ?s = sp_pending s @ [(t, l, ?i)]" "sp_owner ?s = (sp_owner s)(l := (sp_owner s l)(?i := t))" by simp_all
  have w0: "?w j = 0 \<longleftrightarrow> woundable (sp_txs s (sp_owner s l j))" for j by (simp add: w)
  have "sched_inv ?s" by (rule Guard_request_keeps [OF assms(1,3) k1(2) ds(1,3,4) w0 tx wd lk])
  then show ?thesis using g by blast
qed

lemma upd_tx_fields [simp]: "sp_locks (upd_tx t f s) = sp_locks s" "sp_owner (upd_tx t f s) = sp_owner s" "sp_pending (upd_tx t f s) = sp_pending s"
  "sp_txs (upd_tx t f s) u = (if u = t then f (sp_txs s t) else sp_txs s u)"
  by (simp_all add: upd_tx_def)

lemma owned_upd [simp]: "owned (upd_tx t f s) u l i = owned s u l i"
  by (simp add: owned_def)

text \<open>An aborted or committed transaction is no longer accountable for its locks.\<close>

lemma sched_inv_finish:
  assumes "sched_inv s" "f = (\<lambda>x. x\<lparr>t_aborted := True\<rparr>) \<or> f = (\<lambda>x. x\<lparr>t_committed := True\<rparr>)"
  shows "sched_inv (upd_tx t f s)" "\<not> live (upd_tx t f s) t"
proof -
  note D = sched_invD [OF assms(1)]
  have tx: "woundable (f x) = woundable x" "locked_locks (f x) = locked_locks x" "wounded (f x) = wounded x" "n_lock_granted (f x) = n_lock_granted x"
    "n_lock_requested (f x) = n_lock_requested x" for x using assms(2) by auto
  show dead: "\<not> live (upd_tx t f s) t" using assms(2) by (auto simp: live_def)
  have lv: "live s u" if "live (upd_tx t f s) u" for u using that dead by (cases "u = t") (simp_all add: live_def)
  show "sched_inv (upd_tx t f s)"
  proof (rule sched_invI)
    show "j \<in> held (sp_locks (upd_tx t f s) m)"
      if "live (upd_tx t f s) u" "\<not> wounded (sp_txs (upd_tx t f s) u)" "granted_to (upd_tx t f s) u m j" for u m j
      using that lv [OF that(1)] D(6) [of u m j] by (auto simp: granted_to_def tx split: if_splits)
  qed (use D in \<open>auto simp: tx split: if_splits\<close>)
qed

lemma DoAbort_inv:
  assumes "sched_inv s"
  shows "\<exists>s'. DoAbort t s = Some s' \<and> sched_inv s'"
proof -
  let ?s = "upd_tx t (\<lambda>x. x\<lparr>t_aborted := True\<rparr>) s"
  have s1: "sched_inv ?s" "\<not> live ?s t" using sched_inv_finish [OF assms] by blast+
  have "\<forall>(l, i)\<in>set (locked_locks (sp_txs ?s t)). owned ?s t l i" using sched_invD(5) [OF assms] by auto
  from release_all_inv [OF s1(1) this s1(2)] show ?thesis unfolding DoAbort_def Let_def by blast
qed

lemma DoCommit_inv:
  assumes "sched_inv s"
  shows "\<exists>s'. DoCommit t s = Some s' \<and> sched_inv s'"
proof -
  let ?s = "upd_tx t (\<lambda>x. x\<lparr>t_committed := True\<rparr>) s"
  have s1: "sched_inv ?s" "\<not> live ?s t" using sched_inv_finish [OF assms] by blast+
  have "\<forall>(l, i)\<in>set (locked_locks (sp_txs s t)). owned ?s t l i" using sched_invD(5) [OF assms] by auto
  from release_all_inv [OF s1(1) this s1(2)] show ?thesis by (auto simp: DoCommit_def release_all_upd)
qed

lemma DoPrepare_inv:
  assumes "sched_inv s" "DoPrepare t s = Some (b, s')"
  shows "sched_inv s'"
proof -
  note D = sched_invD [OF assms(1)]
  have eq: "n_lock_granted (sp_txs s t) = n_lock_requested (sp_txs s t)" using assms(2) by (auto simp: DoPrepare_def Let_def split: if_splits)
  then have "filter (\<lambda>x. fst x = t) (sp_pending s) = []" using D(8) [of t] by simp
  then have none: "(t, l, i) \<notin> set (sp_pending s)" for l i by (auto simp: filter_empty_conv)
  have s': "sp_locks s' = sp_locks s" "sp_owner s' = sp_owner s" "sp_pending s' = sp_pending s"
    "\<And>u. locked_locks (sp_txs s' u) = locked_locks (sp_txs s u) \<and> wounded (sp_txs s' u) = wounded (sp_txs s u) \<and> live s' u = live s u \<and>
      n_lock_granted (sp_txs s' u) = n_lock_granted (sp_txs s u) \<and> n_lock_requested (sp_txs s' u) = n_lock_requested (sp_txs s u) \<and>
      (woundable (sp_txs s' u) \<longleftrightarrow> woundable (sp_txs s u) \<and> (u = t \<longrightarrow> wounded (sp_txs s t)))"
    using assms(2) D(9) [of t] by (auto simp: DoPrepare_def Let_def live_def split: if_splits)
  show ?thesis
  proof (rule sched_invI)
    show "(u, m, j) \<notin> set (sp_pending s')" if "\<not> woundable (sp_txs s' u)" for u m j
      using that none [of m j] D(10) [of u m j] s'(3,4) by (cases "u = t") auto
    show "\<not> wounded (sp_txs s' u)" if "\<not> woundable (sp_txs s' u)" for u using that s'(4) [of u] D(9) [of u] by auto
  qed (use D s' in \<open>auto simp: owned_def granted_to_def\<close>)
qed

lemma Guard_answer_inv:
  assumes "sched_inv s" "(t, l, i) \<in> set (sp_pending s)" "YesCall i \<in> set (al_calls (sp_locks s l)) \<or> NoCall i \<in> set (al_calls (sp_locks s l))"
    "Guard_answer t l i s = Some s'"
  shows "sched_inv s'"
proof -
  note D = sched_invD [OF assms(1)]
  let ?s1 = "s\<lparr>sp_pending := remove1 (t, l, i) (sp_pending s)\<rparr>"
  have pend: "set (remove1 (t, l, i) (sp_pending s)) = set (sp_pending s) - {(t, l, i)}" using D(3) by simp
  have len: "int (length (filter (\<lambda>x. fst x = u) (remove1 (t, l, i) (sp_pending s)))) + (if u = t then 1 else 0) = int (length (filter (\<lambda>x. fst x = u) (sp_pending s)))" for u
  proof (cases "u = t")
    case True
    then have "0 < length (filter (\<lambda>x. fst x = u) (sp_pending s))" using assms(2) by (intro length_pos_if_in_set [of "(t, l, i)"]) simp
    then show ?thesis using True assms(2) by (simp add: filter_remove1 length_remove1 del: length_greater_0_conv)
  qed (simp add: filter_remove1)
  have wt: "i \<notin> waiting_ids (al_requests (sp_locks s l))" by (rule answered_not_waiting [OF D(1) assms(3)])
  have keep: "sched_inv s2" if h: "sp_locks s2 = sp_locks s" "sp_owner s2 = sp_owner s" "sp_pending s2 = remove1 (t, l, i) (sp_pending s)"
    "\<And>u. wounded (sp_txs s2 u) = wounded (sp_txs s u) \<and> woundable (sp_txs s2 u) = woundable (sp_txs s u) \<and> live s2 u = live s u \<and>
       n_lock_requested (sp_txs s2 u) = n_lock_requested (sp_txs s u) \<and> n_lock_granted (sp_txs s2 u) \<le> n_lock_granted (sp_txs s u) + (if u = t then 1 else 0)"
    "\<And>u m j. (m, j) \<in> set (locked_locks (sp_txs s2 u)) \<Longrightarrow> (m, j) \<in> set (locked_locks (sp_txs s u)) \<or> u = t \<and> m = l \<and> j = i \<and> YesCall i \<in> set (al_calls (sp_locks s l))" for s2
  proof (rule sched_invI)
    have own: "owned s2 u m j = owned s u m j" for u m j by (simp add: owned_def h)
    show "owned s2 u m j" if "(m, j) \<in> set (locked_locks (sp_txs s2 u))" for u m j using h(5) [OF that] D(4,5) assms(2) own by auto
    show "j \<in> held (sp_locks s2 m)" if g: "live s2 u" "\<not> wounded (sp_txs s2 u)" "granted_to s2 u m j" for u m j
    proof -
      have "granted_to s u m j" using g(3) h(5) [of m j u] assms(2) pend by (auto simp: granted_to_def h(1,3))
      then show ?thesis using D(6) [of u m j] g(1,2) h(1,4) by simp
    qed
    show "(sp_owner s2 m j, m, j) \<in> set (sp_pending s2)" if "j \<in> waiting_ids (al_requests (sp_locks s2 m))" for m j
      using that D(7) [of j m] wt pend by (auto simp: h(1-3))
    show "n_lock_granted (sp_txs s2 u) + int (length (filter (\<lambda>x. fst x = u) (sp_pending s2))) \<le> n_lock_requested (sp_txs s2 u)" for u
      using D(8) [of u] h(4) [of u] len [of u] by (simp add: h(3) split: if_splits)
    show "distinct (sp_pending s2)" using D(3) by (simp add: h(3))
  qed (use D pend h in \<open>auto simp: owned_def\<close>)
  let ?g = "upd_tx t (\<lambda>x. x\<lparr>n_lock_granted := n_lock_granted x + 1\<rparr>) ?s1"
  consider (no) "s' = ?s1" | (dead) "t_aborted (sp_txs s t)" "release l i ?g = Some s'"
    | (yes) "YesCall i \<in> set (al_calls (sp_locks s l))" "s' = upd_tx t (\<lambda>x. x\<lparr>locked_locks := locked_locks x @ [(l, i)]\<rparr>) ?g"
    using assms(4) by (auto simp: Guard_answer_def Let_def split: if_splits)
  then show ?thesis
  proof cases
    case no
    show ?thesis unfolding no by (rule keep) (simp_all add: live_def)
  next
    case dead
    have g: "sched_inv ?g" by (rule keep) (auto simp: live_def split: if_splits)
    have "owned ?g t l i" "\<not> live ?g t" using D(4) [OF assms(2)] dead(1) by (simp_all add: owned_def live_def)
    then show ?thesis using release_inv [OF g] dead(2) by fastforce
  next
    case yes
    show ?thesis unfolding yes(2) by (rule keep) (use yes(1) in \<open>auto simp: live_def split: if_splits\<close>)
  qed
qed

lemma sched_reach_inv: "sched_reach s \<Longrightarrow> sched_inv s"
proof (induction rule: sched_reach.induct)
  case start
  have "alock_inv new_alock" by (rule new_locks_inv)
  then show ?case by (intro sched_invI) (auto simp: new_sched2pl_def new_tx2pl_def new_alock_def granted_to_def waiting_ids_def)
next
  case (request s t l s')
  have "live s t" using request(3) by (auto simp: Guard_request_def live_def split: if_splits)
  then show ?case using Guard_request_inv [OF request(4), of t l] request(2,3) by auto
next
  case (failed s t)
  then show ?case unfolding DispatchPiece_failed_def by (intro sched_inv_finish) auto
next
  case (commit s t s')
  then show ?case using DoCommit_inv [of s t] by auto
next
  case (abort s t s')
  then show ?case using DoAbort_inv [of s t] by auto
qed (blast intro: Guard_answer_inv DoPrepare_inv)+

section \<open>Two-phase locking\<close>

lemma held_alone:
  assumes "sched_inv s" "i \<in> held (sp_locks s l)"
  shows "holders (al_requests (sp_locks s l)) = {(i, WLOCK)}"
proof -
  have "(i, WLOCK) \<in> holders (al_requests (sp_locks s l))" using assms(2) sched_invD(2) [OF assms(1), of l] by (force simp: holders_def)
  then show ?thesis by (rule alock_inv_sound(1) [OF sched_invD(1) [OF assms(1)]])
qed

lemma locks_of_live:
  assumes "sched_inv s" "live s t" "\<not> wounded (sp_txs s t)" "(l, i) \<in> set (locked_locks (sp_txs s t))"
  shows "holders (al_requests (sp_locks s l)) = {(i, WLOCK)}" "sp_owner s l i = t"
  using held_alone [OF assms(1)] sched_invD(5,6) [OF assms(1)] assms by (auto simp: granted_to_def owned_def)


text \<open>
  Transaction 5 has the lock; transaction 3 asks for it, wounds 5 and is granted the lock, prepares, and is not wounded by transaction 1.
\<close>

lemma example_2pl_run:
  "case Guard_request 5 0 new_sched2pl of None \<Rightarrow> False | Some s1 \<Rightarrow>
     (5, 0, 1) \<in> set (sp_pending s1) \<and> YesCall 1 \<in> set (al_calls (sp_locks s1 0)) \<and>
     (case Guard_answer 5 0 1 s1 of None \<Rightarrow> False | Some s2 \<Rightarrow> woundable (sp_txs s2 3) \<and>
     (case Guard_request 3 0 s2 of None \<Rightarrow> False | Some s3 \<Rightarrow>
        (3, 0, 2) \<in> set (sp_pending s3) \<and> YesCall 2 \<in> set (al_calls (sp_locks s3 0)) \<and>
     (case Guard_answer 3 0 2 s3 of None \<Rightarrow> False | Some s4 \<Rightarrow>
     (case DoPrepare 3 s4 of None \<Rightarrow> False | Some (b, s5) \<Rightarrow> woundable (sp_txs s5 1) \<and>
     (case Guard_request 1 0 s5 of None \<Rightarrow> False | Some s \<Rightarrow>
        wounded (sp_txs s 5) \<and> \<not> woundable (sp_txs s 3) \<and> \<not> t_aborted (sp_txs s 3) \<and> \<not> t_committed (sp_txs s 3) \<and>
        locked_locks (sp_txs s 3) = [(0, 2)])))))"
  by code_simp


end
