(* ===== verification/Spec2Isabelle.thy ===== *)
theory Spec2Isabelle
  imports FastPath RaftElection RuleServer RuleCoordinator Messages SwiftAgreement PaxosAgreement MenciusOrder TwoPhaseLocking
begin

text \<open>
  Jetpack: a verification of the core of the replication code under \<^verbatim>\<open>src/src\<close>.

  \<^bold>\<open>The program.\<close> A client runs transactions against replicated partitions. Its coordinator
  (\<^verbatim>\<open>deptran/rule/coordinator.cc\<close>) sends a command on two paths at once: speculatively to all replicas, each of which
  votes on it (\<^verbatim>\<open>deptran/scheduler.cc\<close>), and to the leader, which replicates it (\<^verbatim>\<open>deptran/raft/server.cc\<close>, or
  another protocol). A fast quorum of votes answers the client before the log does. What a replica voted for is kept in its
  command pool (or, in the CURP build, in its witness, \<^verbatim>\<open>deptran/curp/witness.cc\<close>) until the log has applied
  it; when the leader changes, the new one recovers the fast commands from the pools of a majority
  (\<^verbatim>\<open>deptran/scheduler.cc\<close>, \<^verbatim>\<open>deptran/communicator.cc\<close>). Underneath are events and coroutines
  (\<^verbatim>\<open>rrr/reactor\<close>) and the marshalling of messages (\<^verbatim>\<open>rrr/misc\<close>, \<^verbatim>\<open>rrr/base\<close>). SwiftPaxos
  (\<^verbatim>\<open>deptran/swiftpaxos\<close>), Multi-Paxos (\<^verbatim>\<open>deptran/paxos\<close>) and Mencius (\<^verbatim>\<open>deptran/mencius\<close>) are protocols of
  their own on the same base. Transactions lock the rows they touch with the queued locks of \<^verbatim>\<open>rrr/misc/alock.cpp\<close>.

  \<^bold>\<open>Conventions.\<close> A class is a record, a handler a function from the old state to the new one, an abort (\<^verbatim>\<open>verify\<close>, a
  failed parse) the value \<open>None\<close>. A map of the program is an association list (\<^verbatim>\<open>operator[]\<close> is \<open>at_default\<close>), a set a list without
  repetition, both sorted where the iteration order matters. Unsigned integers whose width matters are words; counters that
  cannot overflow in practice are \<open>int\<close> or \<open>nat\<close>, and the theory that uses them says so. Clock readings,
  random numbers, replies of other processes and the bytes the kernel transfers are arguments. A broadcast
  is appended to a list of the sender; cross-replica theorems take any interleaving of the deliveries, as an inductive
  step relation. The text of each theory says what else it leaves out.

  \<^bold>\<open>The theories.\<close>
  \<^item> \<open>Prelude\<close>: integer types of \<^verbatim>\<open>constants.h\<close>, containers, \<^verbatim>\<open>verify\<close>, counting lemmas for quorums.
  \<^item> \<open>Command\<close>: commands and their read/write view (\<^verbatim>\<open>RW_command.h\<close>, \<^verbatim>\<open>RW_command.cc\<close>): parsing, identifiers,
    conflicts, quorum sizes, the attempt predictor. The extractor of the hot path agrees with the parser.
  \<^item> \<open>ConflictTracker\<close>: the contract of a replica in the fast path, as a locale; from it follows that two
    different writes on a key never both gather a fast quorum. \<open>CommandPool\<close> (\<^verbatim>\<open>RevoveryCandidates\<close>,
    \<^verbatim>\<open>JetpackCommandPool\<close>) and \<open>Witness\<close> (\<^verbatim>\<open>curp/witness.cc\<close>) interpret it. They also show what
    \<^verbatim>\<open>push_back\<close> accepts, that the counters are exact, that no \<^verbatim>\<open>verify\<close> fails, that an accepted write stays the candidate
    for recovery, and that the witness refines a map of attempts in flight.
  \<^item> \<open>View\<close> (\<^verbatim>\<open>view.h\<close>): views and the table of partition views, which holds the newest view received.
  \<^item> \<open>Event\<close> (\<^verbatim>\<open>rrr/reactor/event.cc\<close>, \<^verbatim>\<open>reactor.cc\<close>): waiting, testing, time-outs and the loop; no wake-up is lost or
    duplicated, but for test-based waits on shared events.
  \<^item> \<open>Quorum\<close> (\<^verbatim>\<open>rrr/reactor/quorum_event.h\<close>, \<^verbatim>\<open>communicator.h\<close>): quorum events and the tallies of the recovery replies; an
    event never answers both ways and answers when all have voted; the recovered list is exact.
  \<^item> \<open>Recovery\<close>: the handlers \<^verbatim>\<open>OnJetpack*\<close>, their broadcasts and the procedure of the new leader.
    \<open>FastPath\<close>: over all replicas, a fast write is in the recovered list of every recovery and resubmitted; replicas hold
    still meanwhile; the Paxos round inside the recovery can decide twice and a late message can reopen the fast path.
  \<^item> \<open>RuleServer\<close> (\<^verbatim>\<open>OnRuleSpeculativeExecute\<close> and what it calls): when a leader votes yes, and that the table of
    original-path commands refines the multiset of commands not yet applied.
  \<^item> \<open>RuleCoordinator\<close> (\<^verbatim>\<open>rule/coordinator.cc\<close> over \<^verbatim>\<open>classic/coordinator.cc\<close>): the client; each transaction is sent and
    answered once as long as no leader refuses; what goes wrong when one does.
  \<^item> \<open>Raft\<close> (\<^verbatim>\<open>raft/server.cc\<close>, \<^verbatim>\<open>raft/server.h\<close>, \<^verbatim>\<open>raft/commo.cc\<close>): the server. \<open>RaftLog\<close> and \<open>RaftReplication\<close>: the invariant
    of the log over every call, application in order, replication, commit by majority. \<open>RaftElection\<close>: one winner per term over
    any interleaving; leases; the runs in which refused votes, late batches and freed slots break the protocol.
  \<^item> \<open>MarshalBuffer\<close> (\<^verbatim>\<open>rrr/misc/marshal.cpp\<close>): the chunked buffer refines a queue of bytes. \<open>Codec\<close>
    (\<^verbatim>\<open>marshal.hpp\<close>, \<^verbatim>\<open>rrr/base/basetypes.cpp\<close>): integers, sparse integers, strings, vectors on the buffer; the locale of a
    codec, its round trip for pairs and vectors proved once. \<open>Messages\<close> (\<^verbatim>\<open>procedure.h\<close>, \<^verbatim>\<open>command_marshaler.cc\<close>): the
    commands and batches of the replication layer are read back as they were written.
  \<^item> \<open>SwiftPaxos\<close> (\<^verbatim>\<open>swiftpaxos/server.cc\<close>): the server with its recovery. \<open>SwiftDelivery\<close>: the search
    for a ballot ends, a command is applied at most once under any messages. \<open>SwiftAgreement\<close>: without a recovery all
    replicas commit with the dependency of the leader, endorsed by a majority; a recovery can lose a committed command.
  \<^item> \<open>MultiPaxos\<close> (\<^verbatim>\<open>paxos/server.cc\<close>, \<^verbatim>\<open>paxos/coordinator.cc\<close>, \<^verbatim>\<open>paxos/commo.cc\<close>): the acceptors with their log, the
    coordinators and a network that keeps the order of the calls to a replica. \<open>PaxosAgreement\<close>: the contract of a
    replicated log as a locale, interpreted on the reachable states; replicas apply prefixes of one sequence, each
    command accepted by a majority, and apply everything when nothing is under way.
  \<^item> \<open>Mencius\<close> (\<^verbatim>\<open>mencius/server.cc\<close>, \<^verbatim>\<open>mencius/service.cc\<close>, \<^verbatim>\<open>mencius/commo.cc\<close>): the server and its slots. \<open>MenciusOrder\<close>:
    each decision is applied once and all of them in the end; conflicting writes can be applied in different orders; the
    loop that looks for slots to skip finds none or does not end.
  \<^item> \<open>ALock\<close> (\<^verbatim>\<open>rrr/misc/alock.hpp\<close>, \<^verbatim>\<open>alock.cpp\<close>, \<^verbatim>\<open>alarm.hpp\<close>, \<^verbatim>\<open>memdb/locking.h\<close>): the lock whose callers are called back, with its policies
    wait-die, wound-wait and time-out. \<open>ALockQueue\<close>: the invariant of the queue over requests and releases; who waits for whom.
    \<open>ALockTimeout\<close>: the time-out lock with its alarm. \<open>ALockContract\<close>: the contract of an exclusive lock as a locale (no two holders
    conflict, a request is answered at most once), interpreted on the reachable states of each policy; wait-die never waits in a cycle and passes its own
    \<^verbatim>\<open>sanity_check\<close>; a read of the wound-wait lock can hang.
  \<^item> \<open>Scheduler2pl\<close> (\<^verbatim>\<open>2pl/scheduler.cc\<close>, \<^verbatim>\<open>2pl/tx.h\<close>): the transactions of a server over their wound-wait locks. \<open>ALockMoves\<close>: what one step of a lock changes
    for its other users. \<open>TwoPhaseLocking\<close>: over any interleaving of requests, answers, wounds and decisions, an undecided transaction that was not
    wounded holds alone what it was granted, and a prepared one is never wounded.

  \<^bold>\<open>Termination and bounds.\<close> All operations are total functions but three, which are partial functions: the search for a ballot in
  \<open>TriggerRecovery\<close>, shown to return for the values that occur, the search for slots to skip in Mencius, shown to
  return exactly when no majority offers the first one, and the scan of a wound-wait read, shown to return exactly when it meets no request of a smaller
  priority value. Loops that remove slots or
  chunks recurse on a measure. Round trips of containers need lengths the format can
  hold, below \<open>2 ^ 31\<close> for counters of 32 bits and \<open>2 ^ 48\<close> for sparse 64-bit lengths, because a sparse
  integer of eight bytes does not survive the wire.

  \<^bold>\<open>Not modelled.\<close> The RPC transport, sockets and threads (I/O; replies are arguments); the adapters to
  MongoDB, etcd and ZooKeeper (external services); the benchmarks, configuration and start-up; statistics
  and log lines; the coordinator of Mencius, whose phases are those of Multi-Paxos. Copilot, corrected EPaxos, FPGA Raft, the other transaction schedulers with their
  dependency graphs and epochs, and the tables of the in-memory database are parts of the repository that this development does not
  cover.
\<close>

end
